(* ===== verification/Osrm_Prelude.thy ===== *)
theory Osrm_Prelude
  imports Complex_Main "HOL-Library.Word" "HOL-Library.AList" "HOL-Library.Multiset"
    "HOL-Library.Monad_Syntax"
begin

text \<open>
  What the component theories share: the named collections of facts, the model of the C++
  arithmetic types the sources use (checked signed 64-bit integers, IEEE doubles, conversions
  between them), and generic lemmas on association lists.

  Undefined behaviour is a value.  A signed overflow and a conversion of a double that does not
  fit its integer target are undefined in C++; the operations below return \<^term>\<open>None\<close> there, and
  every definition that uses them is in the option monad.  A theorem that a function returns
  \<^term>\<open>Some\<close> is therefore also a theorem that it runs without undefined behaviour.

  A double is a rational, an infinity or NaN.  Comparisons with NaN are false and NaN absorbs, as in
  IEEE 754; the rounding of results to 53 bits, and the sign of zero, are not modelled.
\<close>

named_theorems fp_simps \<open>evaluation of the floating point operations\<close>
named_theorems i64_simps \<open>evaluation of the checked 64-bit operations\<close>

section \<open>Signed 64-bit integers\<close>

definition in_i64 :: "int \<Rightarrow> bool" where
  "in_i64 x \<longleftrightarrow> - (2 ^ 63) \<le> x \<and> x < 2 ^ 63"

definition i64_add :: "int \<Rightarrow> int \<Rightarrow> int option" where
  "i64_add a b = (if in_i64 (a + b) then Some (a + b) else None)"

definition i64_sub :: "int \<Rightarrow> int \<Rightarrow> int option" where
  "i64_sub a b = (if in_i64 (a - b) then Some (a - b) else None)"

lemma in_i64_bounds: "in_i64 x \<longleftrightarrow> -9223372036854775808 \<le> x \<and> x < 9223372036854775808"
  by (simp add: in_i64_def)

lemmas [i64_simps] = i64_add_def i64_sub_def in_i64_bounds

lemma i64_sub_nonneg [simp]:
  "in_i64 a \<Longrightarrow> 0 \<le> a \<Longrightarrow> in_i64 b \<Longrightarrow> 0 \<le> b \<Longrightarrow> i64_sub a b = Some (a - b)"
  by (simp add: i64_simps)

lemma i64_add_Some: "i64_add a b = Some c \<longleftrightarrow> in_i64 (a + b) \<and> c = a + b"
  by (auto simp: i64_add_def)

lemma i64_sub_Some: "i64_sub a b = Some c \<longleftrightarrow> in_i64 (a - b) \<and> c = a - b"
  by (auto simp: i64_sub_def)

section \<open>Doubles\<close>

datatype fp = Fin rat | PInf | NInf | NaN

fun is_finite :: "fp \<Rightarrow> bool" where
  "is_finite (Fin _) = True"
| "is_finite _ = False"

fun fp_less :: "fp \<Rightarrow> fp \<Rightarrow> bool" where
  "fp_less (Fin a) (Fin b) = (a < b)"
| "fp_less NInf (Fin _) = True"
| "fp_less NInf PInf = True"
| "fp_less (Fin _) PInf = True"
| "fp_less _ _ = False"

fun fp_le :: "fp \<Rightarrow> fp \<Rightarrow> bool" where
  "fp_le (Fin a) (Fin b) = (a \<le> b)"
| "fp_le NInf (Fin _) = True"
| "fp_le NInf NInf = True"
| "fp_le NInf PInf = True"
| "fp_le (Fin _) PInf = True"
| "fp_le PInf PInf = True"
| "fp_le _ _ = False"

fun fp_add :: "fp \<Rightarrow> fp \<Rightarrow> fp" where
  "fp_add (Fin a) (Fin b) = Fin (a + b)"
| "fp_add NaN _ = NaN"
| "fp_add _ NaN = NaN"
| "fp_add PInf NInf = NaN"
| "fp_add NInf PInf = NaN"
| "fp_add PInf _ = PInf"
| "fp_add _ PInf = PInf"
| "fp_add NInf _ = NInf"
| "fp_add _ NInf = NInf"

fun fp_sgn :: "fp \<Rightarrow> rat" where
  "fp_sgn (Fin a) = sgn a"
| "fp_sgn PInf = 1"
| "fp_sgn NInf = - 1"
| "fp_sgn NaN = 0"

definition fp_inf :: "rat \<Rightarrow> fp" where
  "fp_inf s = (if s = 0 then NaN else if 0 < s then PInf else NInf)"

fun fp_mul :: "fp \<Rightarrow> fp \<Rightarrow> fp" where
  "fp_mul (Fin a) (Fin b) = Fin (a * b)"
| "fp_mul x y = fp_inf (fp_sgn x * fp_sgn y)"

fun fp_div :: "fp \<Rightarrow> fp \<Rightarrow> fp" where
  "fp_div (Fin a) (Fin b) = (if b = 0 then fp_inf (sgn a) else Fin (a / b))"
| "fp_div NaN _ = NaN"
| "fp_div _ NaN = NaN"
| "fp_div (Fin _) _ = Fin 0"
| "fp_div PInf (Fin b) = (if b < 0 then NInf else PInf)"
| "fp_div NInf (Fin b) = (if b < 0 then PInf else NInf)"
| "fp_div _ _ = NaN"

text \<open>\<^verbatim>\<open>std::round\<close>: to the nearest integer, halfway cases away from zero.\<close>

definition round_away :: "rat \<Rightarrow> int" where
  "round_away a = (if 0 \<le> a then \<lfloor>a + 1 / 2\<rfloor> else \<lceil>a - 1 / 2\<rceil>)"

fun fp_round :: "fp \<Rightarrow> fp" where
  "fp_round (Fin a) = Fin (of_int (round_away a))"
| "fp_round x = x"

text \<open>Truncation towards zero, and the conversions to the integer types.\<close>

definition trunc :: "rat \<Rightarrow> int" where
  "trunc a = (if 0 \<le> a then \<lfloor>a\<rfloor> else \<lceil>a\<rceil>)"

fun fp_to_i32 :: "fp \<Rightarrow> int option" where
  "fp_to_i32 (Fin a) = (if - (2 ^ 31) \<le> trunc a \<and> trunc a < 2 ^ 31 then Some (trunc a) else None)"
| "fp_to_i32 _ = None"

fun fp_to_u32 :: "fp \<Rightarrow> 32 word option" where
  "fp_to_u32 (Fin a) = (if 0 \<le> trunc a \<and> trunc a < 2 ^ 32 then Some (of_int (trunc a)) else None)"
| "fp_to_u32 _ = None"

definition fp_of_u32 :: "32 word \<Rightarrow> fp" where
  "fp_of_u32 w = Fin (of_nat (unat w))"

lemma trunc_of_int [simp]: "trunc (of_int z) = z"
  by (simp add: trunc_def)

lemma trunc_nonneg: "0 \<le> a \<Longrightarrow> 0 \<le> trunc a"
  by (simp add: trunc_def)

lemma round_away_nonneg: "0 \<le> a \<Longrightarrow> 0 \<le> round_away a"
  by (simp add: round_away_def)

lemma round_away_of_int [simp]: "round_away (of_int z) = z"
proof (cases "0 \<le> z")
  case True
  then show ?thesis by (simp add: round_away_def floor_eq_iff)
next
  case False
  then show ?thesis by (simp add: round_away_def ceiling_eq_iff)
qed

lemma round_away_le:
  assumes "0 \<le> a" "a \<le> of_int z"
  shows "round_away a \<le> z"
proof -
  have "a + 1 / 2 < of_int (z + 1)" using assms(2) by simp
  then have "\<lfloor>a + 1 / 2\<rfloor> < z + 1" by (simp only: floor_less_iff)
  then show ?thesis using assms(1) by (simp add: round_away_def)
qed

lemma round_away_mono:
  assumes "0 \<le> a" "a \<le> b"
  shows "round_away a \<le> round_away b"
  using assms by (simp add: round_away_def floor_mono)

lemma round_away_close: "\<bar>of_int (round_away a) - a\<bar> \<le> 1 / 2"
proof (cases "0 \<le> a")
  case True
  then show ?thesis
    unfolding round_away_def using floor_correct [of "a + 1 / 2"] by (simp only: if_True) linarith
next
  case False
  then show ?thesis
    unfolding round_away_def using ceiling_correct [of "a - 1 / 2"]
    by (simp only: if_False) linarith
qed

lemmas [fp_simps] = fp_inf_def round_away_def trunc_def fp_of_u32_def

lemma is_finite_iff: "is_finite x \<longleftrightarrow> (\<exists>a. x = Fin a)"
  by (cases x) auto

lemma fp_add_commute: "fp_add x y = fp_add y x"
  by (cases x; cases y) (auto simp: add.commute)

lemma fp_add_assoc: "fp_add (fp_add x y) z = fp_add x (fp_add y z)"
  by (cases x; cases y; cases z) (auto simp: add.assoc)

lemma fp_add_left_commute: "fp_add x (fp_add y z) = fp_add y (fp_add x z)"
  by (metis fp_add_commute fp_add_assoc)

lemmas fp_add_ac = fp_add_assoc fp_add_commute fp_add_left_commute

lemma fp_add_zero [simp]: "fp_add (Fin 0) x = x" "fp_add x (Fin 0) = x"
  by (cases x; simp)+

lemma fp_le_refl: "x \<noteq> NaN \<Longrightarrow> fp_le x x"
  by (cases x) auto

lemma fp_le_Fin: "fp_le (Fin a) x \<Longrightarrow> fp_le x (Fin b) \<Longrightarrow> \<exists>c. x = Fin c \<and> a \<le> c \<and> c \<le> b"
  by (cases x) auto

text \<open>A finite value between two bounds.\<close>

definition in_range :: "rat \<Rightarrow> rat \<Rightarrow> fp \<Rightarrow> bool" where
  "in_range lo hi x \<longleftrightarrow> (\<exists>c. x = Fin c \<and> lo \<le> c \<and> c \<le> hi)"

text \<open>The values a range check \<open>\<not> (x < lo) \<and> \<not> (x > hi)\<close> lets through: those in range, and NaN.\<close>

lemma fp_range_check:
  "\<not> fp_less x (Fin lo) \<and> \<not> fp_less (Fin hi) x \<longleftrightarrow> x = NaN \<or> (\<exists>c. x = Fin c \<and> lo \<le> c \<and> c \<le> hi)"
  by (cases x) auto

section \<open>Words\<close>

lemma unat_lt_2_power: "unat w < 2 ^ LENGTH('a)" for w :: "'a::len word"
  by (rule unsigned_less)

lemma sint_small:
  fixes n :: "32 word"
  assumes "unat n < 2 ^ 31"
  shows "sint n = int (unat n)"
proof -
  have "int (unat n) < int (2 ^ 31)" using assms by (simp only: of_nat_less_iff)
  then have "uint n < 2 ^ 31" by simp
  then have "signed_take_bit 31 (uint n) = uint n"
    using order_trans [OF _ uint_ge_0 [of n]] by (intro signed_take_bit_int_eq_self) simp_all
  then show ?thesis by (simp add: sint_uint)
qed

section \<open>Association lists\<close>

text \<open>
  A hash map of the sources is an association list with distinct keys; its order stands for the
  unspecified iteration order.
\<close>

lemma distinct_keys_update [simp]:
  "distinct (map fst al) \<Longrightarrow> distinct (map fst (AList.update k v al))"
  by (rule AList.distinct_update)

lemma map_of_update [simp]: "map_of (AList.update k v al) = (map_of al)(k \<mapsto> v)"
  by (simp add: AList.update_conv')

lemma set_update_subset: "set (AList.update k v al) \<subseteq> insert (k, v) (set al)"
  by (induction al) auto

lemma distinct_keys_filter [simp]: "distinct (map fst al) \<Longrightarrow> distinct (map fst (filter P al))"
  by (induction al) auto

lemma map_of_filter_distinct:
  assumes "distinct (map fst al)"
  shows "map_of (filter P al) k
    = (case map_of al k of None \<Rightarrow> None | Some v \<Rightarrow> if P (k, v) then Some v else None)"
  using assms
proof (induction al)
  case Nil
  then show ?case by simp
next
  case (Cons x xs)
  obtain k' v' where x: "x = (k', v')" by (cases x)
  have none: "k = k' \<Longrightarrow> map_of (filter P xs) k = None"
    using Cons.prems x by (auto simp: map_of_eq_None_iff)
  with Cons x show ?case
    by (auto split: option.splits)
qed

end
