(* ===== verification/Protozero.thy ===== *)
theory Protozero
  imports Osrm_Prelude
begin

unbundle bit_operations_syntax

text \<open>
  The part of the vendored protocol buffer codec (\<^verbatim>\<open>third_party/protozero\<close>) that the traffic
  messages use: varints, field headers, little-endian fixed-width values, length-delimited
  messages.  A reader is the list of its unread bytes; the library's exceptions are the values of
  \<open>pbf_error\<close>.  The library's debug assertions are compiled out in release builds and are not part
  of the model.
\<close>

type_synonym byte = "8 word"

datatype pbf_error = EndOfBuffer | VarintTooLong | InvalidTag | UnknownWireType

datatype pbf_wire_type = WtVarint | WtFixed64 | WtLengthDelimited | WtFixed32

section \<open>Varints\<close>

text \<open>The unrolled loop taken when at least ten bytes are left; \<open>i\<close> counts the bytes read.\<close>

fun varint_fast :: "nat \<Rightarrow> 64 word \<Rightarrow> byte list \<Rightarrow> pbf_error + (64 word \<times> byte list)" where
  "varint_fast i val [] = Inl EndOfBuffer"
| "varint_fast i val (b # bs) =
     (let val' = val OR push_bit (7 * i) (ucast b AND (if i < 9 then 127 else 1))
      in if b < 128 then Inr (val', bs)
         else if 9 \<le> i then Inl VarintTooLong
         else varint_fast (Suc i) val' bs)"

text \<open>The bounds-checked loop taken near the end of the buffer.\<close>

fun varint_slow :: "nat \<Rightarrow> 64 word \<Rightarrow> byte list \<Rightarrow> pbf_error + (64 word \<times> byte list)" where
  "varint_slow shift val [] = Inl EndOfBuffer"
| "varint_slow shift val (b # bs) =
     (if 128 \<le> b then varint_slow (shift + 7) (val OR push_bit shift (ucast b AND 127)) bs
      else Inr (val OR push_bit shift (ucast b), bs))"

definition decode_varint_impl :: "byte list \<Rightarrow> pbf_error + (64 word \<times> byte list)" where
  "decode_varint_impl data =
     (if 10 \<le> length data then varint_fast 0 0 data else varint_slow 0 0 data)"

definition decode_varint :: "byte list \<Rightarrow> pbf_error + (64 word \<times> byte list)" where
  "decode_varint data = (case data of
       b # bs \<Rightarrow> if b AND 128 = 0 then Inr (ucast b, bs) else decode_varint_impl data
     | [] \<Rightarrow> decode_varint_impl data)"

definition skip_varint :: "byte list \<Rightarrow> pbf_error + byte list" where
  "skip_varint data =
     (let p = takeWhile (\<lambda>b. 128 \<le> b) data; rest = dropWhile (\<lambda>b. 128 \<le> b) data
      in if 10 \<le> length p then Inl VarintTooLong
         else case rest of [] \<Rightarrow> Inl EndOfBuffer | _ # bs \<Rightarrow> Inr bs)"

text \<open>\<^verbatim>\<open>add_varint_to_buffer\<close>: the bytes it appends.\<close>

function add_varint :: "64 word \<Rightarrow> byte list" where
  "add_varint v = (if 128 \<le> v then ucast ((v AND 127) OR 128) # add_varint (drop_bit 7 v)
                   else [ucast v])"
  by pat_completeness auto

lemma drop_bit_7_less: "128 \<le> v \<Longrightarrow> unat (drop_bit 7 v) < unat v" for v :: "64 word"
  unfolding unat_drop_bit_eq by (simp add: drop_bit_eq_div word_le_nat_alt)

termination add_varint
  by (relation "measure unat") (auto intro: drop_bit_7_less)

declare add_varint.simps [simp del]

section \<open>Field headers, fixed-width values, lengths\<close>

fun wire_type_of :: "32 word \<Rightarrow> pbf_error + pbf_wire_type" where
  "wire_type_of w =
     (if w = 0 then Inr WtVarint else if w = 1 then Inr WtFixed64
      else if w = 2 then Inr WtLengthDelimited else if w = 5 then Inr WtFixed32
      else Inl UnknownWireType)"

text \<open>
  \<^verbatim>\<open>pbf_reader::next\<close>: \<^term>\<open>Inr None\<close> at the end of the data, otherwise the tag, the wire type
  and the bytes after the header.
\<close>

definition pbf_next :: "byte list \<Rightarrow> pbf_error + (32 word \<times> pbf_wire_type \<times> byte list) option" where
  "pbf_next data =
     (if data = [] then Inr None
      else case decode_varint data of
        Inl e \<Rightarrow> Inl e
      | Inr (v, rest) \<Rightarrow>
          (let val = (ucast v :: 32 word); tag = drop_bit 3 val
           in if tag = 0 \<or> (19000 \<le> tag \<and> tag \<le> 19999) then Inl InvalidTag
              else case wire_type_of (val AND 7) of
                Inl e \<Rightarrow> Inl e
              | Inr wt \<Rightarrow> Inr (Some (tag, wt, rest))))"

definition skip_bytes :: "nat \<Rightarrow> byte list \<Rightarrow> pbf_error + byte list" where
  "skip_bytes len data = (if length data < len then Inl EndOfBuffer else Inr (drop len data))"

definition get_length :: "byte list \<Rightarrow> pbf_error + (32 word \<times> byte list)" where
  "get_length data = (case decode_varint data of
       Inl e \<Rightarrow> Inl e | Inr (v, rest) \<Rightarrow> Inr (ucast v, rest))"

definition pbf_skip :: "pbf_wire_type \<Rightarrow> byte list \<Rightarrow> pbf_error + byte list" where
  "pbf_skip wt data = (case wt of
       WtVarint \<Rightarrow> skip_varint data
     | WtFixed64 \<Rightarrow> skip_bytes 8 data
     | WtLengthDelimited \<Rightarrow> (case get_length data of
         Inl e \<Rightarrow> Inl e | Inr (len, rest) \<Rightarrow> skip_bytes (unat len) rest)
     | WtFixed32 \<Rightarrow> skip_bytes 4 data)"

text \<open>\<^verbatim>\<open>get_fixed\<close> and \<^verbatim>\<open>add_fixed\<close>: the bytes of a value, least significant first.\<close>

fun le_word :: "byte list \<Rightarrow> 'a::len word" where
  "le_word [] = 0"
| "le_word (b # bs) = ucast b OR push_bit 8 (le_word bs)"

fun le_bytes :: "nat \<Rightarrow> 'a::len word \<Rightarrow> byte list" where
  "le_bytes 0 w = []"
| "le_bytes (Suc n) w = ucast w # le_bytes n (drop_bit 8 w)"

definition get_fixed :: "nat \<Rightarrow> byte list \<Rightarrow> pbf_error + ('a::len word \<times> byte list)" where
  "get_fixed n data = (case skip_bytes n data of
       Inl e \<Rightarrow> Inl e | Inr rest \<Rightarrow> Inr (le_word (take n data), rest))"

text \<open>\<^verbatim>\<open>get_view\<close> and \<^verbatim>\<open>get_message\<close>: the bytes of a length-delimited field.\<close>

definition get_message :: "byte list \<Rightarrow> pbf_error + (byte list \<times> byte list)" where
  "get_message data = (case get_length data of
       Inl e \<Rightarrow> Inl e
     | Inr (len, rest) \<Rightarrow> (case skip_bytes (unat len) rest of
         Inl e \<Rightarrow> Inl e | Inr rest' \<Rightarrow> Inr (take (unat len) rest, rest')))"

section \<open>The writer\<close>

fun wire_type_val :: "pbf_wire_type \<Rightarrow> 32 word" where
  "wire_type_val WtVarint = 0"
| "wire_type_val WtFixed64 = 1"
| "wire_type_val WtLengthDelimited = 2"
| "wire_type_val WtFixed32 = 5"

definition add_field :: "32 word \<Rightarrow> pbf_wire_type \<Rightarrow> byte list" where
  "add_field tag wt = add_varint (ucast (push_bit 3 tag OR wire_type_val wt))"

definition add_tagged_varint :: "32 word \<Rightarrow> 64 word \<Rightarrow> byte list" where
  "add_tagged_varint tag v = add_field tag WtVarint @ add_varint v"

definition add_double :: "32 word \<Rightarrow> 64 word \<Rightarrow> byte list" where
  "add_double tag v = add_field tag WtFixed64 @ le_bytes 8 v"

definition add_float :: "32 word \<Rightarrow> 32 word \<Rightarrow> byte list" where
  "add_float tag v = add_field tag WtFixed32 @ le_bytes 4 v"

definition add_message :: "32 word \<Rightarrow> byte list \<Rightarrow> byte list" where
  "add_message tag bytes = add_field tag WtLengthDelimited
     @ add_varint (ucast (word_of_nat (length bytes) :: 32 word)) @ bytes"

section \<open>Reading back what was written\<close>

lemma bit_127 [simp]: "bit (127 :: int) n \<longleftrightarrow> n < 7"
proof -
  have "(127 :: int) = mask 7" by (simp add: mask_eq_exp_minus_1)
  then show ?thesis by (simp only: bit_mask_iff) simp
qed

lemma bit_128 [simp]: "bit (128 :: int) n \<longleftrightarrow> n = 7"
proof -
  have "(128 :: int) = 2 ^ 7" by simp
  then show ?thesis by (simp only: bit_exp_iff) auto
qed

lemma byte_high_bit: "128 \<le> b \<longleftrightarrow> bit b 7" for b :: byte
proof -
  have "bit b 7 = bit (uint b) 7" by (simp add: bit_uint_iff)
  also have "\<dots> \<longleftrightarrow> odd (uint b div 128)" by (simp only: bit_iff_odd) simp
  also have "uint b div 128 = (if 128 \<le> uint b then 1 else 0)"
    using uint_lt2p [of b] by auto
  finally show ?thesis by (auto simp: word_le_def)
qed

lemma byte_and_128: "b AND 128 = 0 \<longleftrightarrow> b < 128" for b :: byte
  using and_exp_eq_0_iff_not_bit [of b 7] byte_high_bit [of b] by (auto simp: not_less)

lemma small_byte: "v < 128 \<Longrightarrow> (ucast v :: byte) < 128" for v :: "64 word"
  by (simp add: word_less_nat_alt unsigned_ucast_eq take_bit_eq_mod)

lemma cont_byte: "\<not> (ucast ((v AND 127) OR 128) :: byte) < 128" for v :: "64 word"
  using byte_high_bit [of "ucast ((v AND 127) OR 128)"]
  by (simp add: not_less bit_ucast_iff bit_or_iff)

lemmas small_byte_not_le = small_byte [THEN not_le [THEN iffD2]]
lemmas cont_byte_le = cont_byte [unfolded not_less]

lemma cont_byte_payload:
  "(ucast (ucast ((v AND 127) OR 128) :: byte) AND 127 :: 64 word) = v AND 127"
  by (rule bit_word_eqI) (auto simp: bit_ucast_iff bit_and_iff bit_or_iff)

lemma small_byte_payload: "v < 128 \<Longrightarrow> (ucast (ucast v :: byte) :: 64 word) = v" for v :: "64 word"
  by (simp add: word_less_nat_alt word_unat_eq_iff unsigned_ucast_eq take_bit_eq_mod unat_mod_distrib)

lemma split_low_7: "(v AND 127) OR push_bit 7 (drop_bit 7 v) = v" for v :: "64 word"
proof (rule bit_word_eqI)
  fix n
  assume "n < LENGTH(64)"
  then show "bit ((v AND 127) OR push_bit 7 (drop_bit 7 v)) n = bit v n"
    by (cases "n < 7") (auto simp: bit_and_iff bit_or_iff bit_push_bit_iff bit_drop_bit_eq)
qed

lemma varint_split:
  "(val OR push_bit n (v AND 127)) OR push_bit (n + 7) (drop_bit 7 v) = val OR push_bit n v"
  for v :: "64 word"
proof -
  have "push_bit n (v AND 127) OR push_bit (n + 7) (drop_bit 7 v)
      = push_bit n ((v AND 127) OR push_bit 7 (drop_bit 7 v))"
    by (simp add: push_bit_or)
  then show ?thesis by (simp add: split_low_7 or.assoc)
qed


lemma small_and_127: "v < 128 \<Longrightarrow> v AND 127 = v" for v :: "64 word"
proof -
  assume "v < 128"
  have m: "(127 :: 64 word) = mask 7" by (simp add: mask_eq_exp_minus_1)
  have "v AND 127 = take_bit 7 v" by (simp only: m take_bit_eq_mask)
  also have "\<dots> = v"
    using \<open>v < 128\<close>
    by (simp add: take_bit_eq_mod word_unat_eq_iff unat_mod_distrib word_less_nat_alt)
  finally show ?thesis .
qed

lemma tiny_and_1: "unat v < 2 \<Longrightarrow> v AND 1 = v" for v :: "64 word"
proof -
  assume "unat v < 2"
  then have "unat v = unat (0 :: 64 word) \<or> unat v = unat (1 :: 64 word)" by auto
  then have "v = 0 \<or> v = 1" unfolding word_unat_eq_iff .
  then show ?thesis by auto
qed

lemma unat_drop_bit_7_less:
  fixes v :: "64 word"
  assumes "unat v < 2 ^ (64 - 7 * i)" "i < 9"
  shows "unat (drop_bit 7 v) < 2 ^ (64 - 7 * Suc i)"
proof -
  have e: "64 - 7 * i = (64 - 7 * Suc i) + 7" using assms(2) by simp
  have "unat v < 2 ^ (64 - 7 * Suc i) * 2 ^ 7"
    using assms(1) unfolding e power_add .
  then have "unat v div 2 ^ 7 < 2 ^ (64 - 7 * Suc i)"
    by (rule less_mult_imp_div_less)
  then show ?thesis by (subst unat_drop_bit_eq) (simp only: drop_bit_eq_div)
qed
lemma varint_fast_add:
  assumes "unat v < 2 ^ (64 - 7 * i)" "i \<le> 9"
  shows "varint_fast i val (add_varint v @ rest) = Inr (val OR push_bit (7 * i) v, rest)"
  using assms
proof (induction v arbitrary: i val rule: add_varint.induct)
  case (1 v)
  show ?case
  proof (cases "128 \<le> v")
    case False
    have "(ucast (ucast v :: byte) AND (if i < 9 then 127 else 1) :: 64 word) = v"
      using False "1.prems" by (cases "i = 9") (auto simp: small_byte_payload small_and_127 tiny_and_1)
    with False show ?thesis
      by (subst add_varint.simps) (simp add: small_byte)
  next
    case True
    then have "128 \<le> unat v" by (simp add: word_le_nat_alt)
    with "1.prems" have i: "i < 9" by (cases "i = 9") auto
    note IH = "1.IH" [OF True unat_drop_bit_7_less [OF "1.prems"(1) i]]
    have "varint_fast (Suc i) val' (add_varint (drop_bit 7 v) @ rest)
        = Inr (val' OR push_bit (7 * i + 7) (drop_bit 7 v), rest)" for val'
      using IH [of val'] i by (simp add: add.commute)
    with True i show ?thesis
      by (subst add_varint.simps) (simp add: cont_byte cont_byte_payload varint_split del: push_bit_and)
  qed
qed

lemma varint_slow_add:
  "varint_slow n val (add_varint v @ rest) = Inr (val OR push_bit n v, rest)"
proof (induction v arbitrary: n val rule: add_varint.induct)
  case (1 v)
  show ?case
  proof (cases "128 \<le> v")
    case False
    then show ?thesis
      by (subst add_varint.simps) (simp add: small_byte_not_le small_byte_payload)
  next
    case True
    then show ?thesis
      using "1.IH" [OF True]
      by (subst add_varint.simps) (simp add: cont_byte_le cont_byte_payload varint_split del: push_bit_and)
  qed
qed

lemma decode_add_varint [simp]: "decode_varint (add_varint v @ rest) = Inr (v, rest)"
proof -
  have impl: "decode_varint_impl (add_varint v @ rest) = Inr (v, rest)"
    using varint_fast_add [of v 0 0 rest] varint_slow_add [of 0 0 v rest] unat_lt_2_power [of v]
    by (simp add: decode_varint_impl_def)
  show ?thesis
  proof (cases "128 \<le> v")
    case True
    have bs: "add_varint v = ucast ((v AND 127) OR 128) # add_varint (drop_bit 7 v)"
      using True by (subst add_varint.simps) simp
    from impl show ?thesis
      by (simp add: bs decode_varint_def byte_and_128 cont_byte)
  next
    case False
    then have "add_varint v = [ucast v]" by (subst add_varint.simps) simp
    with False show ?thesis
      by (simp add: decode_varint_def byte_and_128 small_byte small_byte_payload)
  qed
qed

lemma add_varint_not_Nil [simp]: "add_varint v \<noteq> []"
  by (subst add_varint.simps) simp

lemma le_word_le_bytes: "le_word (le_bytes n w) = take_bit (8 * n) w"
proof (induction n arbitrary: w)
  case 0
  then show ?case by simp
next
  case (Suc n)
  have "ucast (ucast w :: byte) OR push_bit 8 (take_bit (8 * n) (drop_bit 8 w)) = take_bit (8 * Suc n) w"
  proof (rule bit_word_eqI)
    fix m
    assume "m < LENGTH('a)"
    then show "bit (ucast (ucast w :: byte) OR push_bit 8 (take_bit (8 * n) (drop_bit 8 w))) m
        = bit (take_bit (8 * Suc n) w) m"
      by (cases "m < 8")
        (auto simp: bit_ucast_iff bit_or_iff bit_push_bit_iff bit_take_bit_iff bit_drop_bit_eq)
  qed
  with Suc show ?case by simp
qed

lemma length_le_bytes [simp]: "length (le_bytes n w) = n"
  by (induction n arbitrary: w) auto

lemma get_fixed_le_bytes [simp]:
  fixes w :: "'a::len word"
  assumes "LENGTH('a) \<le> 8 * n"
  shows "get_fixed n (le_bytes n w @ rest) = Inr (w, rest)"
  using assms by (simp add: get_fixed_def skip_bytes_def le_word_le_bytes take_bit_word_eq_self)

text \<open>A header written for one of the tags of the traffic messages is read back.\<close>

lemma pbf_next_add_field:
  assumes "tag \<in> {1, 2, 3, 4, 5, 6}"
  shows "pbf_next (add_field tag wt @ rest) = Inr (Some (tag, wt, rest))"
proof -
  have "pbf_next (add_field tag wt @ rest) = (case decode_varint (add_field tag wt @ rest) of
      Inl e \<Rightarrow> Inl e
    | Inr (v, rest) \<Rightarrow>
        (let val = (ucast v :: 32 word); tag = drop_bit 3 val
         in if tag = 0 \<or> (19000 \<le> tag \<and> tag \<le> 19999) then Inl InvalidTag
            else case wire_type_of (val AND 7) of
              Inl e \<Rightarrow> Inl e
            | Inr wt \<Rightarrow> Inr (Some (tag, wt, rest))))"
    by (simp add: pbf_next_def add_field_def)
  also have "\<dots> = Inr (Some (tag, wt, rest))"
    using assms unfolding add_field_def decode_add_varint
    by (cases wt) (auto simp: word_le_nat_alt)
  finally show ?thesis .
qed

lemma ucast_up_down [simp]: "(ucast (ucast w :: 64 word) :: 32 word) = w"
  by (rule bit_word_eqI) (simp add: bit_ucast_iff)

lemma get_message_add:
  assumes "length bytes < 2 ^ 32"
  shows "get_message (add_varint (ucast (word_of_nat (length bytes) :: 32 word)) @ bytes @ rest)
    = Inr (bytes, rest)"
proof -
  have "unat (word_of_nat (length bytes) :: 32 word) = length bytes"
    using assms by (simp add: unsigned_of_nat take_bit_nat_eq_self)
  then show ?thesis
    by (simp add: get_message_def get_length_def skip_bytes_def)
qed

section \<open>Every read consumes input\<close>

lemma varint_fast_shrinks: "varint_fast i val bs = Inr (v, rest) \<Longrightarrow> length rest < length bs"
  by (induction i val bs rule: varint_fast.induct) (auto simp: Let_def split: if_splits)

lemma varint_slow_shrinks: "varint_slow n val bs = Inr (v, rest) \<Longrightarrow> length rest < length bs"
  by (induction n val bs rule: varint_slow.induct) (auto split: if_splits)

lemma decode_varint_shrinks: "decode_varint bs = Inr (v, rest) \<Longrightarrow> length rest < length bs"
  by (auto simp: decode_varint_def decode_varint_impl_def split: list.splits if_splits
      dest: varint_fast_shrinks varint_slow_shrinks simp del: varint_fast.simps varint_slow.simps)

lemma pbf_next_shrinks:
  "pbf_next bs = Inr (Some (tag, wt, rest)) \<Longrightarrow> length rest < length bs"
  by (auto simp: pbf_next_def Let_def split: if_splits sum.splits dest: decode_varint_shrinks)

lemma skip_bytes_shrinks: "skip_bytes n bs = Inr rest \<Longrightarrow> length rest \<le> length bs"
  by (auto simp: skip_bytes_def split: if_splits)

lemma skip_varint_shrinks: "skip_varint bs = Inr rest \<Longrightarrow> length rest \<le> length bs"
proof -
  assume "skip_varint bs = Inr rest"
  then obtain b where "dropWhile (\<lambda>b. 128 \<le> b) bs = b # rest"
    by (auto simp: skip_varint_def Let_def split: if_splits list.splits)
  then show ?thesis
    using length_dropWhile_le [of "\<lambda>b. 128 \<le> b" bs] by simp
qed

lemma get_length_shrinks: "get_length bs = Inr (n, rest) \<Longrightarrow> length rest < length bs"
  by (auto simp: get_length_def split: sum.splits dest: decode_varint_shrinks)

lemma pbf_skip_shrinks: "pbf_skip wt bs = Inr rest \<Longrightarrow> length rest \<le> length bs"
  by (cases wt) (auto simp: pbf_skip_def split: sum.splits
      dest!: skip_varint_shrinks skip_bytes_shrinks get_length_shrinks)

lemma get_fixed_shrinks: "get_fixed n bs = Inr (w, rest) \<Longrightarrow> length rest \<le> length bs"
  by (auto simp: get_fixed_def split: sum.splits dest: skip_bytes_shrinks)

lemma get_message_shrinks: "get_message bs = Inr (m, rest) \<Longrightarrow> length rest \<le> length bs"
  by (auto simp: get_message_def split: sum.splits dest!: skip_bytes_shrinks get_length_shrinks)

end
