(* ===== verification/Traffic_Protobuf.thy ===== *)
theory Traffic_Protobuf
  imports Protozero
begin

text \<open>
  \<^verbatim>\<open>include/engine/traffic_protobuf.hpp\<close>: the wire format of the traffic messages.  A message
  keeps its doubles and floats as the bit patterns that travel on the wire, and its time stamp as
  the 64-bit word whose signed value is the \<^verbatim>\<open>int64_t\<close>; \<open>Traffic_Updater\<close> reads the numbers.

  \<open>parseTrafficBatch\<close> hands every packet to its consumer as soon as it is decoded.  The model
  returns the count together with the list of packets the consumer was called with, in order, so
  that a parse error part-way through a batch is visible: the count is 0 but the packets decoded
  before the error have been consumed.
\<close>

record TrafficPacketMsg =
  tpm_user_id :: "64 word"
  tpm_latitude :: "64 word"
  tpm_longitude :: "64 word"
  tpm_speed_kmh :: "32 word"
  tpm_bearing_deg :: "32 word"
  tpm_timestamp_ms :: "64 word"

definition tpm_default :: TrafficPacketMsg where
  "tpm_default = \<lparr>tpm_user_id = 0, tpm_latitude = 0, tpm_longitude = 0, tpm_speed_kmh = 0,
     tpm_bearing_deg = 0, tpm_timestamp_ms = 0\<rparr>"

section \<open>Decoding\<close>

text \<open>
  The body of the field loop: the \<^verbatim>\<open>switch\<close> on the tag.  The readers do not look at the wire type.
\<close>

definition read_packet_field ::
  "32 word \<Rightarrow> pbf_wire_type \<Rightarrow> byte list \<Rightarrow> TrafficPacketMsg \<Rightarrow> bool
     \<Rightarrow> pbf_error + (TrafficPacketMsg \<times> bool \<times> byte list)" where
  "read_packet_field tag wt data msg has_coords =
     (if tag = 1 then (case decode_varint data of Inl e \<Rightarrow> Inl e
        | Inr (v, rest) \<Rightarrow> Inr (msg\<lparr>tpm_user_id := v\<rparr>, has_coords, rest))
      else if tag = 2 then (case get_fixed 8 data of Inl e \<Rightarrow> Inl e
        | Inr (v, rest) \<Rightarrow> Inr (msg\<lparr>tpm_latitude := v\<rparr>, True, rest))
      else if tag = 3 then (case get_fixed 8 data of Inl e \<Rightarrow> Inl e
        | Inr (v, rest) \<Rightarrow> Inr (msg\<lparr>tpm_longitude := v\<rparr>, True, rest))
      else if tag = 4 then (case get_fixed 4 data of Inl e \<Rightarrow> Inl e
        | Inr (v, rest) \<Rightarrow> Inr (msg\<lparr>tpm_speed_kmh := v\<rparr>, has_coords, rest))
      else if tag = 5 then (case get_fixed 4 data of Inl e \<Rightarrow> Inl e
        | Inr (v, rest) \<Rightarrow> Inr (msg\<lparr>tpm_bearing_deg := v\<rparr>, has_coords, rest))
      else if tag = 6 then (case decode_varint data of Inl e \<Rightarrow> Inl e
        | Inr (v, rest) \<Rightarrow> Inr (msg\<lparr>tpm_timestamp_ms := v\<rparr>, has_coords, rest))
      else (case pbf_skip wt data of Inl e \<Rightarrow> Inl e
        | Inr rest \<Rightarrow> Inr (msg, has_coords, rest)))"

lemma read_packet_field_shrinks:
  "read_packet_field tag wt data msg h = Inr (msg', h', rest) \<Longrightarrow> length rest \<le> length data"
  by (auto simp: read_packet_field_def split: if_splits sum.splits
      dest!: decode_varint_shrinks get_fixed_shrinks pbf_skip_shrinks)

function parseTrafficPacket ::
  "byte list \<Rightarrow> TrafficPacketMsg \<Rightarrow> bool \<Rightarrow> pbf_error + (TrafficPacketMsg \<times> bool)" where
  "parseTrafficPacket data msg has_coords = (case pbf_next data of
       Inl e \<Rightarrow> Inl e
     | Inr None \<Rightarrow> Inr (msg, has_coords)
     | Inr (Some (tag, wt, rest)) \<Rightarrow>
         (case read_packet_field tag wt rest msg has_coords of
            Inl e \<Rightarrow> Inl e
          | Inr (msg', has_coords', rest') \<Rightarrow> parseTrafficPacket rest' msg' has_coords'))"
  by pat_completeness auto
termination
  by (relation "measure (\<lambda>(data, _, _). length data)")
    (auto dest!: pbf_next_shrinks read_packet_field_shrinks)

declare parseTrafficPacket.simps [simp del]

text \<open>
  The batch loop.  The first component of the result is the return value, \<open>parsed\<close> packets, or 0
  after an exception; the second the packets the consumer has been given.
\<close>

function parse_batch_loop ::
  "byte list \<Rightarrow> nat \<Rightarrow> TrafficPacketMsg list \<Rightarrow> nat \<times> TrafficPacketMsg list" where
  "parse_batch_loop data parsed consumed = (case pbf_next data of
       Inl e \<Rightarrow> (0, consumed)
     | Inr None \<Rightarrow> (parsed, consumed)
     | Inr (Some (tag, wt, rest)) \<Rightarrow>
         (if tag \<noteq> 1 then (case pbf_skip wt rest of
              Inl e \<Rightarrow> (0, consumed)
            | Inr rest' \<Rightarrow> parse_batch_loop rest' parsed consumed)
          else (case get_message rest of
              Inl e \<Rightarrow> (0, consumed)
            | Inr (packet_reader, rest') \<Rightarrow>
                (case parseTrafficPacket packet_reader tpm_default False of
                   Inl e \<Rightarrow> (0, consumed)
                 | Inr (packet, has_coords) \<Rightarrow>
                     (if \<not> has_coords then parse_batch_loop rest' parsed consumed
                      else parse_batch_loop rest' (Suc parsed) (consumed @ [packet]))))))"
  by pat_completeness auto
termination
  by (relation "measure (\<lambda>(data, _, _). length data)")
    (auto dest!: pbf_next_shrinks pbf_skip_shrinks get_message_shrinks)

declare parse_batch_loop.simps [simp del]

definition parseTrafficBatch :: "byte list \<Rightarrow> nat \<times> TrafficPacketMsg list" where
  "parseTrafficBatch data = parse_batch_loop data 0 []"

section \<open>Encoding\<close>

definition encode_packet :: "TrafficPacketMsg \<Rightarrow> byte list" where
  "encode_packet packet =
     add_tagged_varint 1 (tpm_user_id packet)
     @ add_double 2 (tpm_latitude packet)
     @ add_double 3 (tpm_longitude packet)
     @ add_float 4 (tpm_speed_kmh packet)
     @ add_float 5 (tpm_bearing_deg packet)
     @ add_tagged_varint 6 (tpm_timestamp_ms packet)"

fun encodeTrafficBatch :: "TrafficPacketMsg list \<Rightarrow> byte list" where
  "encodeTrafficBatch [] = []"
| "encodeTrafficBatch (packet # packets) =
     add_message 1 (encode_packet packet) @ encodeTrafficBatch packets"

section \<open>Reading back an encoded packet\<close>

lemma parse_field:
  assumes "tag \<in> {1, 2, 3, 4, 5, 6}"
  shows "parseTrafficPacket (add_field tag wt @ data) msg h =
    (case read_packet_field tag wt data msg h of
       Inl e \<Rightarrow> Inl e
     | Inr (msg', h', rest) \<Rightarrow> parseTrafficPacket rest msg' h')"
  using assms by (subst parseTrafficPacket.simps) (simp add: pbf_next_add_field)

lemma parse_encode_packet: "parseTrafficPacket (encode_packet p) tpm_default False = Inr (p, True)"
proof -
  have fin: "parseTrafficPacket [] msg h = Inr (msg, h)" for msg h
    by (subst parseTrafficPacket.simps) (simp add: pbf_next_def)
  have "decode_varint (add_varint (tpm_timestamp_ms p)) = Inr (tpm_timestamp_ms p, [])"
    using decode_add_varint [of "tpm_timestamp_ms p" "[]"] by simp
  then show ?thesis
    by (simp add: encode_packet_def add_tagged_varint_def add_double_def add_float_def
        parse_field read_packet_field_def fin tpm_default_def)
qed

lemma length_add_varint_le:
  "unat v < 2 ^ (7 * Suc k) \<Longrightarrow> length (add_varint v) \<le> Suc k"
proof (induction k arbitrary: v)
  case 0
  then show ?case by (subst add_varint.simps) (simp add: word_le_nat_alt)
next
  case (Suc k)
  have e: "7 * Suc (Suc k) = 7 * Suc k + 7" by simp
  have "unat v < 2 ^ (7 * Suc k) * 2 ^ 7"
    using Suc.prems unfolding e power_add .
  then have "unat v div 2 ^ 7 < 2 ^ (7 * Suc k)"
    by (rule less_mult_imp_div_less)
  then have "unat (drop_bit 7 v) < 2 ^ (7 * Suc k)"
    by (subst unat_drop_bit_eq) (simp only: drop_bit_eq_div)
  then have "length (add_varint (drop_bit 7 v)) \<le> Suc k" by (rule Suc.IH)
  then show ?case by (subst add_varint.simps) simp
qed

lemma length_add_varint: "length (add_varint v) \<le> 10"
proof -
  have "unat v < 2 ^ 64" using unat_lt_2_power [of v] by simp
  also have "(2 :: nat) ^ 64 \<le> 2 ^ (7 * Suc 9)" by (rule power_increasing) simp_all
  finally show ?thesis using length_add_varint_le [of v 9] by simp
qed

lemma length_encode_packet: "length (encode_packet p) \<le> 104"
proof -
  have "length (add_field t w) \<le> 10" for t w
    by (simp add: add_field_def length_add_varint)
  note this [of 1 WtVarint] this [of 2 WtFixed64] this [of 3 WtFixed64] this [of 4 WtFixed32]
    this [of 5 WtFixed32] this [of 6 WtVarint]
    length_add_varint [of "tpm_user_id p"] length_add_varint [of "tpm_timestamp_ms p"]
  then show ?thesis
    by (simp add: encode_packet_def add_tagged_varint_def add_double_def add_float_def)
qed

lemma parse_batch_encode:
  "parse_batch_loop (encodeTrafficBatch ps @ rest) n c = parse_batch_loop rest (n + length ps) (c @ ps)"
proof (induction ps arbitrary: n c)
  case Nil
  then show ?case by simp
next
  case (Cons p ps)
  let ?tail = "encodeTrafficBatch ps @ rest"
  let ?len = "add_varint (ucast (word_of_nat (length (encode_packet p)) :: 32 word))"
  have msg: "get_message (?len @ encode_packet p @ ?tail) = Inr (encode_packet p, ?tail)"
    using length_encode_packet [of p] by (intro get_message_add) simp
  have "parse_batch_loop (encodeTrafficBatch (p # ps) @ rest) n c
      = parse_batch_loop ?tail (Suc n) (c @ [p])"
    by (subst parse_batch_loop.simps)
      (simp add: add_message_def pbf_next_add_field msg parse_encode_packet)
  then show ?case using Cons by simp
qed

lemma parse_batch_Nil: "parse_batch_loop [] n c = (n, c)"
  by (subst parse_batch_loop.simps) (simp add: pbf_next_def)

lemma parse_batch_tail: "parseTrafficBatch (encodeTrafficBatch ps @ [0]) = (0, ps)"
proof -
  have "parse_batch_loop [0] n c = (0, c)" for n c
    by (subst parse_batch_loop.simps) (simp add: pbf_next_def decode_varint_def)
  then show ?thesis
    using parse_batch_encode [of ps "[0]" 0 "[]"] by (simp add: parseTrafficBatch_def)
qed

section \<open>Properties\<close>

text \<open>
  C15.  Round trip.  Decoding an encoded batch returns the number of packets in it and calls the
  consumer with exactly those packets, in order, every field unchanged.
\<close>

theorem parse_encode_batch: "parseTrafficBatch (encodeTrafficBatch ps) = (length ps, ps)"
  using parse_batch_encode [of ps "[]" 0 "[]"]
  by (simp add: parseTrafficBatch_def parse_batch_Nil)

definition count_ok :: "nat \<times> TrafficPacketMsg list \<Rightarrow> bool" where
  "count_ok r \<longleftrightarrow> fst r \<in> {0, length (snd r)}"

lemma count_ok_pair: "count_ok (m, ps) \<longleftrightarrow> m = 0 \<or> m = length ps"
  by (simp add: count_ok_def)

lemma parse_batch_loop_count: "n = length c \<Longrightarrow> count_ok (parse_batch_loop data n c)"
proof (induction data n c rule: parse_batch_loop.induct)
  case (1 data n c)
  show ?case
  proof (cases "\<exists>tag wt rest. pbf_next data = Inr (Some (tag, wt, rest))")
    case False
    then show ?thesis
      using "1.prems" by (subst parse_batch_loop.simps)
        (auto simp: count_ok_pair split: sum.split option.split)
  next
    case True
    then obtain tag wt rest where nxt: "pbf_next data = Inr (Some (tag, wt, rest))" by blast
    show ?thesis
    proof (cases "tag = 1")
      case False
      show ?thesis
        using "1.IH"(1) [OF nxt refl refl refl False _ "1.prems"] False
        by (subst parse_batch_loop.simps) (auto simp: nxt count_ok_pair split: sum.split)
    next
      case True
      have t: "\<not> tag \<noteq> 1" using True by simp
      note skip = "1.IH"(2) [OF nxt refl refl refl t _ refl _ refl]
      note eat = "1.IH"(3) [OF nxt refl refl refl t _ refl _ refl]
      show ?thesis
        using skip eat "1.prems" True
        by (subst parse_batch_loop.simps) (auto simp: nxt count_ok_pair split: sum.split)
    qed
  qed
qed

text \<open>
  Counting: for arbitrary input bytes the function returns, and its count is either the number
  of packets it gave to the consumer or 0.
\<close>

lemma parseTrafficBatch_count:
  "fst (parseTrafficBatch data) \<in> {0, length (snd (parseTrafficBatch data))}"
  using parse_batch_loop_count [of 0 "[]" data]
  by (simp add: parseTrafficBatch_def count_ok_def)

end
