(* ===== verification/Live_Data_Store.thy ===== *)
theory Live_Data_Store
  imports Osrm_Prelude
begin

text \<open>
  \<^verbatim>\<open>include/engine/live_data_store.hpp\<close>: the process-wide cache of live traffic.  The singleton's
  fields are a record that every operation takes and returns; each operation holds the store's
  mutex for its whole body and is therefore one atomic step.  The hash map \<^verbatim>\<open>segments_\<close> is an
  association list.  The readings of the system clock are arguments.

  The locale \<open>segment_cache\<close> is the contract the aggregator relies on (what a lookup returns after
  an update); it is interpreted on the store's own operations.
\<close>

section \<open>Data\<close>

record TrafficSample =
  smp_user_id :: "64 word"
  smp_latitude :: fp
  smp_longitude :: fp
  smp_speed_kmh :: fp
  smp_bearing_deg :: fp
  smp_timestamp_ms :: int

record TrafficEdgeData =
  ted_speed_kmh :: fp
  ted_weight_factor :: fp
  ted_bearing_deg :: fp
  ted_latitude :: fp
  ted_longitude :: fp
  ted_timestamp_ms :: int
  ted_sample_count :: "32 word"
  ted_source :: string

record LiveDataStore =
  lds_segments :: "(64 word \<times> TrafficEdgeData) list"
  lds_pending_samples :: "TrafficSample list"
  lds_stale_seconds :: int

definition lds_init :: LiveDataStore where
  "lds_init = \<lparr>lds_segments = [], lds_pending_samples = [], lds_stale_seconds = 120\<rparr>"

section \<open>Operations\<close>

definition addSample :: "TrafficSample \<Rightarrow> LiveDataStore \<Rightarrow> LiveDataStore" where
  "addSample sample st = st\<lparr>lds_pending_samples := lds_pending_samples st @ [sample]\<rparr>"

definition takePendingSamples :: "LiveDataStore \<Rightarrow> TrafficSample list \<times> LiveDataStore" where
  "takePendingSamples st = (lds_pending_samples st, st\<lparr>lds_pending_samples := []\<rparr>)"

definition lds_update :: "64 word \<Rightarrow> TrafficEdgeData \<Rightarrow> LiveDataStore \<Rightarrow> LiveDataStore" where
  "lds_update geometry_id data st =
     st\<lparr>lds_segments := AList.update geometry_id data (lds_segments st)\<rparr>"

definition lds_get :: "LiveDataStore \<Rightarrow> 64 word \<Rightarrow> TrafficEdgeData option" where
  "lds_get st geometry_id = map_of (lds_segments st) geometry_id"

definition getAllSegments :: "LiveDataStore \<Rightarrow> (64 word \<times> TrafficEdgeData) list" where
  "getAllSegments st = lds_segments st"

text \<open>The erasing loop over the hash map; the subtraction is the one of \<^verbatim>\<open>int64_t\<close>.\<close>

fun remove_stale_loop ::
  "int \<Rightarrow> int \<Rightarrow> (64 word \<times> TrafficEdgeData) list \<Rightarrow> (64 word \<times> TrafficEdgeData) list option" where
  "remove_stale_loop now_ms max_age_ms [] = Some []"
| "remove_stale_loop now_ms max_age_ms (x # xs) = do {
     age \<leftarrow> i64_sub now_ms (ted_timestamp_ms (snd x));
     rest \<leftarrow> remove_stale_loop now_ms max_age_ms xs;
     Some (if age > max_age_ms then rest else x # rest)
   }"

definition removeStaleSegments :: "int \<Rightarrow> int \<Rightarrow> LiveDataStore \<Rightarrow> LiveDataStore option" where
  "removeStaleSegments now_ms stale_seconds st = do {
     segs \<leftarrow> remove_stale_loop now_ms (stale_seconds * 1000) (lds_segments st);
     Some (st\<lparr>lds_segments := segs\<rparr>)
   }"

definition lds_size :: "LiveDataStore \<Rightarrow> nat" where
  "lds_size st = length (lds_segments st)"

definition pendingSampleCount :: "LiveDataStore \<Rightarrow> nat" where
  "pendingSampleCount st = length (lds_pending_samples st)"

definition lds_clear :: "LiveDataStore \<Rightarrow> LiveDataStore" where
  "lds_clear st = st\<lparr>lds_segments := [], lds_pending_samples := []\<rparr>"

definition setStaleSeconds :: "int \<Rightarrow> LiveDataStore \<Rightarrow> LiveDataStore" where
  "setStaleSeconds stale_seconds st = st\<lparr>lds_stale_seconds := stale_seconds\<rparr>"

lemmas lds_defs = lds_init_def addSample_def takePendingSamples_def lds_update_def lds_get_def
  getAllSegments_def removeStaleSegments_def lds_size_def pendingSampleCount_def lds_clear_def
  setStaleSeconds_def

section \<open>Well-formed stores\<close>

text \<open>
  The keys of the map are distinct, and the stored time stamps are the non-negative
  \<^verbatim>\<open>int64_t\<close> values that the aggregator writes.
\<close>

definition valid_ms :: "int \<Rightarrow> bool" where
  "valid_ms t \<longleftrightarrow> 0 \<le> t \<and> in_i64 t"

definition lds_wf :: "LiveDataStore \<Rightarrow> bool" where
  "lds_wf st \<longleftrightarrow> distinct (map fst (lds_segments st))
     \<and> (\<forall>x \<in> set (lds_segments st). valid_ms (ted_timestamp_ms (snd x)))"

lemma lds_wf_init: "lds_wf lds_init"
  by (simp add: lds_wf_def lds_init_def)

lemma lds_wf_addSample [simp]: "lds_wf (addSample s st) = lds_wf st"
  by (simp add: lds_wf_def addSample_def)

lemma lds_wf_take [simp]: "lds_wf (snd (takePendingSamples st)) = lds_wf st"
  by (simp add: lds_wf_def takePendingSamples_def)

lemma lds_wf_update:
  "lds_wf st \<Longrightarrow> valid_ms (ted_timestamp_ms d) \<Longrightarrow> lds_wf (lds_update g d st)"
  using set_update_subset [of g d "lds_segments st"] by (fastforce simp: lds_wf_def lds_update_def)

lemma remove_stale_loop_eq:
  assumes "valid_ms now" "\<forall>x \<in> set xs. valid_ms (ted_timestamp_ms (snd x))"
  shows "remove_stale_loop now age xs = Some (filter (\<lambda>x. now - ted_timestamp_ms (snd x) \<le> age) xs)"
  using assms(2)
proof (induction xs)
  case Nil
  then show ?case by simp
next
  case (Cons x xs)
  then show ?case using assms(1) by (auto simp: valid_ms_def)
qed

lemma removeStaleSegments_eq:
  assumes "lds_wf st" "valid_ms now"
  shows "removeStaleSegments now stale st =
    Some (st\<lparr>lds_segments := filter (\<lambda>x. now - ted_timestamp_ms (snd x) \<le> stale * 1000) (lds_segments st)\<rparr>)"
  using assms by (simp add: removeStaleSegments_def remove_stale_loop_eq lds_wf_def)

lemma lds_wf_removeStale:
  "lds_wf st \<Longrightarrow> valid_ms now \<Longrightarrow> removeStaleSegments now stale st = Some st' \<Longrightarrow> lds_wf st'"
  by (auto simp: removeStaleSegments_eq lds_wf_def)

section \<open>The contract of the segment cache\<close>

locale segment_cache =
  fixes get :: "'s \<Rightarrow> 'k \<Rightarrow> 'v option"
    and upd :: "'k \<Rightarrow> 'v \<Rightarrow> 's \<Rightarrow> 's"
  assumes get_upd: "get (upd k v s) k' = (if k' = k then Some v else get s k')"
begin

text \<open>A loop that stores one value for each of a list of distinct keys.\<close>

lemma get_fold_upd:
  assumes "distinct (map fst kvs)"
  shows "get (fold (\<lambda>(k, v). upd k v) kvs s) k'
    = (case map_of kvs k' of None \<Rightarrow> get s k' | Some v \<Rightarrow> Some v)"
  using assms
proof (induction kvs arbitrary: s)
  case Nil
  then show ?case by simp
next
  case (Cons x kvs)
  obtain k v where x: "x = (k, v)" by (cases x)
  have "k' = k \<Longrightarrow> map_of kvs k' = None"
    using Cons.prems x by (auto simp: map_of_eq_None_iff)
  with Cons x show ?case by (auto simp: get_upd split: option.splits)
qed

lemma get_upd_overwrite: "get (upd k w (upd k v s)) = get (upd k w s)"
  by (auto simp: get_upd)

end

interpretation lds: segment_cache lds_get lds_update
  by unfold_locales (simp add: lds_get_def lds_update_def)

section \<open>Properties\<close>

text \<open>
  C18.  Eviction.  On a well-formed store and a valid clock reading, the erasing loop runs without
  overflow, and afterwards a lookup finds a segment exactly when it was stored and its age is at
  most the limit; the pending samples are untouched.
\<close>

theorem removeStaleSegments_lookup:
  assumes "lds_wf st" and "valid_ms now"
  shows "\<exists>st'. removeStaleSegments now stale st = Some st'
    \<and> lds_wf st'
    \<and> lds_pending_samples st' = lds_pending_samples st
    \<and> (\<forall>g. lds_get st' g = (case lds_get st g of None \<Rightarrow> None
        | Some d \<Rightarrow> if now - ted_timestamp_ms d \<le> stale * 1000 then Some d else None))"
proof -
  let ?st' = "st\<lparr>lds_segments :=
    filter (\<lambda>x. now - ted_timestamp_ms (snd x) \<le> stale * 1000) (lds_segments st)\<rparr>"
  have eq: "removeStaleSegments now stale st = Some ?st'"
    using assms by (rule removeStaleSegments_eq)
  moreover have "lds_wf ?st'" using lds_wf_removeStale [OF assms eq] .
  moreover have "lds_get ?st' g = (case lds_get st g of None \<Rightarrow> None
      | Some d \<Rightarrow> if now - ted_timestamp_ms d \<le> stale * 1000 then Some d else None)" for g
    using assms(1) by (simp add: lds_get_def lds_wf_def map_of_filter_distinct split: option.split)
  ultimately show ?thesis by simp
qed

definition demo_edge :: "int \<Rightarrow> TrafficEdgeData" where
  "demo_edge t = \<lparr>ted_speed_kmh = Fin 10, ted_weight_factor = Fin 5, ted_bearing_deg = Fin 0,
     ted_latitude = Fin 0, ted_longitude = Fin 0, ted_timestamp_ms = t, ted_sample_count = 1,
     ted_source = ''live''\<rparr>"

definition demo_store :: LiveDataStore where
  "demo_store = lds_init\<lparr>lds_segments := [(1, demo_edge 880000), (2, demo_edge 990000)]\<rparr>"

theorem removeStaleSegments_lookup_witness:
  "\<exists>st'. removeStaleSegments 1000000 60 demo_store = Some st'
    \<and> lds_get st' 1 = None \<and> lds_get st' 2 = Some (demo_edge 990000)"
proof -
  have "lds_wf demo_store" "valid_ms 1000000"
    by (simp_all add: lds_wf_def demo_store_def demo_edge_def lds_init_def valid_ms_def i64_simps)
  from removeStaleSegments_lookup [OF this, of 60] show ?thesis
    by (auto simp: demo_store_def demo_edge_def lds_init_def lds_get_def)
qed

text \<open>Calls of the store's operations; \<^term>\<open>None\<close> is an overflow in the clock arithmetic.\<close>

datatype lds_call = CallAddSample TrafficSample | CallTakePending | CallUpdate "64 word" TrafficEdgeData
  | CallRemoveStale int int | CallClear | CallSetStaleSeconds int

fun lds_exec :: "lds_call \<Rightarrow> LiveDataStore \<Rightarrow> LiveDataStore option" where
  "lds_exec (CallAddSample sample) st = Some (addSample sample st)"
| "lds_exec CallTakePending st = Some (snd (takePendingSamples st))"
| "lds_exec (CallUpdate g d) st = Some (lds_update g d st)"
| "lds_exec (CallRemoveStale now stale) st = removeStaleSegments now stale st"
| "lds_exec CallClear st = Some (lds_clear st)"
| "lds_exec (CallSetStaleSeconds s) st = Some (setStaleSeconds s st)"

fun lds_run :: "lds_call list \<Rightarrow> LiveDataStore \<Rightarrow> LiveDataStore option" where
  "lds_run [] st = Some st"
| "lds_run (c # cs) st = Option.bind (lds_exec c st) (lds_run cs)"

fun call_ok :: "lds_call \<Rightarrow> bool" where
  "call_ok (CallUpdate g d) = valid_ms (ted_timestamp_ms d)"
| "call_ok (CallRemoveStale now stale) = valid_ms now"
| "call_ok _ = True"

lemma lds_wf_clear [simp]: "lds_wf (lds_clear st)"
  by (simp add: lds_wf_def lds_clear_def)

lemma lds_wf_setStaleSeconds [simp]: "lds_wf (setStaleSeconds s st) = lds_wf st"
  by (simp add: lds_wf_def setStaleSeconds_def)

lemma lds_exec_wf:
  assumes "lds_wf st" "call_ok c"
  shows "\<exists>st'. lds_exec c st = Some st' \<and> lds_wf st'"
proof (cases c)
  case (CallRemoveStale now stale)
  then show ?thesis using assms removeStaleSegments_eq [of st now stale] lds_wf_removeStale [of st now stale] by auto
qed (use assms lds_wf_update in auto)



end
