(* ===== verification/Traffic_Updater.thy ===== *)
theory Traffic_Updater
  imports Traffic_Protobuf Live_Data_Store
begin

unbundle bit_operations_syntax

text \<open>
  \<^verbatim>\<open>include/engine/traffic_updater.hpp\<close>: the UDP receiver.  A datagram is decoded, every packet
  is checked and stored, and the statistics are kept.  The socket calls are the environment: the
  result of \<^verbatim>\<open>recvfrom\<close> is an event of the loop, the outcome of creating the socket an argument of
  \<open>tu_start\<close>.  The clock reading of the \<open>i\<close>-th packet of a datagram is \<open>clock i\<close>.

  Here the bit patterns of a message become numbers: \<open>f64_val\<close> and \<open>f32_val\<close> decode IEEE 754
  doubles and floats.
\<close>

section \<open>Decoding floating point bit patterns\<close>

definition f64_val :: "64 word \<Rightarrow> fp" where
  "f64_val w =
     (let s = (if bit w 63 then - 1 else 1);
          e = unat (take_bit 11 (drop_bit 52 w));
          m = of_nat (unat (take_bit 52 w))
      in if e = 2047 then (if m = 0 then fp_inf s else NaN)
         else if e = 0 then Fin (s * m / 2 ^ 1074)
         else Fin (s * (2 ^ 52 + m) * 2 ^ e / 2 ^ 1075))"

definition f32_val :: "32 word \<Rightarrow> fp" where
  "f32_val w =
     (let s = (if bit w 31 then - 1 else 1);
          e = unat (take_bit 8 (drop_bit 23 w));
          m = of_nat (unat (take_bit 23 w))
      in if e = 255 then (if m = 0 then fp_inf s else NaN)
         else if e = 0 then Fin (s * m / 2 ^ 149)
         else Fin (s * (2 ^ 23 + m) * 2 ^ e / 2 ^ 150))"

section \<open>State\<close>

record TrafficUpdater =
  tu_port :: "16 word"
  tu_stale_seconds :: int
  tu_min_speed_kmh :: fp
  tu_sockfd :: int
  tu_running :: bool
  tu_packets_received :: "64 word"
  tu_packets_dropped :: "64 word"
  tu_batches_received :: "64 word"

definition tu_init :: "16 word \<Rightarrow> int \<Rightarrow> fp \<Rightarrow> TrafficUpdater" where
  "tu_init port stale_seconds min_speed_kmh =
     \<lparr>tu_port = port, tu_stale_seconds = stale_seconds, tu_min_speed_kmh = min_speed_kmh,
      tu_sockfd = - 1, tu_running = False, tu_packets_received = 0, tu_packets_dropped = 0,
      tu_batches_received = 0\<rparr>"

datatype socket_error = CannotCreateSocket | BindFailed "16 word"

text \<open>
  \<open>start\<close> creates the socket unless the updater already runs; the argument is what
  \<^verbatim>\<open>createSocket\<close> returns or throws.
\<close>

definition tu_start :: "socket_error + int \<Rightarrow> TrafficUpdater \<Rightarrow> socket_error + TrafficUpdater" where
  "tu_start created u =
     (if tu_running u then Inr u
      else case created of
        Inl e \<Rightarrow> Inl e
      | Inr fd \<Rightarrow> Inr (u\<lparr>tu_sockfd := fd, tu_running := True\<rparr>))"

definition tu_stop :: "TrafficUpdater \<Rightarrow> TrafficUpdater" where
  "tu_stop u = (let u' = u\<lparr>tu_running := False\<rparr>
     in if 0 \<le> tu_sockfd u' then u'\<lparr>tu_sockfd := - 1\<rparr> else u')"

section \<open>Packets\<close>

definition sample_of :: "int \<Rightarrow> TrafficPacketMsg \<Rightarrow> TrafficSample" where
  "sample_of now_ms pkt =
     \<lparr>smp_user_id = tpm_user_id pkt,
      smp_latitude = f64_val (tpm_latitude pkt),
      smp_longitude = f64_val (tpm_longitude pkt),
      smp_speed_kmh = f32_val (tpm_speed_kmh pkt),
      smp_bearing_deg = f32_val (tpm_bearing_deg pkt),
      smp_timestamp_ms = (if sint (tpm_timestamp_ms pkt) > 0 then sint (tpm_timestamp_ms pkt) else now_ms)\<rparr>"

definition processPacket ::
  "TrafficUpdater \<Rightarrow> int \<Rightarrow> TrafficPacketMsg \<Rightarrow> LiveDataStore \<Rightarrow> LiveDataStore option" where
  "processPacket u now_ms pkt st =
     (let speed = f32_val (tpm_speed_kmh pkt); lat = f64_val (tpm_latitude pkt);
          lon = f64_val (tpm_longitude pkt); ts = sint (tpm_timestamp_ms pkt)
      in if fp_less speed (tu_min_speed_kmh u) \<or> fp_less (Fin 300) speed then Some st
         else if fp_less lat (Fin (- 90)) \<or> fp_less (Fin 90) lat then Some st
         else if fp_less lon (Fin (- 180)) \<or> fp_less (Fin 180) lon then Some st
         else do {
           stale \<leftarrow> (if ts > 0 then do {
               age \<leftarrow> i64_sub now_ms ts;
               Some (age > tu_stale_seconds u * 1000)
             } else Some False);
           Some (if stale then st else addSample (sample_of now_ms pkt) st)
         })"

fun process_packets ::
  "TrafficUpdater \<Rightarrow> (nat \<Rightarrow> int) \<Rightarrow> nat \<Rightarrow> TrafficPacketMsg list \<Rightarrow> LiveDataStore
     \<Rightarrow> LiveDataStore option" where
  "process_packets u clock i [] st = Some st"
| "process_packets u clock i (p # ps) st = do {
     st' \<leftarrow> processPacket u (clock i) p st;
     process_packets u clock (Suc i) ps st'
   }"

section \<open>The receive loop\<close>

text \<open>One result of \<^verbatim>\<open>recvfrom\<close>: an error or time-out, or the bytes of a datagram.\<close>

datatype recv_event = RecvError | RecvBytes "byte list"

definition receive_step ::
  "(nat \<Rightarrow> int) \<Rightarrow> recv_event \<Rightarrow> TrafficUpdater \<times> LiveDataStore
     \<Rightarrow> (TrafficUpdater \<times> LiveDataStore) option" where
  "receive_step clock ev us = (case us of (u, st) \<Rightarrow> (case ev of
       RecvError \<Rightarrow> Some (u, st)
     | RecvBytes bytes \<Rightarrow>
         (if bytes = [] then Some (u\<lparr>tu_packets_dropped := tu_packets_dropped u + 1\<rparr>, st)
          else (case parseTrafficBatch bytes of (parsed, packets) \<Rightarrow> do {
            st' \<leftarrow> process_packets u clock 0 packets st;
            Some (if parsed = 0 then u\<lparr>tu_packets_dropped := tu_packets_dropped u + 1\<rparr>
                  else u\<lparr>tu_batches_received := tu_batches_received u + 1,
                         tu_packets_received := tu_packets_received u + of_nat parsed\<rparr>,
                  st')
          }))))"

text \<open>The loop ends when \<^verbatim>\<open>running_\<close> is cleared: here, when the list of events does.\<close>

fun receiveLoop ::
  "((nat \<Rightarrow> int) \<times> recv_event) list \<Rightarrow> TrafficUpdater \<times> LiveDataStore
     \<Rightarrow> (TrafficUpdater \<times> LiveDataStore) option" where
  "receiveLoop [] us = Some us"
| "receiveLoop ((clock, ev) # evs) us = do {
     us' \<leftarrow> receive_step clock ev us;
     receiveLoop evs us'
   }"

section \<open>Which packets are stored\<close>

text \<open>
  The abstract acceptance test.  NaN passes a range check because every comparison with it is false.
\<close>

definition accepts :: "rat \<Rightarrow> int \<Rightarrow> int \<Rightarrow> TrafficPacketMsg \<Rightarrow> bool" where
  "accepts min_speed stale now pkt \<longleftrightarrow>
     (f32_val (tpm_speed_kmh pkt) = NaN \<or> in_range min_speed 300 (f32_val (tpm_speed_kmh pkt)))
     \<and> (f64_val (tpm_latitude pkt) = NaN \<or> in_range (- 90) 90 (f64_val (tpm_latitude pkt)))
     \<and> (f64_val (tpm_longitude pkt) = NaN \<or> in_range (- 180) 180 (f64_val (tpm_longitude pkt)))
     \<and> (sint (tpm_timestamp_ms pkt) > 0 \<longrightarrow> now - sint (tpm_timestamp_ms pkt) \<le> stale * 1000)"

lemma range_checked:
  "fp_less x (Fin lo) \<or> fp_less (Fin hi) x \<longleftrightarrow> \<not> (x = NaN \<or> in_range lo hi x)"
  using fp_range_check [of x lo hi] by (auto simp: in_range_def)

lemma sint_in_i64: "in_i64 (sint w)" for w :: "64 word"
  using sint_greater_eq [of w] sint_less [of w] by (simp add: in_i64_def)

lemma processPacket_eq:
  assumes "tu_min_speed_kmh u = Fin m" "valid_ms now"
  shows "processPacket u now pkt st =
    Some (if accepts m (tu_stale_seconds u) now pkt then addSample (sample_of now pkt) st else st)"
proof -
  have "i64_sub now (sint (tpm_timestamp_ms pkt)) = Some (now - sint (tpm_timestamp_ms pkt))"
    if "0 < sint (tpm_timestamp_ms pkt)"
    using that assms(2) by (simp add: valid_ms_def sint_in_i64)
  then show ?thesis
    unfolding processPacket_def Let_def assms(1) range_checked
    by (auto simp: accepts_def)
qed

text \<open>The packets of a list that pass, with the clock reading of each.\<close>

fun stored_samples :: "rat \<Rightarrow> int \<Rightarrow> (nat \<Rightarrow> int) \<Rightarrow> nat \<Rightarrow> TrafficPacketMsg list \<Rightarrow> TrafficSample list" where
  "stored_samples m stale clock i [] = []"
| "stored_samples m stale clock i (p # ps) =
     (if accepts m stale (clock i) p then [sample_of (clock i) p] else [])
     @ stored_samples m stale clock (Suc i) ps"

lemma process_packets_eq:
  assumes "tu_min_speed_kmh u = Fin m" "\<And>i. valid_ms (clock i)"
  shows "process_packets u clock i ps st = Some (st\<lparr>lds_pending_samples :=
    lds_pending_samples st @ stored_samples m (tu_stale_seconds u) clock i ps\<rparr>)"
  by (induction ps arbitrary: i st)
    (auto simp: processPacket_eq [OF assms(1)] assms(2) addSample_def)

lemma encode_not_Nil: "ps \<noteq> [] \<Longrightarrow> encodeTrafficBatch ps \<noteq> []"
  by (cases ps) (auto simp: add_message_def add_field_def)

text \<open>What the receiver guarantees of every stored sample.\<close>

definition sample_checked :: "rat \<Rightarrow> TrafficSample \<Rightarrow> bool" where
  "sample_checked m s \<longleftrightarrow>
     (smp_speed_kmh s = NaN \<or> in_range m 300 (smp_speed_kmh s))
     \<and> (smp_latitude s = NaN \<or> in_range (- 90) 90 (smp_latitude s))
     \<and> (smp_longitude s = NaN \<or> in_range (- 180) 180 (smp_longitude s))
     \<and> valid_ms (smp_timestamp_ms s)"

lemma sample_checked_sample_of:
  "accepts m stale now p \<Longrightarrow> valid_ms now \<Longrightarrow> sample_checked m (sample_of now p)"
  by (auto simp: accepts_def sample_checked_def sample_of_def valid_ms_def sint_in_i64)

lemma stored_samples_checked:
  assumes "\<And>i. valid_ms (clock i)"
  shows "list_all (sample_checked m) (stored_samples m stale clock i ps)"
  by (induction ps arbitrary: i) (auto simp: sample_checked_sample_of assms)

text \<open>One step of the loop on arbitrary bytes: it keeps the configuration and only appends samples.\<close>

lemma receive_step_total:
  assumes "tu_min_speed_kmh u = Fin m" "\<And>i. valid_ms (clock i)"
  obtains u' new where "receive_step clock ev (u, st)
      = Some (u', st\<lparr>lds_pending_samples := lds_pending_samples st @ new\<rparr>)"
    and "tu_min_speed_kmh u' = Fin m" "list_all (sample_checked m) new"
proof (cases ev)
  case RecvError
  then show ?thesis using that [of u "[]"] assms(1) by (simp add: receive_step_def)
next
  case (RecvBytes bytes)
  obtain parsed ps where p: "parseTrafficBatch bytes = (parsed, ps)" by (cases "parseTrafficBatch bytes")
  show ?thesis
  proof (cases "bytes = []")
    case True
    then show ?thesis
      using that [of "u\<lparr>tu_packets_dropped := tu_packets_dropped u + 1\<rparr>" "[]"] RecvBytes assms(1)
      by (simp add: receive_step_def)
  next
    case False
    then show ?thesis
      using that [of _ "stored_samples m (tu_stale_seconds u) clock 0 ps"] RecvBytes assms p
      by (auto simp: receive_step_def process_packets_eq [OF assms] stored_samples_checked
          split: if_splits)
  qed
qed

section \<open>Properties\<close>

text \<open>
  C7.  Receiving a batch.  When a datagram is the encoding of a non-empty list of packets, the
  updater counts one batch and all its packets, and appends to the pending samples of the store
  one sample per packet that passes the acceptance test, in the order of the batch.
\<close>

theorem receive_encoded_batch:
  assumes "tu_min_speed_kmh u = Fin m" and "\<forall>i. valid_ms (clock i)" and "ps \<noteq> []"
  shows "receive_step clock (RecvBytes (encodeTrafficBatch ps)) (u, st)
    = Some (u\<lparr>tu_batches_received := tu_batches_received u + 1,
              tu_packets_received := tu_packets_received u + of_nat (length ps)\<rparr>,
            st\<lparr>lds_pending_samples :=
              lds_pending_samples st @ stored_samples m (tu_stale_seconds u) clock 0 ps\<rparr>)"
  using assms(2,3)
  by (simp add: receive_step_def encode_not_Nil parse_batch_encode [where rest = "[]", simplified]
      parseTrafficBatch_def parse_batch_Nil process_packets_eq [OF assms(1)])

definition demo_packet :: TrafficPacketMsg where
  "demo_packet = tpm_default\<lparr>tpm_user_id := 42, tpm_speed_kmh := 0x42480000\<rparr>"

theorem receive_encoded_batch_witness:
  "receive_step (\<lambda>_. 1000) (RecvBytes (encodeTrafficBatch [demo_packet])) (tu_init 9900 120 (Fin 1), lds_init)
    = Some ((tu_init 9900 120 (Fin 1))\<lparr>tu_batches_received := 1, tu_packets_received := 1\<rparr>,
            lds_init\<lparr>lds_pending_samples := [\<lparr>smp_user_id = 42, smp_latitude = Fin 0,
              smp_longitude = Fin 0, smp_speed_kmh = Fin 50, smp_bearing_deg = Fin 0,
              smp_timestamp_ms = 1000\<rparr>]\<rparr>)"
proof -
  have f: "f32_val 0x42480000 = Fin 50" "f32_val 0 = Fin 0" "f64_val 0 = Fin 0"
    by (simp_all add: f32_val_def f64_val_def Let_def)
  have v: "\<forall>i. valid_ms ((\<lambda>_. 1000) i)" by (simp add: valid_ms_def i64_simps)
  have m: "tu_min_speed_kmh (tu_init 9900 120 (Fin 1)) = Fin 1" by (simp add: tu_init_def)
  have a: "stored_samples 1 120 (\<lambda>_. 1000) 0 [demo_packet] = [\<lparr>smp_user_id = 42, smp_latitude = Fin 0,
      smp_longitude = Fin 0, smp_speed_kmh = Fin 50, smp_bearing_deg = Fin 0,
      smp_timestamp_ms = 1000\<rparr>]"
    by (simp add: accepts_def in_range_def sample_of_def demo_packet_def tpm_default_def f)
  show ?thesis
    using receive_encoded_batch [OF m v, of "[demo_packet]" lds_init] a
    by (simp add: tu_init_def lds_init_def)
qed

text \<open>
  C16.  The receive loop on arbitrary input.  Whatever the sequence of datagrams and time-outs, the
  loop runs without undefined behaviour, leaves the segments of the store alone, keeps the samples
  that are already pending and appends only samples whose speed, latitude and longitude are in
  range or NaN and whose time stamp is a valid one.
\<close>

theorem receiveLoop_safe:
  assumes "tu_min_speed_kmh u = Fin m"
    and "\<forall>(clock, ev) \<in> set evs. \<forall>i. valid_ms (clock i)"
  shows "\<exists>u' new. receiveLoop evs (u, st)
      = Some (u', st\<lparr>lds_pending_samples := lds_pending_samples st @ new\<rparr>)
    \<and> list_all (sample_checked m) new"
  using assms
proof (induction evs arbitrary: u st)
  case Nil
  then show ?case by (intro exI [of _ u] exI [of _ "[]"]) simp
next
  case (Cons x evs)
  obtain clock ev where x: "x = (clock, ev)" by (cases x)
  have v: "\<And>i. valid_ms (clock i)" using Cons.prems(2) x by simp
  obtain u1 new1
    where s: "receive_step clock ev (u, st)
        = Some (u1, st\<lparr>lds_pending_samples := lds_pending_samples st @ new1\<rparr>)"
      and m1: "tu_min_speed_kmh u1 = Fin m" and c1: "list_all (sample_checked m) new1"
    by (rule receive_step_total [OF Cons.prems(1) v])
  let ?st1 = "st\<lparr>lds_pending_samples := lds_pending_samples st @ new1\<rparr>"
  have "\<forall>(clock, ev) \<in> set evs. \<forall>i. valid_ms (clock i)" using Cons.prems(2) by simp
  from Cons.IH [OF m1 this, of ?st1] obtain u2 new2
    where "receiveLoop evs (u1, ?st1)
        = Some (u2, ?st1\<lparr>lds_pending_samples := lds_pending_samples ?st1 @ new2\<rparr>)"
      and "list_all (sample_checked m) new2"
    by blast
  then show ?case
    using s c1 x by (intro exI [of _ u2] exI [of _ "new1 @ new2"]) simp
qed

theorem receiveLoop_safe_witness:
  "\<exists>u' new. receiveLoop [(\<lambda>_. 5, RecvError), (\<lambda>_. 6, RecvBytes [255, 1])] (tu_init 9900 120 (Fin 1), lds_init)
      = Some (u', lds_init\<lparr>lds_pending_samples := new\<rparr>)
    \<and> list_all (sample_checked 1) new"
  using receiveLoop_safe [of "tu_init 9900 120 (Fin 1)" 1
      "[(\<lambda>_. 5, RecvError), (\<lambda>_. 6, RecvBytes [255, 1])]" lds_init]
  by (simp add: tu_init_def lds_init_def valid_ms_def i64_simps)



end
