(* ===== verification/Coordinates.thy ===== *)
theory Coordinates
  imports Osrm_Prelude
begin

text \<open>
  \<^verbatim>\<open>include/util/coordinate.hpp\<close> and \<^verbatim>\<open>src/util/coordinate.cpp\<close>: fixed-point coordinates (millionths
  of a degree, an \<^verbatim>\<open>int32_t\<close>) and floating-point ones, and the conversions between them.  Latitudes
  and longitudes have separate alias types with the same code; the model has one function for both.
\<close>

section \<open>Data and conversions\<close>

record Coordinate =
  crd_lon :: int
  crd_lat :: int

record FloatCoordinate =
  fcrd_lon :: fp
  fcrd_lat :: fp

definition in_i32 :: "int \<Rightarrow> bool" where
  "in_i32 x \<longleftrightarrow> - (2 ^ 31) \<le> x \<and> x < 2 ^ 31"

definition i32_add :: "int \<Rightarrow> int \<Rightarrow> int option" where
  "i32_add a b = (if in_i32 (a + b) then Some (a + b) else None)"

definition i32_sub :: "int \<Rightarrow> int \<Rightarrow> int option" where
  "i32_sub a b = (if in_i32 (a - b) then Some (a - b) else None)"

text \<open>\<^verbatim>\<open>util::toFixed\<close>: \<^term>\<open>None\<close> where the conversion to \<^verbatim>\<open>int32_t\<close> is undefined.\<close>

definition toFixed :: "fp \<Rightarrow> int option" where
  "toFixed x = fp_to_i32 (fp_round (fp_mul x (Fin 1000000)))"

definition toFloating :: "int \<Rightarrow> fp" where
  "toFloating fixed = fp_div (Fin (of_int fixed)) (Fin 1000000)"

definition Coordinate_of_float :: "FloatCoordinate \<Rightarrow> Coordinate option" where
  "Coordinate_of_float other = do {
     lon \<leftarrow> toFixed (fcrd_lon other);
     lat \<leftarrow> toFixed (fcrd_lat other);
     Some \<lparr>crd_lon = lon, crd_lat = lat\<rparr>
   }"

definition FloatCoordinate_of_fixed :: "Coordinate \<Rightarrow> FloatCoordinate" where
  "FloatCoordinate_of_fixed other =
     \<lparr>fcrd_lon = toFloating (crd_lon other), fcrd_lat = toFloating (crd_lat other)\<rparr>"

definition Coordinate_IsValid :: "Coordinate \<Rightarrow> bool" where
  "Coordinate_IsValid c \<longleftrightarrow> \<not> (crd_lat c > 90000000 \<or> crd_lat c < - 90000000
     \<or> crd_lon c > 180000000 \<or> crd_lon c < - 180000000)"

definition FloatCoordinate_IsValid :: "FloatCoordinate \<Rightarrow> bool" where
  "FloatCoordinate_IsValid c \<longleftrightarrow> \<not> (fp_less (Fin 90) (fcrd_lat c) \<or> fp_less (fcrd_lat c) (Fin (- 90))
     \<or> fp_less (Fin 180) (fcrd_lon c) \<or> fp_less (fcrd_lon c) (Fin (- 180)))"

section \<open>Conversion lemmas\<close>

lemma round_away_abs:
  assumes "- of_int z \<le> a" "a \<le> of_int z"
  shows "- z \<le> round_away a" "round_away a \<le> z"
proof -
  have "\<bar>of_int (round_away a) - a\<bar> \<le> 1 / 2" by (rule round_away_close)
  then have "of_int (round_away a) < (of_int (z + 1) :: rat)"
    "(of_int (- z - 1) :: rat) < of_int (round_away a)" using assms by linarith+
  then show "- z \<le> round_away a" "round_away a \<le> z" unfolding of_int_less_iff by simp_all
qed

lemma toFixed_in_range:
  assumes "in_range (- of_int d) (of_int d) x" "0 \<le> d" "d \<le> 180"
  shows "\<exists>i. toFixed x = Some i \<and> - (d * 1000000) \<le> i \<and> i \<le> d * 1000000"
proof -
  from assms(1) obtain c where c: "x = Fin c" "- of_int d \<le> c" "c \<le> of_int d"
    by (auto simp: in_range_def)
  then have "- of_int (d * 1000000) \<le> c * 1000000" "c * 1000000 \<le> of_int (d * 1000000)" by simp_all
  from round_away_abs [OF this] show ?thesis using assms c by (simp add: toFixed_def)
qed

lemma toFixed_NaN: "toFixed NaN = None"
  by (simp add: toFixed_def fp_inf_def)

lemma toFixed_toFloating: "in_i32 x \<Longrightarrow> toFixed (toFloating x) = Some x"
  by (simp add: toFixed_def toFloating_def in_i32_def)

lemma FloatCoordinate_valid_fixed:
  assumes "FloatCoordinate_IsValid c" "fcrd_lon c \<noteq> NaN" "fcrd_lat c \<noteq> NaN"
  shows "\<exists>d. Coordinate_of_float c = Some d \<and> Coordinate_IsValid d"
proof -
  have "in_range (- of_int 180) (of_int 180) (fcrd_lon c)" "in_range (- of_int 90) (of_int 90) (fcrd_lat c)"
    using assms fp_range_check [of "fcrd_lon c" "- 180" 180] fp_range_check [of "fcrd_lat c" "- 90" 90]
    by (auto simp: FloatCoordinate_IsValid_def in_range_def)
  from toFixed_in_range [OF this(1)] toFixed_in_range [OF this(2)]
  show ?thesis by (auto simp: Coordinate_of_float_def Coordinate_IsValid_def)
qed

section \<open>Properties\<close>

text \<open>
  Fixed and floating coordinates.  Every coordinate with \<^verbatim>\<open>int32_t\<close> components survives the
  conversion to floating point and back; the fixed-point validity test agrees with the
  floating-point one.
\<close>

lemma coordinate_roundtrip:
  assumes "in_i32 (crd_lon c)" "in_i32 (crd_lat c)"
  shows "Coordinate_of_float (FloatCoordinate_of_fixed c) = Some c
    \<and> FloatCoordinate_IsValid (FloatCoordinate_of_fixed c) = Coordinate_IsValid c"
proof
  show "Coordinate_of_float (FloatCoordinate_of_fixed c) = Some c"
    using assms by (simp add: Coordinate_of_float_def FloatCoordinate_of_fixed_def toFixed_toFloating)
  show "FloatCoordinate_IsValid (FloatCoordinate_of_fixed c) = Coordinate_IsValid c"
    by (simp add: FloatCoordinate_IsValid_def FloatCoordinate_of_fixed_def Coordinate_IsValid_def
        toFloating_def field_simps) linarith
qed

end
