(* ===== verification/Traffic_Aggregator.thy ===== *)
theory Traffic_Aggregator
  imports Live_Data_Store Coordinates
begin

text \<open>
  \<^verbatim>\<open>include/engine/traffic_aggregator.hpp\<close>: from pending samples to per-segment averages, and from
  averages to segment weights.  The road network is an abstract class in the sources
  (\<^verbatim>\<open>BaseDataFacade\<close>); the model takes the functions it calls as a record of functions.  The two
  readings of the system clock (before grouping, and in the eviction) are arguments.
\<close>

section \<open>The road network the aggregator sees\<close>

record SegmentID =
  seg_id :: "32 word"
  seg_enabled :: bool

record BaseDataFacade =
  NearestPhantomNodes :: "Coordinate \<Rightarrow> SegmentID list"
    \<comment> \<open>the forward segments of the phantom nodes nearest to a coordinate, closest first\<close>
  GetGeometryIndex :: "32 word \<Rightarrow> 32 word"
    \<comment> \<open>the geometry of an edge-based node\<close>
  GetUncompressedForwardGeometry :: "32 word \<Rightarrow> 32 word list"
  GetUncompressedForwardWeights :: "32 word \<Rightarrow> 32 word list"
  GetUncompressedReverseWeights :: "32 word \<Rightarrow> 32 word list"
  GetCoordinateOfNode :: "32 word \<Rightarrow> Coordinate"

section \<open>Weight factor and colour\<close>

definition ComputeTrafficWeightFactor :: "fp \<Rightarrow> fp" where
  "ComputeTrafficWeightFactor speed_kmh =
     (if fp_le speed_kmh (Fin (1 / 2)) then Fin 10
      else let factor = fp_div (Fin 50) speed_kmh
           in if fp_less (Fin 10) factor then Fin 10 else factor)"

definition SpeedToColor :: "fp \<Rightarrow> string" where
  "SpeedToColor speed_kmh =
     (if fp_le (Fin 50) speed_kmh then ''#22c55e''
      else if fp_le (Fin 30) speed_kmh then ''#eab308''
      else if fp_le (Fin 15) speed_kmh then ''#f97316''
      else ''#ef4444'')"

section \<open>Scaling segment weights\<close>

definition scale_weight :: "fp \<Rightarrow> 32 word \<Rightarrow> 32 word option" where
  "scale_weight factor weight = fp_to_u32 (fp_round (fp_mul (fp_of_u32 weight) factor))"

definition ApplyLiveTrafficToSegmentWeights ::
  "LiveDataStore \<Rightarrow> 32 word \<Rightarrow> 32 word list \<Rightarrow> 32 word list option" where
  "ApplyLiveTrafficToSegmentWeights st geometry_id weights =
     (case lds_get st (ucast geometry_id) of
        None \<Rightarrow> Some weights
      | Some live \<Rightarrow>
          if ted_source live \<noteq> ''live'' then Some weights
          else those (map (scale_weight (ted_weight_factor live)) weights))"

definition ApplyLiveTrafficToSegmentWeight ::
  "LiveDataStore \<Rightarrow> 32 word \<Rightarrow> 32 word \<Rightarrow> 32 word option" where
  "ApplyLiveTrafficToSegmentWeight st geometry_id weight =
     (case lds_get st (ucast geometry_id) of
        None \<Rightarrow> Some weight
      | Some live \<Rightarrow>
          if ted_source live \<noteq> ''live'' then Some weight
          else scale_weight (ted_weight_factor live) weight)"

section \<open>Grouping the samples\<close>

type_synonym user_samples = "(64 word \<times> TrafficSample) list"
type_synonym grouped = "(64 word \<times> user_samples) list"

text \<open>
  The geometry a sample is snapped to: \<^term>\<open>None\<close> when the conversion of its coordinates is
  undefined, \<^term>\<open>Some None\<close> when there is no phantom node or its forward segment is disabled.
\<close>

definition snap :: "BaseDataFacade \<Rightarrow> TrafficSample \<Rightarrow> 64 word option option" where
  "snap F sample = do {
     lon \<leftarrow> toFixed (smp_longitude sample);
     lat \<leftarrow> toFixed (smp_latitude sample);
     Some (case NearestPhantomNodes F \<lparr>crd_lon = lon, crd_lat = lat\<rparr> of
       [] \<Rightarrow> None
     | ph # _ \<Rightarrow>
         if \<not> seg_enabled ph then None
         else Some (ucast (GetGeometryIndex F (seg_id ph))))
   }"

definition insert_user_sample :: "64 word \<Rightarrow> TrafficSample \<Rightarrow> grouped \<Rightarrow> grouped" where
  "insert_user_sample geometry_id sample gr =
     (let user_samples = (case map_of gr geometry_id of None \<Rightarrow> [] | Some us \<Rightarrow> us);
          user_samples' = (case map_of user_samples (smp_user_id sample) of
              None \<Rightarrow> AList.update (smp_user_id sample) sample user_samples
            | Some existing \<Rightarrow>
                if smp_timestamp_ms sample \<ge> smp_timestamp_ms existing
                then AList.update (smp_user_id sample) sample user_samples
                else user_samples)
      in AList.update geometry_id user_samples' gr)"

fun group_samples ::
  "BaseDataFacade \<Rightarrow> int \<Rightarrow> int \<Rightarrow> TrafficSample list \<Rightarrow> grouped \<Rightarrow> grouped option" where
  "group_samples F stale_seconds now_ms [] gr = Some gr"
| "group_samples F stale_seconds now_ms (sample # samples) gr = do {
     expiry \<leftarrow> i64_add (smp_timestamp_ms sample) (stale_seconds * 1000);
     if expiry < now_ms then group_samples F stale_seconds now_ms samples gr
     else do {
       geometry \<leftarrow> snap F sample;
       (case geometry of
          None \<Rightarrow> group_samples F stale_seconds now_ms samples gr
        | Some geometry_id \<Rightarrow>
            group_samples F stale_seconds now_ms samples (insert_user_sample geometry_id sample gr))
     }
   }"

section \<open>Averaging\<close>

definition fp_sum :: "(TrafficSample \<Rightarrow> fp) \<Rightarrow> user_samples \<Rightarrow> fp" where
  "fp_sum f us = foldl (\<lambda>acc us. fp_add acc (f (snd us))) (Fin 0) us"

definition latest_timestamp :: "user_samples \<Rightarrow> int" where
  "latest_timestamp us = foldl (\<lambda>acc us. max acc (smp_timestamp_ms (snd us))) 0 us"

definition aggregate_segment :: "user_samples \<Rightarrow> TrafficEdgeData" where
  "aggregate_segment us =
     (let count = Fin (of_nat (length us));
          speed = fp_div (fp_sum smp_speed_kmh us) count
      in \<lparr>ted_speed_kmh = speed,
          ted_weight_factor = ComputeTrafficWeightFactor speed,
          ted_bearing_deg = fp_div (fp_sum smp_bearing_deg us) count,
          ted_latitude = fp_div (fp_sum smp_latitude us) count,
          ted_longitude = fp_div (fp_sum smp_longitude us) count,
          ted_timestamp_ms = latest_timestamp us,
          ted_sample_count = of_nat (length us),
          ted_source = ''live''\<rparr>)"

definition store_groups :: "grouped \<Rightarrow> LiveDataStore \<Rightarrow> LiveDataStore" where
  "store_groups gr st = fold (\<lambda>(geometry_id, us). lds_update geometry_id (aggregate_segment us)) gr st"

definition AggregatePendingTrafficSamples ::
  "BaseDataFacade \<Rightarrow> int \<Rightarrow> int \<Rightarrow> int \<Rightarrow> LiveDataStore \<Rightarrow> LiveDataStore option" where
  "AggregatePendingTrafficSamples F stale_seconds now1_ms now2_ms st =
     (case takePendingSamples st of (samples, st1) \<Rightarrow>
        if samples = [] then Some st1
        else do {
          gr \<leftarrow> group_samples F stale_seconds now1_ms samples [];
          removeStaleSegments now2_ms stale_seconds (store_groups gr st1)
        })"

section \<open>Weight factor: bounds and monotonicity\<close>

lemma weight_factor_Fin:
  "ComputeTrafficWeightFactor (Fin v) = Fin (if v \<le> 5 then 10 else 50 / v)"
proof (cases "v \<le> 1 / 2")
  case True
  then show ?thesis by (simp add: ComputeTrafficWeightFactor_def)
next
  case False
  then have "0 < v" by simp
  then have "10 < 50 / v \<longleftrightarrow> v < 5" by (simp add: less_divide_eq)
  moreover have "v = 5 \<Longrightarrow> 50 / v = 10" by simp
  ultimately show ?thesis using False by (auto simp: ComputeTrafficWeightFactor_def Let_def)
qed

lemma weight_factor_bounds:
  "0 < v \<Longrightarrow> v \<le> 300 \<Longrightarrow> \<exists>f. ComputeTrafficWeightFactor (Fin v) = Fin f \<and> 1 / 6 \<le> f \<and> f \<le> 10"
  by (auto simp: weight_factor_Fin field_simps)

section \<open>Grouping keeps the latest sample of each user\<close>

definition lookup2 :: "grouped \<Rightarrow> 64 word \<Rightarrow> 64 word \<Rightarrow> TrafficSample option" where
  "lookup2 gr g u = (case map_of gr g of None \<Rightarrow> None | Some us \<Rightarrow> map_of us u)"

text \<open>The samples that count for a user on a geometry.\<close>

definition relevant :: "BaseDataFacade \<Rightarrow> int \<Rightarrow> int \<Rightarrow> 64 word \<Rightarrow> 64 word \<Rightarrow> TrafficSample \<Rightarrow> bool" where
  "relevant F stale now g u s \<longleftrightarrow> smp_user_id s = u
     \<and> now \<le> smp_timestamp_ms s + stale * 1000 \<and> snap F s = Some (Some g)"

definition later :: "TrafficSample \<Rightarrow> TrafficSample option \<Rightarrow> TrafficSample option" where
  "later s acc = (case acc of None \<Rightarrow> Some s
     | Some t \<Rightarrow> if smp_timestamp_ms t \<le> smp_timestamp_ms s then Some s else Some t)"

lemma lookup2_insert:
  "lookup2 (insert_user_sample g s gr) g' u
    = (if g' = g \<and> u = smp_user_id s then later s (lookup2 gr g u) else lookup2 gr g' u)"
  by (auto simp: lookup2_def insert_user_sample_def Let_def later_def split: option.splits)

lemma group_samples_Cons:
  "group_samples F stale now (s # ss) gr = Some gr' \<longleftrightarrow> in_i64 (smp_timestamp_ms s + stale * 1000)
    \<and> (if smp_timestamp_ms s + stale * 1000 < now then group_samples F stale now ss gr = Some gr'
       else \<exists>sn. snap F s = Some sn \<and> group_samples F stale now ss
              (case sn of None \<Rightarrow> gr | Some g \<Rightarrow> insert_user_sample g s gr) = Some gr')"
  by (cases "in_i64 (smp_timestamp_ms s + stale * 1000)")
     (auto simp: i64_add_def bind_eq_Some_conv split: option.splits)

lemma group_samples_lookup:
  "group_samples F stale now ss gr = Some gr'
    \<Longrightarrow> lookup2 gr' g u = fold later (filter (relevant F stale now g u) ss) (lookup2 gr g u)"
proof (induction ss arbitrary: gr)
  case Nil
  then show ?case by simp
next
  case (Cons s ss)
  show ?case
  proof (cases "smp_timestamp_ms s + stale * 1000 < now")
    case True
    with Cons show ?thesis unfolding group_samples_Cons by (simp add: relevant_def)
  next
    case False
    with Cons.prems obtain sn where sn: "snap F s = Some sn" and rec: "group_samples F stale now ss
        (case sn of None \<Rightarrow> gr | Some g \<Rightarrow> insert_user_sample g s gr) = Some gr'"
      unfolding group_samples_Cons by auto
    from Cons.IH [OF rec] sn False show ?thesis
      by (cases sn) (auto simp: relevant_def lookup2_insert)
  qed
qed

lemma fold_later:
  "fold later ss acc = Some s \<Longrightarrow>
    (s \<in> set ss \<or> acc = Some s) \<and> (\<forall>t \<in> set ss. smp_timestamp_ms t \<le> smp_timestamp_ms s)
    \<and> (\<forall>t. acc = Some t \<longrightarrow> smp_timestamp_ms t \<le> smp_timestamp_ms s)"
proof (induction ss arbitrary: acc)
  case Nil
  then show ?case by simp
next
  case (Cons x ss)
  then have "fold later ss (later x acc) = Some s" by simp
  from Cons.IH [OF this] show ?case
    by (fastforce simp: later_def split: option.splits if_splits)
qed

lemma fold_later_None: "fold later ss acc = None \<longleftrightarrow> ss = [] \<and> acc = None"
proof (induction ss arbitrary: acc)
  case (Cons x ss)
  have "later x acc \<noteq> None" by (auto simp: later_def split: option.splits)
  with Cons show ?case by simp
qed simp

text \<open>The shape of the result: distinct keys, every group non-empty with distinct users.\<close>

definition groups_wf :: "(TrafficSample \<Rightarrow> bool) \<Rightarrow> grouped \<Rightarrow> bool" where
  "groups_wf P gr \<longleftrightarrow> distinct (map fst gr)
     \<and> (\<forall>us \<in> snd ` set gr. us \<noteq> [] \<and> distinct (map fst us) \<and> (\<forall>x \<in> set us. P (snd x)))"

lemma groups_wf_insert:
  assumes "groups_wf P gr" "P s"
  shows "groups_wf P (insert_user_sample g s gr)"
proof -
  define us where "us = (case map_of gr g of None \<Rightarrow> [] | Some us \<Rightarrow> us)"
  have us: "distinct (map fst us)" "\<forall>x \<in> set us. P (snd x)"
    using assms(1) by (force simp: us_def groups_wf_def dest: map_of_SomeD split: option.splits)+
  define us' where "us' = (case map_of us (smp_user_id s) of
      None \<Rightarrow> AList.update (smp_user_id s) s us
    | Some t \<Rightarrow> if smp_timestamp_ms s \<ge> smp_timestamp_ms t
        then AList.update (smp_user_id s) s us else us)"
  have "us' \<noteq> []" by (cases us) (auto simp: us'_def split: option.splits)
  moreover have "distinct (map fst us')" using us(1) by (simp add: us'_def split: option.split)
  moreover have "\<forall>x \<in> set us'. P (snd x)"
    using us(2) assms(2) set_update_subset [of "smp_user_id s" s us]
    by (auto simp: us'_def split: option.split)
  moreover have "insert_user_sample g s gr = AList.update g us' gr"
    unfolding insert_user_sample_def us'_def us_def Let_def ..
  ultimately show ?thesis
    using assms(1) set_update_subset [of g us' gr] unfolding groups_wf_def by (auto 0 3)
qed

lemma groups_wf_group_samples:
  "group_samples F stale now ss gr = Some gr' \<Longrightarrow> groups_wf P gr \<Longrightarrow> list_all P ss \<Longrightarrow> groups_wf P gr'"
proof (induction ss arbitrary: gr)
  case Nil
  then show ?case by simp
next
  case (Cons s ss)
  then show ?case unfolding group_samples_Cons
    by (auto simp: groups_wf_insert split: if_splits option.splits)
qed

section \<open>Averages\<close>

lemma fp_sum_Nil [simp]: "fp_sum f [] = Fin 0"
  by (simp add: fp_sum_def)

lemma foldl_fp_add:
  "foldl (\<lambda>acc x. fp_add acc (f (snd x))) a us
    = fp_add a (foldl (\<lambda>acc x. fp_add acc (f (snd x))) (Fin 0) us)"
proof (induction us arbitrary: a)
  case Nil
  then show ?case by simp
next
  case (Cons x us)
  show ?case using Cons.IH [of "fp_add a (f (snd x))"] Cons.IH [of "f (snd x)"]
    by (simp add: fp_add_assoc)
qed

lemma fp_sum_Cons [simp]: "fp_sum f (x # us) = fp_add (f (snd x)) (fp_sum f us)"
  unfolding fp_sum_def using foldl_fp_add [of f "f (snd x)" us] by simp

lemma fp_sum_Fin:
  "\<forall>x \<in> set us. f (snd x) = Fin (v (snd x)) \<Longrightarrow> fp_sum f us = Fin (\<Sum>x\<leftarrow>us. v (snd x))"
  by (induction us) auto

lemma fp_sum_in_range:
  "\<forall>x \<in> set us. in_range lo hi (f (snd x))
    \<Longrightarrow> in_range (of_nat (length us) * lo) (of_nat (length us) * hi) (fp_sum f us)"
  by (induction us) (auto simp: in_range_def algebra_simps)

lemma mean_in_range:
  assumes "us \<noteq> []" "\<forall>x \<in> set us. in_range lo hi (f (snd x))"
  shows "in_range lo hi (fp_div (fp_sum f us) (Fin (of_nat (length us))))"
proof -
  have "0 < (of_nat (length us) :: rat)" using assms(1) by simp
  moreover from fp_sum_in_range [OF assms(2)] obtain c where
    "fp_sum f us = Fin c" "of_nat (length us) * lo \<le> c" "c \<le> of_nat (length us) * hi"
    by (auto simp: in_range_def)
  ultimately show ?thesis using assms(1)
    by (simp add: in_range_def pos_le_divide_eq pos_divide_le_eq mult.commute)
qed

lemma fp_sum_perm: "mset us = mset us' \<Longrightarrow> fp_sum f us = fp_sum f us'"
  unfolding fp_sum_def foldl_conv_fold
  by (rule fun_cong [OF fold_multiset_equiv]) (auto simp: fp_add_ac)

lemma latest_timestamp_eq: "latest_timestamp us = Max (insert 0 (smp_timestamp_ms ` snd ` set us))"
proof -
  have "foldl (\<lambda>acc x. max acc (smp_timestamp_ms (snd x))) a us
      = Max (insert a (smp_timestamp_ms ` snd ` set us))" for a
  proof (induction us arbitrary: a)
    case Nil
    then show ?case by simp
  next
    case (Cons x us)
    have "finite (smp_timestamp_ms ` snd ` set us)" by simp
    with Cons show ?case by (cases "set us = {}") (auto simp: max.assoc)
  qed
  then show ?thesis by (simp add: latest_timestamp_def)
qed

lemma valid_latest_timestamp:
  assumes "\<forall>x \<in> set us. in_i64 (smp_timestamp_ms (snd x))"
  shows "valid_ms (latest_timestamp us)"
proof -
  let ?T = "insert 0 (smp_timestamp_ms ` snd ` set us)"
  have "Max ?T \<in> ?T" by (rule Max_in) auto
  moreover have "0 \<le> Max ?T" by (rule Max_ge) auto
  moreover have "in_i64 0" by (simp add: in_i64_def)
  ultimately show ?thesis using assms unfolding latest_timestamp_eq valid_ms_def by auto
qed

section \<open>Totality\<close>

text \<open>
  The samples the aggregator can process without undefined behaviour: finite coordinates in range,
  and a time stamp to which the age limit can be added.
\<close>

definition sample_ok :: "int \<Rightarrow> TrafficSample \<Rightarrow> bool" where
  "sample_ok stale s \<longleftrightarrow> in_range (- 90) 90 (smp_latitude s) \<and> in_range (- 180) 180 (smp_longitude s)
     \<and> in_i64 (smp_timestamp_ms s) \<and> in_i64 (smp_timestamp_ms s + stale * 1000)"

lemma snap_total: "sample_ok stale s \<Longrightarrow> \<exists>sn. snap F s = Some sn"
  using toFixed_in_range [of 90 "smp_latitude s"] toFixed_in_range [of 180 "smp_longitude s"]
  by (auto simp: sample_ok_def snap_def)

lemma group_samples_total:
  "list_all (sample_ok stale) ss \<Longrightarrow> \<exists>gr'. group_samples F stale now ss gr = Some gr'"
proof (induction ss arbitrary: gr)
  case Nil
  then show ?case by simp
next
  case (Cons s ss)
  then obtain sn where "snap F s = Some sn" using snap_total [of stale s F] by auto
  moreover have "in_i64 (smp_timestamp_ms s + stale * 1000)"
    using Cons.prems by (simp add: sample_ok_def)
  moreover have "list_all (sample_ok stale) ss" using Cons.prems by simp
  ultimately show ?case unfolding group_samples_Cons
    using Cons.IH by (cases "smp_timestamp_ms s + stale * 1000 < now") simp_all
qed

section \<open>Storing the averages\<close>

lemma store_groups_get:
  assumes "distinct (map fst gr)"
  shows "lds_get (store_groups gr st) g
    = (case map_of gr g of None \<Rightarrow> lds_get st g | Some us \<Rightarrow> Some (aggregate_segment us))"
proof -
  have "store_groups gr st = fold (\<lambda>(k, v). lds_update k v) (map (\<lambda>(g, us). (g, aggregate_segment us)) gr) st"
    by (simp add: store_groups_def fold_map comp_def split_def)
  moreover have "distinct (map fst (map (\<lambda>(g, us). (g, aggregate_segment us)) gr))"
    using assms by (simp add: comp_def split_def)
  ultimately show ?thesis by (simp add: lds.get_fold_upd map_of_map split: option.split)
qed

lemma store_groups_keep:
  assumes "lds_wf st" "groups_wf (\<lambda>s. in_i64 (smp_timestamp_ms s)) gr"
  shows "lds_wf (store_groups gr st)"
    and "lds_pending_samples (store_groups gr st) = lds_pending_samples st"
proof -
  have "\<forall>us \<in> snd ` set gr. valid_ms (ted_timestamp_ms (aggregate_segment us))"
    using assms(2) by (auto simp: groups_wf_def aggregate_segment_def Let_def intro!: valid_latest_timestamp)
  with assms(1) show "lds_wf (store_groups gr st)"
    unfolding store_groups_def by (induction gr arbitrary: st) (auto simp: lds_wf_update)
  show "lds_pending_samples (store_groups gr st) = lds_pending_samples st"
    unfolding store_groups_def by (induction gr arbitrary: st) (auto simp: lds_update_def)
qed

lemma group_samples_spec:
  assumes "list_all (sample_ok stale) ss"
  shows "\<exists>gr. group_samples F stale now ss [] = Some gr
    \<and> groups_wf (\<lambda>s. in_i64 (smp_timestamp_ms s)) gr
    \<and> (\<forall>g u. lookup2 gr g u = fold later (filter (relevant F stale now g u) ss) None)"
proof -
  from group_samples_total [OF assms] obtain gr where gr: "group_samples F stale now ss [] = Some gr"
    by blast
  have "list_all (\<lambda>s. in_i64 (smp_timestamp_ms s)) ss"
    using assms by (rule list.pred_mono_strong) (simp add: sample_ok_def)
  moreover have "groups_wf (\<lambda>s. in_i64 (smp_timestamp_ms s)) []" by (simp add: groups_wf_def)
  ultimately have "groups_wf (\<lambda>s. in_i64 (smp_timestamp_ms s)) gr"
    using groups_wf_group_samples [OF gr] by blast
  moreover have "lookup2 gr g u = fold later (filter (relevant F stale now g u) ss) None" for g u
    using group_samples_lookup [OF gr] by (simp add: lookup2_def)
  ultimately show ?thesis using gr by blast
qed

text \<open>The group of a geometry, read off the looked-up samples.\<close>

definition latest_sample :: "BaseDataFacade \<Rightarrow> int \<Rightarrow> int \<Rightarrow> TrafficSample list \<Rightarrow> 64 word \<Rightarrow> 64 word
    \<Rightarrow> TrafficSample \<Rightarrow> bool" where
  "latest_sample F stale now ss g u s \<longleftrightarrow> s \<in> set ss \<and> relevant F stale now g u s
     \<and> (\<forall>t \<in> set ss. relevant F stale now g u t \<longrightarrow> smp_timestamp_ms t \<le> smp_timestamp_ms s)"

definition is_group :: "BaseDataFacade \<Rightarrow> int \<Rightarrow> int \<Rightarrow> TrafficSample list \<Rightarrow> 64 word \<Rightarrow> user_samples \<Rightarrow> bool" where
  "is_group F stale now ss g us \<longleftrightarrow> us \<noteq> [] \<and> distinct (map fst us)
     \<and> fst ` set us = {u. \<exists>s \<in> set ss. relevant F stale now g u s}
     \<and> (\<forall>(u, s) \<in> set us. latest_sample F stale now ss g u s)"

lemma fold_later_latest:
  "fold later (filter (relevant F stale now g u) ss) None = Some s \<Longrightarrow> latest_sample F stale now ss g u s"
  using fold_later [of "filter (relevant F stale now g u) ss" None s] by (auto simp: latest_sample_def)

lemma group_of_lookup:
  assumes wf: "groups_wf P gr"
    and lk: "\<forall>g u. lookup2 gr g u = fold later (filter (relevant F stale now g u) ss) None"
  shows "case map_of gr g of
      None \<Rightarrow> \<forall>u. \<forall>s \<in> set ss. \<not> relevant F stale now g u s
    | Some us \<Rightarrow> is_group F stale now ss g us"
proof (cases "map_of gr g")
  case None
  then have "fold later (filter (relevant F stale now g u) ss) None = None" for u
    using lk [rule_format, of g u] by (simp add: lookup2_def)
  then show ?thesis using None by (simp add: fold_later_None filter_empty_conv)
next
  case (Some us)
  have us: "us \<noteq> []" "distinct (map fst us)"
    using wf map_of_SomeD [OF Some] by (force simp: groups_wf_def)+
  have m: "map_of us u = fold later (filter (relevant F stale now g u) ss) None" for u
    using lk [rule_format, of g u] Some by (simp add: lookup2_def)
  have "u \<in> fst ` set us \<longleftrightarrow> (\<exists>s \<in> set ss. relevant F stale now g u s)" for u
  proof -
    have "u \<in> fst ` set us \<longleftrightarrow> map_of us u \<noteq> None" by (simp add: map_of_eq_None_iff)
    then show ?thesis unfolding m fold_later_None by (simp add: filter_empty_conv)
  qed
  then have "fst ` set us = {u. \<exists>s \<in> set ss. relevant F stale now g u s}" by blast
  moreover have "latest_sample F stale now ss g u s" if "(u, s) \<in> set us" for u s
    using map_of_is_SomeI [OF us(2) that] unfolding m by (rule fold_later_latest)
  ultimately show ?thesis using us unfolding Some is_group_def option.case by blast
qed

section \<open>Scaled weights\<close>

lemma scale_weight_total:
  assumes "0 \<le> f" "f \<le> 10" "unat w \<le> 429496729"
  shows "scale_weight (Fin f) w = Some (of_int (round_away (of_nat (unat w) * f)))"
    and "0 \<le> round_away (of_nat (unat w) * f)" "round_away (of_nat (unat w) * f) < 2 ^ 32"
proof -
  let ?x = "of_nat (unat w) * f"
  have "of_nat (unat w) \<le> (of_nat 429496729 :: rat)" using assms(3) by (rule of_nat_mono)
  then have "?x \<le> of_nat 429496729 * 10" by (rule mult_mono) (use assms in simp_all)
  moreover have nonneg: "0 \<le> ?x" using assms(1) by (intro mult_nonneg_nonneg of_nat_0_le_iff)
  ultimately have "round_away ?x \<le> 4294967290" by (intro round_away_le) (simp_all del: of_nat_unat)
  then show "round_away ?x < 2 ^ 32" by simp
  moreover show "0 \<le> round_away ?x" using nonneg by (rule round_away_nonneg)
  ultimately show "scale_weight (Fin f) w = Some (of_int (round_away ?x))"
    by (simp add: scale_weight_def fp_of_u32_def)
qed

lemma unat_of_int_small: "0 \<le> z \<Longrightarrow> z < 2 ^ 32 \<Longrightarrow> unat (of_int z :: 32 word) = nat z"
  by (simp add: unat_eq_nat_uint uint_word_of_int_eq take_bit_int_eq_self)

lemma those_map_Some:
  "(\<And>x. x \<in> set xs \<Longrightarrow> f x = Some (h x)) \<Longrightarrow> those (map f xs) = Some (map h xs)"
  by (induction xs) auto

section \<open>Aggregation\<close>

lemma Aggregate_result:
  assumes wf: "lds_wf st" and now2: "valid_ms now2"
    and pending: "lds_pending_samples st = ss" "ss \<noteq> []" and ok: "list_all (sample_ok stale) ss"
  shows "\<exists>st'. AggregatePendingTrafficSamples F stale now1 now2 st = Some st'
    \<and> lds_wf st' \<and> lds_pending_samples st' = []
    \<and> (\<forall>g. \<exists>entry. lds_get st' g = (case entry of None \<Rightarrow> None
          | Some d \<Rightarrow> if now2 - ted_timestamp_ms d \<le> stale * 1000 then Some d else None)
        \<and> (if \<exists>u. \<exists>s \<in> set ss. relevant F stale now1 g u s
           then \<exists>us. is_group F stale now1 ss g us \<and> entry = Some (aggregate_segment us)
           else entry = lds_get st g))"
proof -
  let ?st1 = "st\<lparr>lds_pending_samples := []\<rparr>"
  from group_samples_spec [OF ok, of F now1] obtain gr
    where gr: "group_samples F stale now1 ss [] = Some gr"
      and gwf: "groups_wf (\<lambda>s. in_i64 (smp_timestamp_ms s)) gr"
      and lk: "\<forall>g u. lookup2 gr g u = fold later (filter (relevant F stale now1 g u) ss) None" by blast
  have d: "distinct (map fst gr)" using gwf by (simp add: groups_wf_def)
  have wf1: "lds_wf ?st1" using wf by (simp add: lds_wf_def)
  note keep = store_groups_keep [OF wf1 gwf]
  have eq: "removeStaleSegments now2 stale (store_groups gr ?st1) = Some (store_groups gr ?st1
      \<lparr>lds_segments := filter (\<lambda>x. now2 - ted_timestamp_ms (snd x) \<le> stale * 1000)
        (lds_segments (store_groups gr ?st1))\<rparr>)" (is "_ = Some ?st'")
    by (rule removeStaleSegments_eq [OF keep(1) now2])
  have run: "AggregatePendingTrafficSamples F stale now1 now2 st = Some ?st'"
    using pending gr eq by (simp add: AggregatePendingTrafficSamples_def takePendingSamples_def)
  have get: "lds_get ?st' g = (case lds_get (store_groups gr ?st1) g of None \<Rightarrow> None
      | Some d \<Rightarrow> if now2 - ted_timestamp_ms d \<le> stale * 1000 then Some d else None)" for g
    using keep(1) by (simp add: lds_get_def lds_wf_def map_of_filter_distinct split: option.split)
  have grp: "if \<exists>u. \<exists>s \<in> set ss. relevant F stale now1 g u s
      then \<exists>us. is_group F stale now1 ss g us
             \<and> lds_get (store_groups gr ?st1) g = Some (aggregate_segment us)
      else lds_get (store_groups gr ?st1) g = lds_get st g" for g
    unfolding store_groups_get [OF d] using group_of_lookup [OF gwf lk, of g]
    by (cases "map_of gr g") (auto simp: is_group_def lds_get_def)
  show ?thesis
  proof (intro exI [of _ ?st'] conjI allI)
    show "lds_wf ?st'" using lds_wf_removeStale [OF keep(1) now2 eq] .
    show "lds_pending_samples ?st' = []" using keep(2) by simp
  qed (use run get grp in blast)+
qed

lemma Apply_result:
  assumes live: "\<And>d. lds_get st (ucast g) = Some d \<Longrightarrow>
      \<exists>f. ted_weight_factor d = Fin f \<and> 0 \<le> f \<and> f \<le> 10"
    and ws: "\<forall>w \<in> set ws. unat w \<le> 429496729"
  shows "\<exists>ws'. ApplyLiveTrafficToSegmentWeights st g ws = Some ws' \<and> length ws' = length ws
    \<and> (\<forall>i < length ws. ApplyLiveTrafficToSegmentWeight st g (ws ! i) = Some (ws' ! i)
        \<and> (case lds_get st (ucast g) of
             None \<Rightarrow> ws' ! i = ws ! i
           | Some d \<Rightarrow> if ted_source d \<noteq> ''live'' then ws' ! i = ws ! i
               else \<exists>f. ted_weight_factor d = Fin f
                 \<and> \<bar>of_nat (unat (ws' ! i)) - of_nat (unat (ws ! i)) * f\<bar> \<le> 1 / 2))"
proof (cases "\<exists>d. lds_get st (ucast g) = Some d \<and> ted_source d = ''live''")
  case False
  then show ?thesis
    by (auto simp: ApplyLiveTrafficToSegmentWeights_def ApplyLiveTrafficToSegmentWeight_def split: option.split)
next
  case True
  then obtain d f where d: "lds_get st (ucast g) = Some d" "ted_source d = ''live''"
    and f: "ted_weight_factor d = Fin f" "0 \<le> f" "f \<le> 10" using live by blast
  let ?h = "\<lambda>w. of_int (round_away (of_nat (unat w) * f)) :: 32 word"
  have sc: "scale_weight (Fin f) w = Some (?h w)" if "w \<in> set ws" for w
    using scale_weight_total(1) [OF f(2,3)] ws that by blast
  have close: "\<bar>of_nat (unat (?h w)) - of_nat (unat w) * f\<bar> \<le> 1 / 2" if "w \<in> set ws" for w
  proof -
    note b = scale_weight_total(2,3) [OF f(2,3)]
    have "unat (?h w) = nat (round_away (of_nat (unat w) * f))"
      using ws that by (intro unat_of_int_small b) blast+
    then have "of_nat (unat (?h w)) = (of_int (round_away (of_nat (unat w) * f)) :: rat)"
      using b(1) [of w] ws that by (simp del: of_nat_unat)
    then show ?thesis using round_away_close by metis
  qed
  have "ApplyLiveTrafficToSegmentWeights st g ws = Some (map ?h ws)"
    using d f(1) sc by (simp add: ApplyLiveTrafficToSegmentWeights_def those_map_Some)
  moreover have "ApplyLiveTrafficToSegmentWeight st g w = Some (?h w)" if "w \<in> set ws" for w
    using d f(1) sc [OF that] by (simp add: ApplyLiveTrafficToSegmentWeight_def)
  ultimately show ?thesis using d f(1) close by (intro exI [of _ "map ?h ws"]) simp
qed

section \<open>Properties\<close>

text \<open>A road network with a single enabled segment, used to evaluate the theorems.\<close>

definition demo_facade :: BaseDataFacade where
  "demo_facade = \<lparr>NearestPhantomNodes = (\<lambda>c. [\<lparr>seg_id = 4, seg_enabled = True\<rparr>]),
     GetGeometryIndex = (\<lambda>e. e + 3),
     GetUncompressedForwardGeometry = (\<lambda>g. [10, 11, 12]),
     GetUncompressedForwardWeights = (\<lambda>g. [20, 30]),
     GetUncompressedReverseWeights = (\<lambda>g. [21, 31]),
     GetCoordinateOfNode = (\<lambda>n. \<lparr>crd_lon = 27000000 + uint n, crd_lat = 47000000\<rparr>)\<rparr>"

definition demo_sample :: "64 word \<Rightarrow> rat \<Rightarrow> int \<Rightarrow> TrafficSample" where
  "demo_sample u v t = \<lparr>smp_user_id = u, smp_latitude = Fin 47, smp_longitude = Fin 27,
     smp_speed_kmh = Fin v, smp_bearing_deg = Fin 90, smp_timestamp_ms = t\<rparr>"

lemma demo_sample_ok: "sample_ok 60 (demo_sample u v 990000)"
  by (simp add: sample_ok_def demo_sample_def in_range_def in_i64_def)

lemma demo_snap: "snap demo_facade (demo_sample u v t) = Some (Some 7)"
  by (simp add: snap_def demo_facade_def demo_sample_def toFixed_def round_away_def trunc_def)

text \<open>
  C1.  Aggregation, end to end.  With pending samples whose coordinates are finite and in range,
  aggregation runs without undefined behaviour and empties the queue.  A geometry for which some
  fresh sample was snapped gets the average over its group, which has exactly the users with such
  a sample and for each of them a latest one; every other geometry keeps its entry.  Afterwards
  exactly the entries older than the limit are gone.
\<close>

theorem AggregatePendingTrafficSamples_spec:
  assumes wf: "lds_wf st" and now2: "valid_ms now2"
    and pending: "lds_pending_samples st = ss" "ss \<noteq> []" and ok: "list_all (sample_ok stale) ss"
  shows "\<exists>st'. AggregatePendingTrafficSamples F stale now1 now2 st = Some st'
    \<and> lds_wf st' \<and> lds_pending_samples st' = []
    \<and> (\<forall>g. \<exists>entry. lds_get st' g = (case entry of None \<Rightarrow> None
          | Some d \<Rightarrow> if now2 - ted_timestamp_ms d \<le> stale * 1000 then Some d else None)
        \<and> (if \<exists>u. \<exists>s \<in> set ss. relevant F stale now1 g u s
           then \<exists>us. is_group F stale now1 ss g us \<and> entry = Some (aggregate_segment us)
           else entry = lds_get st g))"
  using assms by (rule Aggregate_result)

theorem AggregatePendingTrafficSamples_spec_witness:
  "\<exists>st'. AggregatePendingTrafficSamples demo_facade 60 1000000 1000001
        (lds_init\<lparr>lds_pending_samples := [demo_sample 1 20 990000]\<rparr>) = Some st'
    \<and> lds_get st' 7 = Some (aggregate_segment [(1, demo_sample 1 20 990000)])"
proof -
  let ?s = "demo_sample 1 20 990000"
  let ?st = "lds_init\<lparr>lds_pending_samples := [?s]\<rparr>"
  have "lds_wf ?st" "valid_ms 1000001" "lds_pending_samples ?st = [?s]" "[?s] \<noteq> []"
    "list_all (sample_ok 60) [?s]"
    by (simp_all add: lds_wf_def lds_init_def valid_ms_def i64_simps demo_sample_ok)
  from AggregatePendingTrafficSamples_spec [OF this, of demo_facade 1000000] obtain st' entry where
    run: "AggregatePendingTrafficSamples demo_facade 60 1000000 1000001 ?st = Some st'" and
    get: "lds_get st' 7 = (case entry of None \<Rightarrow> None
          | Some d \<Rightarrow> if 1000001 - ted_timestamp_ms d \<le> 60 * 1000 then Some d else None)" and
    grp: "if \<exists>u. \<exists>s \<in> set [?s]. relevant demo_facade 60 1000000 7 u s
           then \<exists>us. is_group demo_facade 60 1000000 [?s] 7 us \<and> entry = Some (aggregate_segment us)
           else entry = lds_get ?st 7" by blast
  have "relevant demo_facade 60 1000000 7 u ?s \<longleftrightarrow> u = 1" for u
    unfolding relevant_def demo_snap by (auto simp: demo_sample_def)
  with grp obtain us where us: "is_group demo_facade 60 1000000 [?s] 7 us" "entry = Some (aggregate_segment us)"
    by auto
  have "us = [(1, ?s)]"
  proof -
    have "fst ` set us = {1}" "\<forall>(u, s) \<in> set us. s = ?s" "distinct (map fst us)"
      using us(1) \<open>\<And>u. relevant demo_facade 60 1000000 7 u ?s \<longleftrightarrow> u = 1\<close>
      by (auto simp: is_group_def latest_sample_def)
    then show ?thesis by (cases us rule: remdups_adj.cases) auto
  qed
  with run get us(2) show ?thesis
    by (simp add: aggregate_segment_def latest_timestamp_def demo_sample_def Let_def)
qed



text \<open>
  C20.  Scaling the weights of a geometry.  For every entry with a factor between 0 and 10 and every
  weight vector whose weights are at most 429496729 (packed weights have 22 bits), both functions
  return; the vector version is the element version on every element, keeps the length, and each
  scaled weight is within 1/2 of the exact product.  Without a live entry nothing changes.
\<close>

theorem ApplyLiveTrafficToSegmentWeights_spec:
  assumes live: "\<And>d. lds_get st (ucast g) = Some d \<Longrightarrow>
      \<exists>f. ted_weight_factor d = Fin f \<and> 0 \<le> f \<and> f \<le> 10"
    and ws: "\<forall>w \<in> set ws. unat w \<le> 429496729"
  shows "\<exists>ws'. ApplyLiveTrafficToSegmentWeights st g ws = Some ws' \<and> length ws' = length ws
    \<and> (\<forall>i < length ws. ApplyLiveTrafficToSegmentWeight st g (ws ! i) = Some (ws' ! i)
        \<and> (case lds_get st (ucast g) of
             None \<Rightarrow> ws' ! i = ws ! i
           | Some d \<Rightarrow> if ted_source d \<noteq> ''live'' then ws' ! i = ws ! i
               else \<exists>f. ted_weight_factor d = Fin f
                 \<and> \<bar>of_nat (unat (ws' ! i)) - of_nat (unat (ws ! i)) * f\<bar> \<le> 1 / 2))"
  using assms by (rule Apply_result)

theorem ApplyLiveTrafficToSegmentWeights_spec_witness:
  "\<exists>ws'. ApplyLiveTrafficToSegmentWeights demo_store 2 [20, 30] = Some ws' \<and> length ws' = 2"
proof -
  have "\<exists>f. ted_weight_factor d = Fin f \<and> 0 \<le> f \<and> f \<le> 10"
    if "lds_get demo_store (ucast (2 :: 32 word)) = Some d" for d
    using that by (auto simp: demo_store_def lds_get_def demo_edge_def lds_init_def split: if_splits)
  moreover have "\<forall>w \<in> set [20, 30 :: 32 word]. unat w \<le> 429496729" by simp
  ultimately show ?thesis using ApplyLiveTrafficToSegmentWeights_spec [of demo_store 2 "[20, 30]"] by auto
qed

text \<open>
  Slower traffic never makes a segment cheaper: for finite speeds \<open>0 < v \<le> v'\<close> the weight a
  segment gets at speed \<open>v\<close> is at least the one it gets at \<open>v'\<close>.
\<close>

lemma weight_antimono_in_speed:
  assumes "0 < v" "v \<le> v'" "unat w \<le> 429496729"
  shows "\<exists>w1 w2. scale_weight (ComputeTrafficWeightFactor (Fin v)) w = Some w1
    \<and> scale_weight (ComputeTrafficWeightFactor (Fin v')) w = Some w2 \<and> w2 \<le> w1"
proof -
  define f where "f u = (if u \<le> 5 then 10 else 50 / u)" for u :: rat
  have f: "0 \<le> f u" "f u \<le> 10" if "0 < u" for u using that by (auto simp: f_def field_simps)
  have "f v' \<le> f v" using assms(1,2) by (auto simp: f_def field_simps)
  then have "of_nat (unat w) * f v' \<le> of_nat (unat w) * f v" by (rule mult_left_mono) (rule of_nat_0_le_iff)
  moreover have v: "0 < v'" using assms by simp
  ultimately have le: "round_away (of_nat (unat w) * f v') \<le> round_away (of_nat (unat w) * f v)"
    using f(1) by (intro round_away_mono mult_nonneg_nonneg of_nat_0_le_iff)
  note t = scale_weight_total [OF f(1) f(2) assms(3)]
  have "unat (of_int (round_away (of_nat (unat w) * f v')) :: 32 word)
      \<le> unat (of_int (round_away (of_nat (unat w) * f v)) :: 32 word)"
    using le t(2,3) [OF assms(1) assms(1)] t(2,3) [OF v v] by (simp add: unat_of_int_small del: of_nat_unat)
  then show ?thesis unfolding weight_factor_Fin
    using t(1) [OF assms(1) assms(1)] t(1) [OF v v] by (simp add: f_def word_le_nat_alt)
qed

text \<open>
  Without pending samples aggregation returns before the eviction: the store is unchanged, and a
  segment stays readable whatever its age.
\<close>

lemma aggregate_no_pending:
  assumes "lds_pending_samples st = []"
  shows "AggregatePendingTrafficSamples F stale now1 now2 st = Some st"
  using assms by (simp add: AggregatePendingTrafficSamples_def takePendingSamples_def)



end
