(* ===== verification/Parameters.thy ===== *)
theory Parameters
  imports Coordinates
begin

text \<open>
  The request parameters of the services (\<^verbatim>\<open>include/engine/api/*_parameters.hpp\<close>,
  \<^verbatim>\<open>include/engine/bearing.hpp\<close>) and their validity tests.  The inheritance of the structs is record
  extension.  A hint is opaque here, the type parameter \<open>'h\<close>; a radius is a double.
\<close>

unbundle bit_operations_syntax

section \<open>Parameters of every service\<close>

record Bearing =
  brg_bearing :: "16 word"
  brg_range :: "16 word"

definition Bearing_IsValid :: "Bearing \<Rightarrow> bool" where
  "Bearing_IsValid b \<longleftrightarrow> sint (brg_bearing b) \<ge> 0 \<and> sint (brg_bearing b) \<le> 360
     \<and> sint (brg_range b) \<ge> 0 \<and> sint (brg_range b) \<le> 180"

datatype Approach = UNRESTRICTED | CURB

datatype SnappingType = SnapDefault | SnapAny

datatype OutputFormatType = JSON | FLATBUFFERS

record 'h BaseParameters =
  bp_coordinates :: "Coordinate list"
  bp_hints :: "'h option list"
  bp_radiuses :: "fp option list"
  bp_bearings :: "Bearing option list"
  bp_approaches :: "Approach option list"
  bp_exclude :: "string list"
  bp_format :: "OutputFormatType option"
  bp_generate_hints :: bool
  bp_skip_waypoints :: bool
  bp_snapping :: SnappingType

definition BaseParameters_default :: "'h BaseParameters" where
  "BaseParameters_default = \<lparr>bp_coordinates = [], bp_hints = [], bp_radiuses = [], bp_bearings = [],
     bp_approaches = [], bp_exclude = [], bp_format = Some JSON, bp_generate_hints = True,
     bp_skip_waypoints = False, bp_snapping = SnapDefault\<rparr>"

definition BaseParameters_IsValid :: "('h, 'z) BaseParameters_scheme \<Rightarrow> bool" where
  "BaseParameters_IsValid p \<longleftrightarrow>
     (bp_hints p = [] \<or> length (bp_hints p) = length (bp_coordinates p)) \<and>
     (bp_bearings p = [] \<or> length (bp_bearings p) = length (bp_coordinates p)) \<and>
     (bp_radiuses p = [] \<or> length (bp_radiuses p) = length (bp_coordinates p)) \<and>
     (bp_approaches p = [] \<or> length (bp_approaches p) = length (bp_coordinates p)) \<and>
     list_all (\<lambda>b. case b of None \<Rightarrow> True | Some bearing_and_range \<Rightarrow> Bearing_IsValid bearing_and_range)
       (bp_bearings p)"

section \<open>Route, match, trip\<close>

datatype GeometriesType = GPolyline | GPolyline6 | GGeoJSON

datatype OverviewType = OvSimplified | OvFull | OvFalse

text \<open>\<^verbatim>\<open>RouteParameters::AnnotationsType\<close>: a set of flags in an \<^verbatim>\<open>int\<close>.\<close>

type_synonym AnnotationsType = "32 word"

definition RA_None :: AnnotationsType where "RA_None = 0"

definition RA_All :: AnnotationsType where
  "RA_All = 1 OR 2 OR 4 OR 8 OR 16 OR 32"

definition annotations_and :: "AnnotationsType \<Rightarrow> AnnotationsType \<Rightarrow> bool" where
  "annotations_and lhs rhs \<longleftrightarrow> lhs AND rhs \<noteq> 0"

definition annotations_or :: "AnnotationsType \<Rightarrow> AnnotationsType \<Rightarrow> AnnotationsType" where
  "annotations_or lhs rhs = lhs OR rhs"

record 'h RouteParameters = "'h BaseParameters" +
  rp_steps :: bool
  rp_alternatives :: bool
  rp_number_of_alternatives :: "32 word"
  rp_annotations :: bool
  rp_annotations_type :: AnnotationsType
  rp_geometries :: GeometriesType
  rp_overview :: OverviewType
  rp_continue_straight :: "bool option"
  rp_waypoints :: "nat list"

text \<open>The constructors: the one with flags for the annotations, and the one with a boolean.\<close>

definition RouteParameters_flags :: "bool \<Rightarrow> bool \<Rightarrow> AnnotationsType \<Rightarrow> GeometriesType \<Rightarrow> OverviewType
    \<Rightarrow> bool option \<Rightarrow> nat list \<Rightarrow> 'h BaseParameters \<Rightarrow> 'h RouteParameters" where
  "RouteParameters_flags steps alternatives annotations geometries overview continue_straight waypoints base =
     BaseParameters.extend base \<lparr>rp_steps = steps, rp_alternatives = alternatives,
       rp_number_of_alternatives = (if alternatives then 1 else 0),
       rp_annotations = (annotations \<noteq> RA_None), rp_annotations_type = annotations,
       rp_geometries = geometries, rp_overview = overview, rp_continue_straight = continue_straight,
       rp_waypoints = waypoints\<rparr>"

definition RouteParameters_bool :: "bool \<Rightarrow> bool \<Rightarrow> bool \<Rightarrow> GeometriesType \<Rightarrow> OverviewType
    \<Rightarrow> bool option \<Rightarrow> nat list \<Rightarrow> 'h BaseParameters \<Rightarrow> 'h RouteParameters" where
  "RouteParameters_bool steps alternatives annotations geometries overview continue_straight waypoints base =
     BaseParameters.extend base \<lparr>rp_steps = steps, rp_alternatives = alternatives,
       rp_number_of_alternatives = (if alternatives then 1 else 0),
       rp_annotations = annotations, rp_annotations_type = (if annotations then RA_All else RA_None),
       rp_geometries = geometries, rp_overview = overview, rp_continue_straight = continue_straight,
       rp_waypoints = waypoints\<rparr>"

definition RouteParameters_IsValid :: "('h, 'z) RouteParameters_scheme \<Rightarrow> bool" where
  "RouteParameters_IsValid p \<longleftrightarrow>
     (let coordinates_ok = length (bp_coordinates p) \<ge> 2;
          base_params_ok = BaseParameters_IsValid p;
          valid_waypoints = list_all (\<lambda>w. w < length (bp_coordinates p)) (rp_waypoints p)
      in coordinates_ok \<and> base_params_ok \<and> valid_waypoints)"

datatype GapsType = Split | Ignore

record 'h MatchParameters = "'h RouteParameters" +
  mp_timestamps :: "32 word list"
  mp_gaps :: GapsType
  mp_tidy :: bool

definition MatchParameters_default :: "'h MatchParameters" where
  "MatchParameters_default = RouteParameters.extend
     (RouteParameters_bool False False False GPolyline OvSimplified None [] BaseParameters_default)
     \<lparr>mp_timestamps = [], mp_gaps = Split, mp_tidy = False\<rparr>"

definition MatchParameters_IsValid :: "('h, 'z) MatchParameters_scheme \<Rightarrow> bool" where
  "MatchParameters_IsValid p \<longleftrightarrow> RouteParameters_IsValid p
     \<and> (mp_timestamps p = [] \<or> length (mp_timestamps p) = length (bp_coordinates p))"

datatype SourceType = SourceAny | SourceFirst

datatype DestinationType = DestinationAny | DestinationLast

record 'h TripParameters = "'h RouteParameters" +
  tp_source :: SourceType
  tp_destination :: DestinationType
  tp_roundtrip :: bool

definition TripParameters_IsValid :: "('h, 'z) TripParameters_scheme \<Rightarrow> bool" where
  "TripParameters_IsValid p = RouteParameters_IsValid p"

section \<open>Table, nearest, tile\<close>

datatype FallbackCoordinateType = FallbackInput | FallbackSnapped

record 'h TableParameters = "'h BaseParameters" +
  tb_sources :: "nat list"
  tb_destinations :: "nat list"
  tb_fallback_speed :: fp
  tb_fallback_coordinate_type :: FallbackCoordinateType
  tb_annotations :: AnnotationsType
  tb_scale_factor :: fp

definition TableParameters_IsValid :: "('h, 'z) TableParameters_scheme \<Rightarrow> bool" where
  "TableParameters_IsValid p =
     (if \<not> BaseParameters_IsValid p then False
      else if length (bp_coordinates p) < 2 then False
      else if list_ex (\<lambda>x. x \<ge> length (bp_coordinates p)) (tb_sources p) then False
      else if list_ex (\<lambda>x. x \<ge> length (bp_coordinates p)) (tb_destinations p) then False
      else if fp_le (tb_fallback_speed p) (Fin 0) then False
      else if fp_le (tb_scale_factor p) (Fin 0) then False
      else True)"

record 'h NearestParameters = "'h BaseParameters" +
  np_number_of_results :: "32 word"

definition NearestParameters_IsValid :: "('h, 'z) NearestParameters_scheme \<Rightarrow> bool" where
  "NearestParameters_IsValid p \<longleftrightarrow> BaseParameters_IsValid p \<and> np_number_of_results p \<ge> 1"

record TileParameters =
  tile_x :: "32 word"
  tile_y :: "32 word"
  tile_z :: "32 word"

text \<open>
  The two bounds are computed before the zoom level is tested: \<^verbatim>\<open>std::pow(2., z)\<close> converted to
  \<^verbatim>\<open>unsigned\<close>, undefined from \<open>z = 32\<close> on (the power is infinite from 1024 on).
\<close>

definition pow2 :: "nat \<Rightarrow> fp" where
  "pow2 z = (if z < 1024 then Fin (2 ^ z) else PInf)"

definition TileParameters_IsValid :: "TileParameters \<Rightarrow> bool option" where
  "TileParameters_IsValid p = do {
     n \<leftarrow> fp_to_u32 (pow2 (unat (tile_z p)));
     let valid_x = tile_x p \<le> n - 1;
         valid_y = tile_y p \<le> n - 1;
         valid_z = tile_z p < 20 \<and> tile_z p \<ge> 12
     in Some (valid_x \<and> valid_y \<and> valid_z)
   }"

section \<open>Properties\<close>

lemma pow2_u32: "fp_to_u32 (pow2 z) = (if z < 32 then Some (of_int (2 ^ z)) else None)"
proof (cases "z < 1024")
  case True
  have "trunc (2 ^ z) = 2 ^ z" using trunc_of_int [of "2 ^ z"] by simp
  moreover have "(2::int) ^ z < 2 ^ 32 \<longleftrightarrow> z < 32" by (rule power_strict_increasing_iff) simp
  ultimately show ?thesis using True by (simp add: pow2_def)
qed (simp add: pow2_def)

lemma le_pow2_minus_1:
  fixes x :: "32 word"
  assumes "z < 32"
  shows "x \<le> of_int (2 ^ z) - 1 \<longleftrightarrow> unat x < 2 ^ z"
proof -
  have m: "(of_int (2 ^ z) - 1 :: 32 word) = mask z" by (simp add: mask_eq_exp_minus_1)
  have "uint (mask z :: 32 word) = 2 ^ z - 1"
    using assms unfolding uint_mask_eq by (simp add: min_def mask_eq_exp_minus_1)
  then have "x \<le> mask z \<longleftrightarrow> int (unat x) < int (2 ^ z)" unfolding word_le_def by simp
  then show ?thesis unfolding m of_nat_less_iff .
qed

lemma unat_numeral_small: "unat (12 :: 32 word) = 12" "unat (20 :: 32 word) = 20"
  by simp_all

text \<open>
  Tile coordinates.  For zoom levels below 32 the test accepts exactly the tiles of the levels 12
  to 19 whose column and row are below \<open>2 ^ z\<close>; from level 32 on the conversion of the power to
  \<^verbatim>\<open>unsigned\<close> is undefined.
\<close>

lemma TileParameters_valid_iff:
  "TileParameters_IsValid p =
    (if unat (tile_z p) < 32 then
       Some (12 \<le> unat (tile_z p) \<and> unat (tile_z p) < 20
         \<and> unat (tile_x p) < 2 ^ unat (tile_z p) \<and> unat (tile_y p) < 2 ^ unat (tile_z p))
     else None)"
proof (cases "unat (tile_z p) < 32")
  case True
  then show ?thesis
    unfolding TileParameters_IsValid_def pow2_u32
    apply (simp only: if_True Option.bind.simps Let_def le_pow2_minus_1 [OF True])
    apply (simp only: word_le_nat_alt word_less_nat_alt unat_numeral_small option.inject)
    by blast
next
  case False
  then show ?thesis unfolding TileParameters_IsValid_def pow2_u32 by simp
qed

end
