(* ===== verification/Polyline.thy ===== *)
theory Polyline
  imports Coordinates
begin

text \<open>
  \<^verbatim>\<open>include/engine/polyline_compressor.hpp\<close> and \<^verbatim>\<open>src/engine/polyline_compressor.cpp\<close>: the polyline
  encoding of a list of coordinates.  The numbers are 32-bit words; a signed addition or a
  conversion that overflows is \<^term>\<open>None\<close>.  The precision is the template argument.
\<close>

unbundle bit_operations_syntax

section \<open>Encoding\<close>

function encode_number :: "32 word \<Rightarrow> string" where
  "encode_number n =
     (if 32 \<le>s n then char_of (unat ((32 OR (n AND 31)) + 63)) # encode_number (signed_drop_bit 5 n)
      else [char_of (unat (n + 63))])"
  by pat_completeness auto

lemma bit_31_sint: "bit n 31 \<longleftrightarrow> sint n < 0" for n :: "32 word"
  using bit_last_iff [of n] by simp

lemma sint_nonneg_unat: "0 \<le> sint n \<Longrightarrow> sint n = int (unat n)" for n :: "32 word"
  using sint_lt [of n] uint_sint [of n] by (simp add: take_bit_int_eq_self)

lemma sle_nonneg:
  fixes n :: "32 word"
  assumes "32 \<le>s n"
  shows "\<not> bit n 31" "32 \<le> unat n"
proof -
  have "32 \<le> sint n" using assms by (simp add: word_sle_eq)
  then show "\<not> bit n 31" "32 \<le> unat n" using sint_nonneg_unat [of n] unfolding bit_31_sint by linarith+
qed

lemma signed_drop_bit_nonneg: "\<not> bit n 31 \<Longrightarrow> signed_drop_bit 5 n = drop_bit 5 n" for n :: "32 word"
  by (rule bit_word_eqI) (auto simp: bit_signed_drop_bit_iff bit_drop_bit_eq dest: bit_imp_le_length)

termination encode_number
proof (relation "measure unat", simp)
  fix n :: "32 word"
  assume n: "32 \<le>s n"
  have "unat (drop_bit 5 n) = unat n div 32" by (subst unat_drop_bit_eq) (simp add: drop_bit_eq_div)
  then show "(signed_drop_bit 5 n, n) \<in> measure unat"
    using sle_nonneg [OF n] by (simp add: signed_drop_bit_nonneg)
qed

declare encode_number.simps [simp del]

text \<open>The sign coding of the first loop of \<^verbatim>\<open>encode(std::vector<int> &)\<close>.\<close>

definition zigzag :: "32 word \<Rightarrow> 32 word" where
  "zigzag n = (if n <s 0 then
       let binary = - n; twos = NOT binary + 1; shl = push_bit 1 twos in NOT shl
     else push_bit 1 n)"

definition encode_numbers :: "32 word list \<Rightarrow> string" where
  "encode_numbers ns = concat (map encode_number (map zigzag ns))"

fun delta_numbers :: "nat \<Rightarrow> int \<Rightarrow> int \<Rightarrow> Coordinate list \<Rightarrow> int list option" where
  "delta_numbers prec current_lat current_lon [] = Some []"
| "delta_numbers prec current_lat current_lon (loc # locs) = do {
     lat_diff \<leftarrow> fp_to_i32 (Fin (of_int (round_away (of_int (crd_lat loc) * (of_nat prec / 1000000)))
                              - of_int current_lat));
     lon_diff \<leftarrow> fp_to_i32 (Fin (of_int (round_away (of_int (crd_lon loc) * (of_nat prec / 1000000)))
                              - of_int current_lon));
     current_lat' \<leftarrow> i32_add current_lat lat_diff;
     current_lon' \<leftarrow> i32_add current_lon lon_diff;
     rest \<leftarrow> delta_numbers prec current_lat' current_lon' locs;
     Some (lat_diff # lon_diff # rest)
   }"

definition encodePolyline :: "nat \<Rightarrow> Coordinate list \<Rightarrow> string option" where
  "encodePolyline prec locs = do {
     ns \<leftarrow> delta_numbers prec 0 0 locs;
     Some (encode_numbers (map word_of_int ns))
   }"

section \<open>Decoding\<close>

fun decode_chunks :: "32 word \<Rightarrow> nat \<Rightarrow> 32 word \<Rightarrow> string \<Rightarrow> 32 word \<times> string" where
  "decode_chunks val shift result [] = (result, [])"
| "decode_chunks val shift result (c # s) =
     (if val AND 32 \<noteq> 0 \<and> shift < 31 then
        let val' = of_nat (of_char c) - 63
        in decode_chunks val' (shift + 5) (result OR push_bit shift (val' AND 31)) s
      else (result, c # s))"

definition unzigzag :: "32 word \<Rightarrow> 32 word" where
  "unzigzag result = (if result AND 1 = 1 then NOT (drop_bit 1 result) else drop_bit 1 result)"

definition decode_polyline_integer :: "string \<Rightarrow> 32 word \<times> string" where
  "decode_polyline_integer s = (case decode_chunks 32 0 0 s of (result, s') \<Rightarrow> (unzigzag result, s'))"

lemma decode_chunks_shrinks: "length (snd (decode_chunks v sh r s)) \<le> length s"
  by (induction v sh r s rule: decode_chunks.induct) (auto simp: Let_def)

lemma decode_integer_shrinks: "decode_polyline_integer s = (n, s') \<Longrightarrow> length s' \<le> length s"
  using decode_chunks_shrinks [of 32 0 0 s]
  by (auto simp: decode_polyline_integer_def split: prod.splits)

lemma decode_integer_consumes: "decode_polyline_integer (c # s) = (n, s') \<Longrightarrow> length s' \<le> length s"
  using decode_chunks_shrinks [of "of_nat (of_char c) - 63" 5 "(of_nat (of_char c) - 63) AND 31" s]
  by (auto simp: decode_polyline_integer_def Let_def split: prod.splits)

lemma decode_integer_two:
  "(m, s1) = decode_polyline_integer (c # s) \<Longrightarrow> (n, s2) = decode_polyline_integer s1
    \<Longrightarrow> length s2 < Suc (length s)"
  using decode_integer_consumes [of c s m s1] decode_integer_shrinks [of s1 n s2] by simp

function decode_coordinates :: "nat \<Rightarrow> int \<Rightarrow> int \<Rightarrow> string \<Rightarrow> Coordinate list option" where
  "decode_coordinates prec latitude longitude [] = Some []"
| "decode_coordinates prec latitude longitude (c # s) =
     (case decode_polyline_integer (c # s) of (dlat, s1) \<Rightarrow>
      case decode_polyline_integer s1 of (dlon, s2) \<Rightarrow> do {
        latitude' \<leftarrow> i32_add latitude (sint dlat);
        longitude' \<leftarrow> i32_add longitude (sint dlon);
        lon \<leftarrow> fp_to_i32 (Fin (of_int longitude' * (1000000 / of_nat prec)));
        lat \<leftarrow> fp_to_i32 (Fin (of_int latitude' * (1000000 / of_nat prec)));
        rest \<leftarrow> decode_coordinates prec latitude' longitude' s2;
        Some (\<lparr>crd_lon = lon, crd_lat = lat\<rparr> # rest)
      })"
  by pat_completeness auto

termination decode_coordinates
  by (relation "measure (\<lambda>(_, _, _, s). length s)")
     (auto dest: decode_integer_two)

definition decodePolyline :: "nat \<Rightarrow> string \<Rightarrow> Coordinate list option" where
  "decodePolyline prec polyline = decode_coordinates prec 0 0 polyline"

section \<open>The number coding\<close>

lemma bit_31_int [simp]: "bit (31 :: int) n \<longleftrightarrow> n < 5"
proof -
  have "(31 :: int) = mask 5" by (simp add: mask_eq_exp_minus_1)
  then show ?thesis by (simp only: bit_mask_iff) simp
qed

lemma bit_32_int [simp]: "bit (32 :: int) n \<longleftrightarrow> n = 5"
proof -
  have "(32 :: int) = 2 ^ 5" by simp
  then show ?thesis by (simp only: bit_exp_iff) auto
qed

lemma and_31: "n AND 31 = take_bit 5 n" for n :: "32 word"
  by (rule bit_word_eqI) (auto simp: bit_and_iff bit_take_bit_iff)

lemma unat_and_31: "unat (n AND 31) = unat n mod 32" for n :: "32 word"
  by (simp add: and_31 take_bit_eq_mod unat_mod_distrib)

lemma or_32: "32 OR (n AND 31) = 32 + (n AND 31)" for n :: "32 word"
  by (rule disjunctive_add [symmetric]) (auto simp: bit_and_iff)

lemma chunk_char:
  fixes v :: "32 word"
  assumes "unat v < 64"
  shows "of_nat (unat (v + 63) mod 256) - 63 = v"
proof -
  have "unat (v + 63) = unat v + 63" using assms by (subst unat_add_lem [THEN iffD1]) auto
  then have "unat (v + 63) mod 256 = unat v + 63" using assms by simp
  then show ?thesis by simp
qed

lemma cont_chunk:
  fixes n :: "32 word"
  defines "v \<equiv> 32 OR (n AND 31)"
  shows "unat v < 64" "v AND 32 \<noteq> 0" "v AND 31 = n AND 31"
proof -
  have "unat (n AND 31) < 32" by (simp add: unat_and_31)
  then show "unat v < 64" unfolding v_def or_32 by (subst unat_add_lem [THEN iffD1]) auto
  have "bit (v AND 32) 5" by (simp add: v_def bit_and_iff bit_or_iff)
  then show "v AND 32 \<noteq> 0" by auto
  show "v AND 31 = n AND 31"
    unfolding v_def by (rule bit_word_eqI) (auto simp: bit_and_iff bit_or_iff)
qed

lemma last_chunk:
  fixes n :: "32 word"
  assumes "unat n < 32"
  shows "n AND 32 = 0" "n AND 31 = n"
proof -
  show eq: "n AND 31 = n" using assms by (simp add: word_unat_eq_iff unat_and_31)
  have "(n AND 31) AND 32 = 0" by (rule bit_word_eqI) (auto simp: bit_and_iff)
  then show "n AND 32 = 0" using eq by simp
qed

lemma chunk_split:
  "(r OR push_bit sh (n AND 31)) OR push_bit (sh + 5) (drop_bit 5 n) = r OR push_bit sh n" for n :: "32 word"
proof -
  have "(n AND 31) OR push_bit 5 (drop_bit 5 n) = n"
  proof (rule bit_word_eqI)
    show "bit ((n AND 31) OR push_bit 5 (drop_bit 5 n)) k = bit n k" if "k < LENGTH(32)" for k
      using that by (cases "k < 5") (auto simp: bit_and_iff bit_or_iff bit_push_bit_iff bit_drop_bit_eq)
  qed
  then have "push_bit sh (n AND 31) OR push_bit (sh + 5) (drop_bit 5 n) = push_bit sh n"
    by (metis push_bit_or push_bit_push_bit)
  then show ?thesis by (simp add: or.assoc)
qed

text \<open>Decoding what \<open>encode_number\<close> wrote for a number of at most 31 bits.\<close>

lemma decode_encode_number:
  assumes "unat n < 2 ^ (31 - sh)" "sh < 31" "val AND 32 \<noteq> 0"
  shows "decode_chunks val sh r (encode_number n @ rest) = (r OR push_bit sh n, rest)"
  using assms
proof (induction n arbitrary: val sh r rule: encode_number.induct)
  case (1 n)
  have n31: "unat n < 2 ^ 31" using "1.prems"(1) by (rule less_le_trans) (rule power_increasing; simp)
  show ?case
  proof (cases "32 \<le>s n")
    case True
    note big = sle_nonneg [OF True]
    have sh: "sh < 26"
    proof (rule ccontr)
      assume "\<not> sh < 26"
      then have "(2::nat) ^ (31 - sh) \<le> 2 ^ 5" by (intro power_increasing) auto
      then show False using big(2) "1.prems"(1) by simp
    qed
    have "unat (drop_bit 5 n) < 2 ^ (31 - (sh + 5))"
    proof -
      have "31 - sh = (31 - (sh + 5)) + 5" using sh by simp
      then have "unat n < 2 ^ (31 - (sh + 5)) * 2 ^ 5" using "1.prems"(1) by (metis power_add)
      then show ?thesis
        by (subst unat_drop_bit_eq) (simp only: drop_bit_eq_div less_mult_imp_div_less)
    qed
    then show ?thesis
      using "1.IH" [OF True, of "sh + 5" "32 OR (n AND 31)"] True big(1) "1.prems"(2,3) sh
      by (subst encode_number.simps)
         (simp add: Let_def chunk_char cont_chunk signed_drop_bit_nonneg chunk_split del: push_bit_and)
  next
    case False
    have "sint n < 32" using False by (simp add: word_sle_eq)
    then have "unat n < 32" unfolding sint_small [OF n31] by linarith
    then show ?thesis
      using False "1.prems"(2,3)
      by (cases rest; subst encode_number.simps) (simp_all add: Let_def chunk_char last_chunk del: push_bit_and)
  qed
qed

lemma bit_double: "bit (n * 2) k \<longleftrightarrow> 1 \<le> k \<and> k < 32 \<and> bit n (k - 1)" for n :: "32 word"
  using bit_push_bit_iff [of 1 n k] by (simp add: possible_bit_word)

lemma zigzag_neg: "sint n < 0 \<Longrightarrow> zigzag n = NOT (push_bit 1 n)"
  by (simp add: zigzag_def word_sless_alt Let_def not_eq_complement)

lemma zigzag_nonneg: "\<not> sint n < 0 \<Longrightarrow> zigzag n = push_bit 1 n"
  by (simp add: zigzag_def word_sless_alt)

lemma and_1_bit: "a AND 1 = 1 \<longleftrightarrow> bit a 0" for a :: "32 word"
  by (simp add: and_one_eq bit_0 odd_iff_mod_2_eq_one)

lemma unzigzag_zigzag: "unzigzag (zigzag n) = n"
proof (cases "sint n < 0")
  case True
  have "bit (NOT (push_bit 1 n)) 0" by (simp add: bit_not_iff bit_double)
  moreover have "NOT (drop_bit 1 (NOT (push_bit 1 n))) = n"
  proof (rule bit_word_eqI)
    show "bit (NOT (drop_bit 1 (NOT (push_bit 1 n)))) k = bit n k" if "k < LENGTH(32)" for k
      using that True bit_31_sint [of n]
      by (cases "k = 31") (auto simp: bit_not_iff bit_double bit_drop_bit_eq)
  qed
  ultimately show ?thesis using True by (simp add: zigzag_neg unzigzag_def and_1_bit)
next
  case False
  have "\<not> bit (push_bit 1 n) 0" by (simp add: bit_double)
  moreover have "drop_bit 1 (push_bit 1 n) = n"
  proof (rule bit_word_eqI)
    show "bit (drop_bit 1 (push_bit 1 n)) k = bit n k" if "k < LENGTH(32)" for k
      using that False bit_31_sint [of n]
      by (cases "k = 31") (auto simp: bit_double bit_drop_bit_eq)
  qed
  ultimately show ?thesis using False by (simp add: zigzag_nonneg unzigzag_def and_1_bit)
qed

lemma bit_30_range:
  fixes n :: "32 word"
  assumes "- (2 ^ 30) \<le> sint n" "sint n < 2 ^ 30"
  shows "bit n 30 \<longleftrightarrow> sint n < 0"
proof -
  have "bit n 30 \<longleftrightarrow> bit (sint n) 30" by (simp add: bit_sint_iff)
  also have "\<dots> \<longleftrightarrow> odd (sint n div 2 ^ 30)" by (rule bit_iff_odd)
  also have "sint n div 2 ^ 30 = (if sint n < 0 then - 1 else 0)"
    using assms by (auto simp: div_eq_minus1 intro!: div_pos_pos_trivial)
  finally show ?thesis by simp
qed

lemma not_bit_31_less: "\<not> bit n 31 \<Longrightarrow> unat n < 2 ^ 31" for n :: "32 word"
  using sint_nonneg_unat [of n] sint_lt [of n] unfolding bit_31_sint by (simp del: of_nat_unat)

lemma zigzag_bound:
  assumes "- (2 ^ 30) \<le> sint n" "sint n < 2 ^ 30"
  shows "unat (zigzag n) < 2 ^ 31"
proof (rule not_bit_31_less)
  show "\<not> bit (zigzag n) 31"
    using bit_30_range [OF assms]
    by (cases "sint n < 0") (simp_all add: zigzag_neg zigzag_nonneg bit_not_iff bit_double)
qed

lemma decode_integer_encode:
  assumes "- (2 ^ 30) \<le> sint n" "sint n < 2 ^ 30"
  shows "decode_polyline_integer (encode_number (zigzag n) @ rest) = (n, rest)"
  using decode_encode_number [of "zigzag n" 0 32 0 rest] zigzag_bound [OF assms]
  by (simp add: decode_polyline_integer_def unzigzag_zigzag)

section \<open>Coordinates\<close>

lemma encode_number_not_Nil: "encode_number n \<noteq> []"
  by (subst encode_number.simps) simp

lemma decode_coordinates_step:
  assumes "decode_polyline_integer s = (dlat, s1)" "decode_polyline_integer s1 = (dlon, s2)" "s \<noteq> []"
  shows "decode_coordinates prec latitude longitude s = do {
        latitude' \<leftarrow> i32_add latitude (sint dlat);
        longitude' \<leftarrow> i32_add longitude (sint dlon);
        lon \<leftarrow> fp_to_i32 (Fin (of_int longitude' * (1000000 / of_nat prec)));
        lat \<leftarrow> fp_to_i32 (Fin (of_int latitude' * (1000000 / of_nat prec)));
        rest \<leftarrow> decode_coordinates prec latitude' longitude' s2;
        Some (\<lparr>crd_lon = lon, crd_lat = lat\<rparr> # rest)
      }"
  using assms by (cases s) simp_all

lemma sint_word_of_small: "- (2 ^ 30) \<le> z \<Longrightarrow> z < 2 ^ 30 \<Longrightarrow> sint (word_of_int z :: 32 word) = z"
  unfolding sint_sbintrunc' by (intro signed_take_bit_int_eq_self) simp_all

text \<open>A component after a round trip through polyline units.\<close>

definition quant :: "nat \<Rightarrow> int \<Rightarrow> int" where
  "quant prec x = round_away (of_int x * (of_nat prec / 1000000))"

definition requant :: "nat \<Rightarrow> int \<Rightarrow> int" where
  "requant prec x = trunc (of_int (quant prec x) * (1000000 / of_nat prec))"

definition requant_coordinate :: "nat \<Rightarrow> Coordinate \<Rightarrow> Coordinate" where
  "requant_coordinate prec c = \<lparr>crd_lon = requant prec (crd_lon c), crd_lat = requant prec (crd_lat c)\<rparr>"

lemma quant_bound:
  assumes "\<bar>x\<bar> \<le> 180000000" "prec \<le> 1000000"
  shows "\<bar>quant prec x\<bar> \<le> 180000000"
proof -
  have "of_nat prec / 1000000 \<le> (1::rat)" using assms(2) by (simp add: divide_le_eq)
  then have "\<bar>of_int x * (of_nat prec / 1000000)\<bar> \<le> \<bar>of_int x :: rat\<bar>"
    unfolding abs_mult by (intro mult_left_le) simp_all
  also have "\<dots> \<le> of_int 180000000" using assms(1) by linarith
  finally show ?thesis
    using round_away_abs [of 180000000 "of_int x * (of_nat prec / 1000000)"]
    by (simp add: quant_def abs_le_iff)
qed

lemma requant_1000000: "requant 1000000 x = x"
  by (simp add: requant_def quant_def)

lemma requant_100000: "\<bar>requant 100000 x - x\<bar> \<le> 5"
proof -
  have "requant 100000 x = quant 100000 x * 10"
    using trunc_of_int [of "quant 100000 x * 10"] by (simp add: requant_def)
  moreover have "\<bar>of_int (quant 100000 x) - of_int x * (1 / 10)\<bar> \<le> (1 / 2 :: rat)"
    using round_away_close [of "of_int x * (1 / 10)"] by (simp add: quant_def)
  then have "\<bar>of_int (quant 100000 x * 10 - x)\<bar> \<le> (of_int 5 :: rat)"
    by (simp only: of_int_diff of_int_mult of_int_numeral)
  ultimately show ?thesis by (simp only: of_int_abs [symmetric] of_int_le_iff)
qed

lemma trunc_abs_le: "\<bar>a\<bar> \<le> of_int z \<Longrightarrow> \<bar>trunc a\<bar> \<le> z"
  by (auto simp: trunc_def abs_le_iff) linarith+

lemma scaled_bound:
  assumes "\<bar>x\<bar> \<le> 180000000" "100000 \<le> prec"
  shows "fp_to_i32 (Fin (of_int x * (1000000 / of_nat prec))) = Some (trunc (of_int x * (1000000 / of_nat prec)))"
proof -
  have "\<bar>of_int x * (1000000 / of_nat prec)\<bar> \<le> (of_int 1800000000 :: rat)"
  proof -
    have "(1000000 / of_nat prec :: rat) \<le> 10" using assms(2) by (simp add: divide_le_eq)
    moreover have "\<bar>of_int x :: rat\<bar> \<le> 180000000" using assms(1) by linarith
    ultimately have "\<bar>of_int x\<bar> * (1000000 / of_nat prec :: rat) \<le> 180000000 * 10"
      by (intro mult_mono) simp_all
    then show ?thesis by (simp add: abs_mult)
  qed
  from trunc_abs_le [OF this] show ?thesis by (simp add: abs_le_iff)
qed

lemma delta_numbers_step:
  assumes "\<bar>quant prec (crd_lat c)\<bar> \<le> 180000000" "\<bar>quant prec (crd_lon c)\<bar> \<le> 180000000"
    and "\<bar>clat\<bar> \<le> 180000000" "\<bar>clon\<bar> \<le> 180000000"
  shows "delta_numbers prec clat clon (c # cs) = do {
     rest \<leftarrow> delta_numbers prec (quant prec (crd_lat c)) (quant prec (crd_lon c)) cs;
     Some ((quant prec (crd_lat c) - clat) # (quant prec (crd_lon c) - clon) # rest)
   }"
proof -
  have conv: "fp_to_i32 (Fin (of_int q - of_int z)) = Some (q - z) \<and> i32_add z (q - z) = Some q"
    if "\<bar>q\<bar> \<le> 180000000" "\<bar>z\<bar> \<le> 180000000" for q z :: int
    using that trunc_of_int [of "q - z"] by (simp add: i32_add_def in_i32_def abs_le_iff)
  show ?thesis
    using conv [OF assms(1,3)] conv [OF assms(2,4)] by (simp only: delta_numbers.simps quant_def) simp
qed

lemma decode_delta:
  assumes "\<bar>q\<bar> \<le> 180000000" "\<bar>z\<bar> \<le> 180000000"
  shows "decode_polyline_integer (encode_number (zigzag (word_of_int (q - z))) @ rest) = (word_of_int (q - z), rest)"
    and "i32_add z (sint (word_of_int (q - z) :: 32 word)) = Some q"
proof -
  have s: "sint (word_of_int (q - z) :: 32 word) = q - z"
    by (rule sint_word_of_small) (use assms in \<open>simp_all add: abs_le_iff\<close>)
  show "decode_polyline_integer (encode_number (zigzag (word_of_int (q - z))) @ rest) = (word_of_int (q - z), rest)"
    by (rule decode_integer_encode; unfold s; use assms in \<open>simp add: abs_le_iff\<close>)
  show "i32_add z (sint (word_of_int (q - z) :: 32 word)) = Some q"
    using assms unfolding s by (simp add: i32_add_def in_i32_def abs_le_iff)
qed

lemma polyline_coordinates:
  assumes "list_all Coordinate_IsValid cs" "100000 \<le> prec" "prec \<le> 1000000"
    and "\<bar>clat\<bar> \<le> 180000000" "\<bar>clon\<bar> \<le> 180000000"
  shows "\<exists>ns. delta_numbers prec clat clon cs = Some ns
    \<and> decode_coordinates prec clat clon (encode_numbers (map word_of_int ns))
      = Some (map (requant_coordinate prec) cs)"
  using assms(1,4,5)
proof (induction cs arbitrary: clat clon)
  case Nil
  then show ?case by (simp add: encode_numbers_def)
next
  case (Cons c cs)
  let ?qlat = "quant prec (crd_lat c)" and ?qlon = "quant prec (crd_lon c)"
  have q: "\<bar>?qlat\<bar> \<le> 180000000" "\<bar>?qlon\<bar> \<le> 180000000"
    by (rule quant_bound [OF _ assms(3)]; use Cons.prems(1) in \<open>simp add: Coordinate_IsValid_def abs_le_iff\<close>)+
  with Cons obtain ns where ns: "delta_numbers prec ?qlat ?qlon cs = Some ns"
    "decode_coordinates prec ?qlat ?qlon (encode_numbers (map word_of_int ns)) = Some (map (requant_coordinate prec) cs)"
    by fastforce
  let ?w = "map word_of_int ((?qlat - clat) # (?qlon - clon) # ns)"
  have s: "encode_numbers ?w = encode_number (zigzag (word_of_int (?qlat - clat))) @
      encode_number (zigzag (word_of_int (?qlon - clon))) @ encode_numbers (map word_of_int ns)"
    by (simp add: encode_numbers_def)
  have ne: "encode_numbers ?w \<noteq> []" unfolding s using encode_number_not_Nil by simp
  note dlat = decode_delta [OF q(1) Cons.prems(2)] and dlon = decode_delta [OF q(2) Cons.prems(3)]
  have "decode_coordinates prec clat clon (encode_numbers ?w) = Some (map (requant_coordinate prec) (c # cs))"
    unfolding s using decode_coordinates_step [OF dlat(1) dlon(1), of "encode_numbers (map word_of_int ns)" prec clat clon]
      ne [unfolded s] ns(2) dlat(2) dlon(2) scaled_bound [OF q(1) assms(2)] scaled_bound [OF q(2) assms(2)]
    by (simp only: requant_coordinate_def requant_def Option.bind.simps list.map not_False_eq_True simp_thms)
  then show ?case using delta_numbers_step [OF q Cons.prems(2,3)] ns(1) by auto
qed

section \<open>Properties\<close>

text \<open>
  C39.  Polyline round trip.  For valid coordinates both precisions in use encode without overflow;
  decoding returns the very same coordinates at precision 6, and coordinates that differ by at
  most 5 millionths of a degree at precision 5.
\<close>

theorem polyline_roundtrip:
  assumes "list_all Coordinate_IsValid cs"
  shows "(\<exists>s. encodePolyline 1000000 cs = Some s \<and> decodePolyline 1000000 s = Some cs)
    \<and> (\<exists>s ds. encodePolyline 100000 cs = Some s \<and> decodePolyline 100000 s = Some ds
        \<and> list_all2 (\<lambda>c d. \<bar>crd_lon d - crd_lon c\<bar> \<le> 5 \<and> \<bar>crd_lat d - crd_lat c\<bar> \<le> 5) cs ds)"
proof
  have id: "map (requant_coordinate 1000000) cs = cs"
    by (rule map_idI) (simp add: requant_coordinate_def requant_1000000)
  show "\<exists>s. encodePolyline 1000000 cs = Some s \<and> decodePolyline 1000000 s = Some cs"
    using polyline_coordinates [OF assms, of 1000000 0 0]
    by (auto simp: encodePolyline_def decodePolyline_def id)
  have close: "list_all2 (\<lambda>c d. \<bar>crd_lon d - crd_lon c\<bar> \<le> 5 \<and> \<bar>crd_lat d - crd_lat c\<bar> \<le> 5) cs
      (map (requant_coordinate 100000) cs)"
    by (simp add: list_all2_conv_all_nth requant_coordinate_def requant_100000)
  show "\<exists>s ds. encodePolyline 100000 cs = Some s \<and> decodePolyline 100000 s = Some ds
      \<and> list_all2 (\<lambda>c d. \<bar>crd_lon d - crd_lon c\<bar> \<le> 5 \<and> \<bar>crd_lat d - crd_lat c\<bar> \<le> 5) cs ds"
    using polyline_coordinates [OF assms, of 100000 0 0] close
    by (auto simp: encodePolyline_def decodePolyline_def)
qed

theorem polyline_roundtrip_witness:
  "\<exists>s. encodePolyline 1000000 [\<lparr>crd_lon = 27587914, crd_lat = 47158455\<rparr>, \<lparr>crd_lon = 27588000, crd_lat = 47158000\<rparr>] = Some s
    \<and> decodePolyline 1000000 s = Some [\<lparr>crd_lon = 27587914, crd_lat = 47158455\<rparr>, \<lparr>crd_lon = 27588000, crd_lat = 47158000\<rparr>]"
  by (rule polyline_roundtrip [THEN conjunct1]) (simp add: Coordinate_IsValid_def)

end
