(* ===== verification/Std_String.thy ===== *)
theory Std_String
  imports Osrm_Prelude
begin

text \<open>
  The parts of the C++ standard library on strings that the services use: \<^verbatim>\<open>std::string::find\<close> for a
  substring, the substring up to a delimiter, and \<^verbatim>\<open>std::stod\<close>.  A string is a list of characters.
  The result of \<^verbatim>\<open>std::stod\<close> is the exact rational value (no rounding to a double).
\<close>

section \<open>Searching\<close>

fun find_sub :: "string \<Rightarrow> string \<Rightarrow> nat option" where
  "find_sub pat [] = (if pat = [] then Some 0 else None)"
| "find_sub pat (c # s) =
     (if take (length pat) (c # s) = pat then Some 0 else map_option Suc (find_sub pat s))"

text \<open>The substring that starts at a position and ends before the next delimiter, or at the end.\<close>

definition substr_until :: "char \<Rightarrow> nat \<Rightarrow> string \<Rightarrow> string" where
  "substr_until delim pos s = takeWhile (\<lambda>c. c \<noteq> delim) (drop pos s)"

section \<open>Reading a number\<close>

datatype std_exception = InvalidArgument | OutOfRange

definition isspace :: "char \<Rightarrow> bool" where
  "isspace c \<longleftrightarrow> of_char c \<in> {9, 10, 11, 12, 13, 32 :: nat}"

definition isdigit :: "char \<Rightarrow> bool" where
  "isdigit c \<longleftrightarrow> 48 \<le> (of_char c :: nat) \<and> (of_char c :: nat) \<le> 57"

definition tolower :: "char \<Rightarrow> char" where
  "tolower c = (if 65 \<le> (of_char c :: nat) \<and> (of_char c :: nat) \<le> 90 then char_of (of_char c + 32 :: nat) else c)"

definition isxdigit :: "char \<Rightarrow> bool" where
  "isxdigit c \<longleftrightarrow> isdigit c \<or> (97 \<le> (of_char (tolower c) :: nat) \<and> (of_char (tolower c) :: nat) \<le> 102)"

definition digit_val :: "char \<Rightarrow> nat" where
  "digit_val c = (if isdigit c then of_char c - 48 else of_char (tolower c) - 87)"

definition digits_val :: "nat \<Rightarrow> string \<Rightarrow> nat" where
  "digits_val b ds = foldl (\<lambda>a c. a * b + digit_val c) 0 ds"

text \<open>An optional sign in front of the rest.\<close>

fun read_sign :: "string \<Rightarrow> rat \<times> string" where
  "read_sign (c # s) = (if c = CHR ''-'' then (- 1, s) else if c = CHR ''+'' then (1, s) else (1, c # s))"
| "read_sign [] = (1, [])"

text \<open>The exponent after a marker character: a sign and at least one digit, otherwise nothing.\<close>

definition read_exponent :: "char \<Rightarrow> string \<Rightarrow> int" where
  "read_exponent marker s = (case s of [] \<Rightarrow> 0
     | c # s1 \<Rightarrow> if tolower c = marker then
         (case read_sign s1 of (sg, s2) \<Rightarrow> \<lfloor>sg\<rfloor> * int (digits_val 10 (takeWhile isdigit s2)))
       else 0)"

text \<open>Digits with an optional point, in base \<open>b\<close> with exponent base \<open>e\<close>; no digit is no number.\<close>

definition read_mantissa :: "(char \<Rightarrow> bool) \<Rightarrow> nat \<Rightarrow> nat \<Rightarrow> char \<Rightarrow> string \<Rightarrow> rat option" where
  "read_mantissa dig b e marker s =
     (let ip = takeWhile dig s; s1 = dropWhile dig s;
          fp = (case s1 of c # s2 \<Rightarrow> if c = CHR ''.'' then takeWhile dig s2 else [] | [] \<Rightarrow> []);
          s3 = (case s1 of c # s2 \<Rightarrow> if c = CHR ''.'' then dropWhile dig s2 else s1 | [] \<Rightarrow> []);
          x = read_exponent marker s3;
          m = of_nat (digits_val b (ip @ fp)) / of_nat (b ^ length fp)
      in if ip = [] \<and> fp = [] then None
         else Some (if 0 \<le> x then m * of_nat (e ^ nat x) else m / of_nat (e ^ nat (- x))))"

definition strtod_abs :: "string \<Rightarrow> fp option" where
  "strtod_abs s =
     (let l = map tolower s in
      if take 3 l = ''inf'' then Some PInf
      else if take 3 l = ''nan'' then Some NaN
      else if take 2 l = ''0x'' \<and> read_mantissa isxdigit 16 2 CHR ''p'' (drop 2 s) \<noteq> None
        then map_option Fin (read_mantissa isxdigit 16 2 CHR ''p'' (drop 2 s))
      else map_option Fin (read_mantissa isdigit 10 10 CHR ''e'' s))"

text \<open>
  Magnitudes that round to infinity, and inexact ones below the normal range, are reported as out
  of range.
\<close>

definition double_range :: "rat \<Rightarrow> bool" where
  "double_range v \<longleftrightarrow> \<bar>v\<bar> < 2 ^ 1024 - 2 ^ 970
     \<and> (v = 0 \<or> 1 / 2 ^ 1022 \<le> \<bar>v\<bar> \<or> of_int \<lfloor>v * 2 ^ 1074\<rfloor> = v * 2 ^ 1074)"

definition stod :: "string \<Rightarrow> std_exception + fp" where
  "stod s = (case read_sign (dropWhile isspace s) of (sg, r) \<Rightarrow> (case strtod_abs r of
       None \<Rightarrow> Inl InvalidArgument
     | Some (Fin v) \<Rightarrow> if double_range v then Inr (Fin (sg * v)) else Inl OutOfRange
     | Some x \<Rightarrow> Inr (fp_mul (Fin sg) x)))"

section \<open>Lemmas\<close>

lemma find_sub_Some:
  "find_sub pat s = Some i \<Longrightarrow> i + length pat \<le> length s \<and> take (length pat) (drop i s) = pat"
proof (induction s arbitrary: i)
  case Nil
  then show ?case by (auto split: if_splits)
next
  case (Cons c s)
  show ?case
  proof (cases "take (length pat) (c # s) = pat")
    case True
    then have "length pat \<le> length (c # s)" by (metis length_take min.cobounded1)
    then show ?thesis using Cons.prems True by simp
  next
    case False
    then show ?thesis using Cons by auto
  qed
qed


lemma find_sub_append: "find_sub pat (u @ pat @ v) \<noteq> None"
proof (induction u)
  case Nil
  show ?case
  proof (cases "pat @ v")
    case (Cons c s)
    then have "take (length pat) (c # s) = pat" by (metis append_eq_conv_conj)
    then show ?thesis using Cons by simp
  qed simp
next
  case (Cons c u)
  then show ?case by auto
qed

lemma find_sub_iff: "find_sub pat s \<noteq> None \<longleftrightarrow> (\<exists>u v. s = u @ pat @ v)"
proof
  assume "find_sub pat s \<noteq> None"
  then obtain i where "find_sub pat s = Some i" by blast
  from find_sub_Some [OF this] have "s = take i s @ pat @ drop (length pat) (drop i s)"
    by (metis append_take_drop_id)
  then show "\<exists>u v. s = u @ pat @ v" by blast
qed (use find_sub_append in blast)

end
