(* ===== verification/Traffic_Api.thy ===== *)
theory Traffic_Api
  imports Traffic_Aggregator Parameters Polyline Std_String
begin

text \<open>
  The live traffic service: \<^verbatim>\<open>include/engine/api/traffic_parameters.hpp\<close>,
  \<^verbatim>\<open>include/engine/api/traffic_api.hpp\<close>, \<^verbatim>\<open>src/engine/plugins/traffic.cpp\<close> and
  \<^verbatim>\<open>src/server/service/traffic_service.cpp\<close>.  The JSON response is a datatype with its fields.  The
  outer option is undefined behaviour (a coordinate that does not fit \<^verbatim>\<open>int32_t\<close>).
\<close>

section \<open>Parameters\<close>

datatype TrafficGeometries = TGPolyline6 | TGGeoJSON

record 'h TrafficParameters = "'h BaseParameters" +
  trp_south_west :: "Coordinate option"
  trp_north_east :: "Coordinate option"
  trp_geometries :: TrafficGeometries

definition TrafficParameters_default :: "'h TrafficParameters" where
  "TrafficParameters_default = BaseParameters.extend BaseParameters_default
     \<lparr>trp_south_west = None, trp_north_east = None, trp_geometries = TGPolyline6\<rparr>"

definition TrafficParameters_IsValid :: "('h, 'z) TrafficParameters_scheme \<Rightarrow> bool" where
  "TrafficParameters_IsValid p =
     (if \<not> BaseParameters_IsValid p then False
      else if trp_south_west p = None \<and> trp_north_east p = None then True
      else trp_south_west p \<noteq> None \<and> trp_north_east p \<noteq> None)"

section \<open>Response\<close>

datatype traffic_geometry = LineString "(fp \<times> fp) list" | PolylineString string

record traffic_segment =
  seg_geometry_id :: "64 word"
  seg_speed_kmh :: fp
  seg_avg_speed_kmh :: fp
  seg_sample_count :: "64 word"
  seg_weight_factor :: fp
  seg_color :: string
  seg_timestamp_ms :: "64 word"
  seg_geometry :: traffic_geometry

datatype traffic_response =
    TrafficOk "traffic_segment list"
  | TrafficError string string

definition buildCoordinates :: "BaseDataFacade \<Rightarrow> 64 word \<Rightarrow> Coordinate list" where
  "buildCoordinates F geometry_id =
     (let geometry = GetUncompressedForwardGeometry F (ucast geometry_id)
      in if geometry = [] then [] else map (GetCoordinateOfNode F) geometry)"

definition in_bbox :: "Coordinate \<Rightarrow> Coordinate \<Rightarrow> Coordinate \<Rightarrow> bool" where
  "in_bbox sw ne c \<longleftrightarrow> crd_lat c \<ge> crd_lat sw \<and> crd_lat c \<le> crd_lat ne
     \<and> crd_lon c \<ge> crd_lon sw \<and> crd_lon c \<le> crd_lon ne"

definition segmentInBBox ::
  "BaseDataFacade \<Rightarrow> 'h TrafficParameters \<Rightarrow> 64 word \<Rightarrow> TrafficEdgeData \<Rightarrow> bool option" where
  "segmentInBBox F p geometry_id data =
     (case (trp_south_west p, trp_north_east p) of
        (Some sw, Some ne) \<Rightarrow>
          (let coordinates = buildCoordinates F geometry_id in
           if coordinates \<noteq> [] then Some (list_ex (in_bbox sw ne) coordinates)
           else do {
             lon \<leftarrow> toFixed (ted_longitude data);
             lat \<leftarrow> toFixed (ted_latitude data);
             Some (in_bbox sw ne \<lparr>crd_lon = lon, crd_lat = lat\<rparr>)
           })
      | _ \<Rightarrow> Some True)"

definition make_geometry :: "TrafficGeometries \<Rightarrow> Coordinate list \<Rightarrow> traffic_geometry option" where
  "make_geometry g coordinates = (case g of
       TGGeoJSON \<Rightarrow> Some (LineString (map (\<lambda>c. (toFloating (crd_lon c), toFloating (crd_lat c))) coordinates))
     | TGPolyline6 \<Rightarrow> map_option PolylineString (encodePolyline 1000000 coordinates))"

text \<open>One iteration of the loop over the segments: \<^term>\<open>Some None\<close> is a skipped segment.\<close>

definition make_segment ::
  "BaseDataFacade \<Rightarrow> 'h TrafficParameters \<Rightarrow> 64 word \<times> TrafficEdgeData \<Rightarrow> traffic_segment option option" where
  "make_segment F p e = (case e of (geometry_id, data) \<Rightarrow>
     if ted_source data \<noteq> ''live'' then Some None
     else do {
       inside \<leftarrow> segmentInBBox F p geometry_id data;
       if \<not> inside then Some None
       else (let coordinates = buildCoordinates F geometry_id in
         if coordinates = [] then Some None
         else do {
           geometry \<leftarrow> make_geometry (trp_geometries p) coordinates;
           Some (Some \<lparr>seg_geometry_id = geometry_id, seg_speed_kmh = ted_speed_kmh data,
             seg_avg_speed_kmh = ted_speed_kmh data, seg_sample_count = ucast (ted_sample_count data),
             seg_weight_factor = ted_weight_factor data, seg_color = SpeedToColor (ted_speed_kmh data),
             seg_timestamp_ms = of_int (ted_timestamp_ms data), seg_geometry = geometry\<rparr>)
         })
     })"

fun make_segments ::
  "BaseDataFacade \<Rightarrow> 'h TrafficParameters \<Rightarrow> (64 word \<times> TrafficEdgeData) list \<Rightarrow> traffic_segment list option" where
  "make_segments F p [] = Some []"
| "make_segments F p (e # es) = do {
     s \<leftarrow> make_segment F p e;
     rest \<leftarrow> make_segments F p es;
     Some (case s of None \<Rightarrow> rest | Some seg \<Rightarrow> seg # rest)
   }"

definition MakeResponse ::
  "BaseDataFacade \<Rightarrow> 'h TrafficParameters \<Rightarrow> int \<Rightarrow> int \<Rightarrow> LiveDataStore \<Rightarrow> (traffic_response \<times> LiveDataStore) option" where
  "MakeResponse F p now1 now2 st = do {
     st' \<leftarrow> AggregatePendingTrafficSamples F (lds_stale_seconds st) now1 now2 st;
     segs \<leftarrow> make_segments F p (getAllSegments st');
     Some (TrafficOk segs, st')
   }"

section \<open>Plugin and service\<close>

definition HandleRequest :: "bool \<Rightarrow> BaseDataFacade \<Rightarrow> 'h TrafficParameters \<Rightarrow> int \<Rightarrow> int \<Rightarrow> LiveDataStore
    \<Rightarrow> (traffic_response \<times> LiveDataStore) option" where
  "HandleRequest live_data_enabled F p now1 now2 st =
     (if \<not> live_data_enabled then
        Some (TrafficError ''LiveDataDisabled''
          ''Live traffic data is not enabled. Start OSRM with --enable-live-data.'', st)
      else if \<not> TrafficParameters_IsValid p then
        Some (TrafficError ''InvalidOptions''
          ''Both south/west and north/east must be provided for bbox filtering'', st)
      else MakeResponse F p now1 now2 st)"

definition parseQueryValue :: "string \<Rightarrow> string \<Rightarrow> std_exception + fp option" where
  "parseQueryValue query key = (case find_sub (key @ ''='') query of
       None \<Rightarrow> Inr None
     | Some key_pos \<Rightarrow>
         (let val = substr_until CHR ''&'' (key_pos + length key + 1) query
          in if val = [] then Inr None
             else (case stod val of Inl e \<Rightarrow> Inl e | Inr x \<Rightarrow> Inr (Some x))))"

definition parse_geometries :: "string \<Rightarrow> TrafficGeometries" where
  "parse_geometries query = (case find_sub ''geometries='' query of
       None \<Rightarrow> TGPolyline6
     | Some pos \<Rightarrow> if substr_until CHR ''&'' (pos + 11) query = ''geojson'' then TGGeoJSON else TGPolyline6)"

definition parseTrafficParameters :: "string \<Rightarrow> (std_exception + unit TrafficParameters) option" where
  "parseTrafficParameters query =
     (case parseQueryValue query ''south'' of Inl e \<Rightarrow> Some (Inl e) | Inr south \<Rightarrow>
      case parseQueryValue query ''west'' of Inl e \<Rightarrow> Some (Inl e) | Inr west \<Rightarrow>
      case parseQueryValue query ''north'' of Inl e \<Rightarrow> Some (Inl e) | Inr north \<Rightarrow>
      case parseQueryValue query ''east'' of Inl e \<Rightarrow> Some (Inl e) | Inr east \<Rightarrow>
        (let p = TrafficParameters_default\<lparr>trp_geometries := parse_geometries query\<rparr> in
         case (south, west, north, east) of
           (Some s, Some w, Some n, Some e) \<Rightarrow> do {
             sw \<leftarrow> Coordinate_of_float \<lparr>fcrd_lon = w, fcrd_lat = s\<rparr>;
             ne \<leftarrow> Coordinate_of_float \<lparr>fcrd_lon = e, fcrd_lat = n\<rparr>;
             Some (Inr (p\<lparr>trp_south_west := Some sw, trp_north_east := Some ne\<rparr>))
           }
         | _ \<Rightarrow> Some (Inr p)))"

definition RunQuery :: "bool \<Rightarrow> BaseDataFacade \<Rightarrow> string \<Rightarrow> int \<Rightarrow> int \<Rightarrow> LiveDataStore
    \<Rightarrow> (traffic_response \<times> LiveDataStore) option" where
  "RunQuery live_data_enabled F query now1 now2 st = do {
     r \<leftarrow> parseTrafficParameters query;
     (case r of
        Inl _ \<Rightarrow> Some (TrafficError ''InvalidQuery'' ''stod'', st)
      | Inr p \<Rightarrow>
          if \<not> TrafficParameters_IsValid p then
            Some (TrafficError ''InvalidOptions''
              ''Invalid bbox. Provide south, west, north and east together.'', st)
          else HandleRequest live_data_enabled F p now1 now2 st)
   }"

section \<open>Lemmas\<close>

lemma TrafficParameters_default_valid: "BaseParameters_IsValid (TrafficParameters_default :: 'h TrafficParameters)"
  by (simp add: TrafficParameters_default_def BaseParameters_IsValid_def BaseParameters_default_def
      BaseParameters.defs)

lemma TrafficParameters_default_sel:
  "trp_south_west TrafficParameters_default = None" "trp_north_east TrafficParameters_default = None"
  "trp_geometries TrafficParameters_default = TGPolyline6"
  by (simp_all add: TrafficParameters_default_def BaseParameters.defs)

lemma IsValid_updates:
  "BaseParameters_IsValid (p\<lparr>trp_geometries := g\<rparr>) = BaseParameters_IsValid p"
  "BaseParameters_IsValid (p\<lparr>trp_south_west := a\<rparr>) = BaseParameters_IsValid p"
  "BaseParameters_IsValid (p\<lparr>trp_north_east := a\<rparr>) = BaseParameters_IsValid p"
  by (simp_all add: BaseParameters_IsValid_def)

lemma make_geometry_total:
  assumes "list_all Coordinate_IsValid cs"
  shows "\<exists>geo. make_geometry g cs = Some geo"
    and "make_geometry TGPolyline6 cs = Some (PolylineString s) \<Longrightarrow> decodePolyline 1000000 s = Some cs"
proof -
  from polyline_coordinates [OF assms, of 1000000 0 0] obtain t where
    t: "encodePolyline 1000000 cs = Some t" "decodePolyline 1000000 t = Some (map (requant_coordinate 1000000) cs)"
    by (auto simp: encodePolyline_def decodePolyline_def)
  moreover have "map (requant_coordinate 1000000) cs = cs"
    by (rule map_idI) (simp add: requant_coordinate_def requant_1000000)
  ultimately show "\<exists>geo. make_geometry g cs = Some geo"
    "make_geometry TGPolyline6 cs = Some (PolylineString s) \<Longrightarrow> decodePolyline 1000000 s = Some cs"
    by (auto simp: make_geometry_def split: TrafficGeometries.split)
qed

text \<open>The segments a response lists.\<close>

definition bbox_touches :: "BaseDataFacade \<Rightarrow> 'h TrafficParameters \<Rightarrow> 64 word \<Rightarrow> bool" where
  "bbox_touches F p g = (case (trp_south_west p, trp_north_east p) of
       (Some sw, Some ne) \<Rightarrow> \<exists>c \<in> set (buildCoordinates F g). in_bbox sw ne c
     | _ \<Rightarrow> True)"

definition listed :: "BaseDataFacade \<Rightarrow> 'h TrafficParameters \<Rightarrow> 64 word \<times> TrafficEdgeData \<Rightarrow> bool" where
  "listed F p e \<longleftrightarrow> ted_source (snd e) = ''live'' \<and> buildCoordinates F (fst e) \<noteq> []
     \<and> bbox_touches F p (fst e)"

lemma segmentInBBox_eq:
  assumes "in_range (- 90) 90 (ted_latitude d)" "in_range (- 180) 180 (ted_longitude d)"
  shows "\<exists>b. segmentInBBox F p g d = Some b \<and> (buildCoordinates F g \<noteq> [] \<longrightarrow> b = bbox_touches F p g)"
  using toFixed_in_range [of 90 "ted_latitude d"] toFixed_in_range [of 180 "ted_longitude d"] assms
  by (auto simp: segmentInBBox_def bbox_touches_def Let_def list_ex_iff split: option.split)

lemma make_segment_eq:
  assumes "list_all Coordinate_IsValid (buildCoordinates F g)"
    and "in_range (- 90) 90 (ted_latitude d)" "in_range (- 180) 180 (ted_longitude d)"
  shows "\<exists>r. make_segment F p (g, d) = Some r
    \<and> (if listed F p (g, d) then \<exists>geo. make_geometry (trp_geometries p) (buildCoordinates F g) = Some geo
          \<and> r = Some \<lparr>seg_geometry_id = g, seg_speed_kmh = ted_speed_kmh d, seg_avg_speed_kmh = ted_speed_kmh d,
               seg_sample_count = ucast (ted_sample_count d), seg_weight_factor = ted_weight_factor d,
               seg_color = SpeedToColor (ted_speed_kmh d), seg_timestamp_ms = of_int (ted_timestamp_ms d),
               seg_geometry = geo\<rparr>
       else r = None)"
proof -
  from segmentInBBox_eq [OF assms(2,3)] obtain b where b: "segmentInBBox F p g d = Some b"
    "buildCoordinates F g \<noteq> [] \<longrightarrow> b = bbox_touches F p g" by blast
  from make_geometry_total(1) [OF assms(1)] obtain geo where
    "make_geometry (trp_geometries p) (buildCoordinates F g) = Some geo" by blast
  with b show ?thesis by (auto simp: make_segment_def listed_def Let_def)
qed

section \<open>Properties\<close>



text \<open>
  The bounding box error of the service is unreachable: whatever the query, parameters that are
  parsed pass the validity test, because an incomplete bounding box is dropped silently.
\<close>

lemma parsed_parameters_valid:
  "parseTrafficParameters query = Some (Inr p) \<Longrightarrow> TrafficParameters_IsValid p"
  by (auto simp: parseTrafficParameters_def TrafficParameters_IsValid_def TrafficParameters_default_valid
      IsValid_updates Let_def bind_eq_Some_conv TrafficParameters_default_sel
      split: sum.splits option.splits)

lemma double_range_small: "1 \<le> \<bar>v\<bar> \<Longrightarrow> \<bar>v\<bar> \<le> 10000 \<Longrightarrow> double_range v"
proof -
  assume v: "1 \<le> \<bar>v\<bar>" "\<bar>v\<bar> \<le> 10000"
  have "(2::rat) ^ 1024 = 2 ^ 970 * 2 ^ 54" by (subst power_add [symmetric]) simp
  then have "(2::rat) ^ 1024 - 2 ^ 970 = 2 ^ 970 * (2 ^ 54 - 1)" by (simp only: right_diff_distrib mult_1_right)
  moreover have "(1::rat) \<le> 2 ^ 970" by (rule one_le_power) simp
  then have "(1::rat) * (2 ^ 54 - 1) \<le> 2 ^ 970 * (2 ^ 54 - 1)" by (rule mult_right_mono) simp
  ultimately have "\<bar>v\<bar> < 2 ^ 1024 - 2 ^ 970" using v by simp
  moreover have "1 / 2 ^ 1022 \<le> (1::rat)" using one_le_power [of "2::rat" 1022] by (simp only: divide_le_eq_1) simp
  ultimately show ?thesis using v unfolding double_range_def by linarith
qed

lemmas stod_eval = stod_def strtod_abs_def read_mantissa_def read_exponent_def digits_val_def digit_val_def
  isspace_def isdigit_def isxdigit_def tolower_def Let_def double_range_small

lemma stod_47: "stod ''47'' = Inr (Fin 47)" and stod_9999: "stod ''9999'' = Inr (Fin 9999)"
  and stod_27: "stod ''27'' = Inr (Fin 27)" and stod_48: "stod ''48'' = Inr (Fin 48)"
  and stod_28: "stod ''28'' = Inr (Fin 28)"
  by (simp_all add: stod_eval)

text \<open>
  The values of the bounding box are not range checked: a latitude of 9999 degrees makes the
  service convert a number to \<^verbatim>\<open>int32_t\<close> that does not fit.
\<close>

lemma bbox_out_of_range_undefined:
  "RunQuery enabled F ''south=9999&west=27&north=48&east=28'' now1 now2 st = None"
proof -
  have "toFixed (Fin 9999) = None" "toFixed (Fin 27) = Some 27000000"
    using round_away_of_int [of 9999000000] trunc_of_int [of 9999000000]
      round_away_of_int [of 27000000] trunc_of_int [of 27000000] by (simp_all add: toFixed_def)
  then have "parseTrafficParameters ''south=9999&west=27&north=48&east=28'' = None"
    by (simp add: parseTrafficParameters_def parseQueryValue_def substr_until_def Let_def
        stod_9999 stod_27 stod_28 stod_48 Coordinate_of_float_def)
  then show ?thesis by (simp add: RunQuery_def)
qed

end
