(* ===== verification/Live_Traffic_System.thy ===== *)
theory Live_Traffic_System
  imports Traffic_Updater Traffic_Api
begin

text \<open>
  The live traffic pipeline as one system: the receiver thread appends samples to the store while
  requests aggregate them.  Every operation on the store holds its mutex, so an execution is an
  interleaving of receiver steps and aggregations.  The step relation takes any such
  interleaving; the invariant says which values can reach the routing code.
\<close>

section \<open>Steps\<close>

datatype live_event =
    Receive "nat \<Rightarrow> int" recv_event
  | Aggregate int int int

inductive live_step ::
  "BaseDataFacade \<Rightarrow> TrafficUpdater \<times> LiveDataStore \<Rightarrow> live_event \<Rightarrow> TrafficUpdater \<times> LiveDataStore \<Rightarrow> bool"
  for F where
  step_receive: "tu_running u \<Longrightarrow> receive_step clock ev (u, st) = Some (u', st')
     \<Longrightarrow> live_step F (u, st) (Receive clock ev) (u', st')"
| step_aggregate: "AggregatePendingTrafficSamples F stale now1 now2 st = Some st'
     \<Longrightarrow> live_step F (u, st) (Aggregate stale now1 now2) (u, st')"

inductive_cases live_step_receiveE: "live_step F us (Receive clock ev) us'"
inductive_cases live_step_aggregateE: "live_step F us (Aggregate stale now1 now2) us'"

inductive live_steps ::
  "BaseDataFacade \<Rightarrow> TrafficUpdater \<times> LiveDataStore \<Rightarrow> live_event list \<Rightarrow> TrafficUpdater \<times> LiveDataStore \<Rightarrow> bool"
  for F where
  steps_Nil: "live_steps F us [] us"
| steps_snoc: "live_steps F us evs us' \<Longrightarrow> live_step F us' ev us'' \<Longrightarrow> live_steps F us (evs @ [ev]) us''"

section \<open>Sane input\<close>

text \<open>
  Packets without NaN whose time stamp leaves room for the age limit, and clock readings in the
  same range.
\<close>

definition sane_ms :: "int \<Rightarrow> bool" where
  "sane_ms t \<longleftrightarrow> 0 \<le> t \<and> t < 2 ^ 62"

definition sane_packet :: "TrafficPacketMsg \<Rightarrow> bool" where
  "sane_packet p \<longleftrightarrow> f32_val (tpm_speed_kmh p) \<noteq> NaN \<and> f64_val (tpm_latitude p) \<noteq> NaN
     \<and> f64_val (tpm_longitude p) \<noteq> NaN \<and> sint (tpm_timestamp_ms p) < 2 ^ 62"

fun sane_event :: "live_event \<Rightarrow> bool" where
  "sane_event (Receive clock RecvError) \<longleftrightarrow> (\<forall>i. sane_ms (clock i))"
| "sane_event (Receive clock (RecvBytes bytes)) \<longleftrightarrow>
     (\<forall>i. sane_ms (clock i)) \<and> list_all sane_packet (snd (parseTrafficBatch bytes))"
| "sane_event (Aggregate stale now1 now2) \<longleftrightarrow> 0 \<le> stale \<and> stale < 2 ^ 31 \<and> sane_ms now2"

section \<open>The invariant\<close>

definition sample_sane :: "rat \<Rightarrow> TrafficSample \<Rightarrow> bool" where
  "sample_sane m s \<longleftrightarrow> in_range m 300 (smp_speed_kmh s) \<and> in_range (- 90) 90 (smp_latitude s)
     \<and> in_range (- 180) 180 (smp_longitude s) \<and> sane_ms (smp_timestamp_ms s)"

definition entry_sane :: "TrafficEdgeData \<Rightarrow> bool" where
  "entry_sane d \<longleftrightarrow> in_range (1 / 6) 10 (ted_weight_factor d) \<and> in_range (- 90) 90 (ted_latitude d)
     \<and> in_range (- 180) 180 (ted_longitude d)"

definition live_inv :: "rat \<Rightarrow> TrafficUpdater \<times> LiveDataStore \<Rightarrow> bool" where
  "live_inv m us \<longleftrightarrow> (case us of (u, st) \<Rightarrow> tu_min_speed_kmh u = Fin m \<and> lds_wf st
     \<and> list_all (sample_sane m) (lds_pending_samples st)
     \<and> (\<forall>g d. lds_get st g = Some d \<longrightarrow> entry_sane d))"

lemma sane_valid_ms: "sane_ms t \<Longrightarrow> valid_ms t"
  by (simp add: sane_ms_def valid_ms_def in_i64_def)

lemma sane_sample_of:
  "accepts m stale now p \<Longrightarrow> sane_packet p \<Longrightarrow> sane_ms now \<Longrightarrow> sample_sane m (sample_of now p)"
  by (auto simp: accepts_def sample_sane_def sane_packet_def sample_of_def sane_ms_def)

lemma stored_samples_sane:
  "\<forall>i. sane_ms (clock i) \<Longrightarrow> list_all sane_packet ps
    \<Longrightarrow> list_all (sample_sane m) (stored_samples m stale clock i ps)"
  by (induction ps arbitrary: i) (auto simp: sane_sample_of)

lemma sample_sane_ok:
  assumes "sample_sane m s" "0 \<le> stale" "stale < 2 ^ 31"
  shows "sample_ok stale s"
  using assms by (auto simp: sample_sane_def sample_ok_def sane_ms_def in_i64_def)

lemma aggregate_entry_sane:
  assumes "us \<noteq> []" "\<forall>x \<in> set us. sample_sane m (snd x)" "0 < m"
  shows "entry_sane (aggregate_segment us)"
proof -
  have "in_range m 300 (ted_speed_kmh (aggregate_segment us))"
    using mean_in_range [OF assms(1), of m 300 smp_speed_kmh] assms(2)
    by (auto simp: aggregate_segment_def sample_sane_def Let_def)
  then obtain v where v: "ted_speed_kmh (aggregate_segment us) = Fin v" "m \<le> v" "v \<le> 300"
    by (auto simp: in_range_def)
  have "ted_weight_factor (aggregate_segment us) = ComputeTrafficWeightFactor (ted_speed_kmh (aggregate_segment us))"
    by (simp add: aggregate_segment_def Let_def)
  then have "in_range (1 / 6) 10 (ted_weight_factor (aggregate_segment us))"
    using weight_factor_bounds [of v] v assms(3) by (auto simp: in_range_def)
  moreover have "in_range (- 90) 90 (ted_latitude (aggregate_segment us))"
    "in_range (- 180) 180 (ted_longitude (aggregate_segment us))"
    using mean_in_range [OF assms(1), of "- 90" 90 smp_latitude]
      mean_in_range [OF assms(1), of "- 180" 180 smp_longitude] assms(2)
    by (auto simp: aggregate_segment_def sample_sane_def Let_def)
  ultimately show ?thesis by (simp add: entry_sane_def)
qed

section \<open>Each step keeps the invariant and is defined\<close>

lemma receive_inv:
  assumes inv: "live_inv m (u, st)" and ev: "sane_event (Receive clock ev)"
  shows "\<exists>u' st'. receive_step clock ev (u, st) = Some (u', st') \<and> live_inv m (u', st')
    \<and> tu_running u' = tu_running u"
proof (cases ev)
  case RecvError
  then show ?thesis using inv by (simp add: receive_step_def)
next
  case (RecvBytes bytes)
  have m: "tu_min_speed_kmh u = Fin m" using inv by (simp add: live_inv_def)
  have clock: "\<forall>i. sane_ms (clock i)" using ev RecvBytes by simp
  then have valid: "\<And>i. valid_ms (clock i)" using sane_valid_ms by blast
  obtain parsed ps where p: "parseTrafficBatch bytes = (parsed, ps)" by (cases "parseTrafficBatch bytes")
  have ps: "list_all (sample_sane m) (stored_samples m (tu_stale_seconds u) clock 0 ps)"
    using ev RecvBytes p by (intro stored_samples_sane clock) simp
  have keep: "live_inv m (u', st\<lparr>lds_pending_samples := lds_pending_samples st @ new\<rparr>)"
    if "tu_min_speed_kmh u' = Fin m" "list_all (sample_sane m) new" for u' new
    using inv that by (simp add: live_inv_def lds_wf_def lds_get_def)
  show ?thesis
    using RecvBytes p process_packets_eq [OF m valid] keep ps keep [of _ "[]"] m
    by (cases "bytes = []") (auto simp: receive_step_def)
qed

lemma aggregate_inv:
  assumes inv: "live_inv m (u, st)" and ev: "sane_event (Aggregate stale now1 now2)" and "0 < m"
  shows "\<exists>st'. AggregatePendingTrafficSamples F stale now1 now2 st = Some st' \<and> live_inv m (u, st')
    \<and> lds_pending_samples st' = []"
proof (cases "lds_pending_samples st = []")
  case True
  then show ?thesis
    using inv by (simp add: AggregatePendingTrafficSamples_def takePendingSamples_def live_inv_def
        lds_wf_def lds_get_def)
next
  case False
  let ?ss = "lds_pending_samples st"
  have wf: "lds_wf st" and sane: "list_all (sample_sane m) ?ss"
    and old: "\<And>g d. lds_get st g = Some d \<Longrightarrow> entry_sane d"
    using inv by (simp_all add: live_inv_def)
  have ok: "list_all (sample_ok stale) ?ss"
    using sane by (rule list.pred_mono_strong) (use ev sample_sane_ok in auto)
  have now2: "valid_ms now2" using ev sane_valid_ms by simp
  from Aggregate_result [OF wf now2 refl False ok, of F now1] obtain st' where
    st': "AggregatePendingTrafficSamples F stale now1 now2 st = Some st'" "lds_wf st'" "lds_pending_samples st' = []"
    and get: "\<And>g. \<exists>entry. lds_get st' g = (case entry of None \<Rightarrow> None
          | Some d \<Rightarrow> if now2 - ted_timestamp_ms d \<le> stale * 1000 then Some d else None)
        \<and> (if \<exists>u. \<exists>s \<in> set ?ss. relevant F stale now1 g u s
           then \<exists>us. is_group F stale now1 ?ss g us \<and> entry = Some (aggregate_segment us)
           else entry = lds_get st g)" by blast
  have "entry_sane (aggregate_segment us)" if "is_group F stale now1 ?ss g us" for g us
    using that sane assms(3)
    by (intro aggregate_entry_sane) (auto simp: is_group_def latest_sample_def list_all_iff)
  then have "entry_sane d" if "lds_get st' g = Some d" for g d
    using get [of g] that old by (auto split: option.splits if_splits)
  then show ?thesis using st' inv by (auto simp: live_inv_def)
qed

section \<open>Properties\<close>





end
