(* ===== verification/Match_Tidy.thy ===== *)
theory Match_Tidy
  imports Parameters
begin

text \<open>
  \<^verbatim>\<open>include/engine/api/match_parameters_tidy.hpp\<close>: thinning out the trace of a match request.  The
  great circle distance is a parameter of the model.  An access outside a vector or a bit set, and
  \<^verbatim>\<open>back()\<close> of an empty vector, are \<^term>\<open>None\<close>.
\<close>

section \<open>Data\<close>

record Thresholds =
  th_distance_in_meters :: fp
  th_duration_in_seconds :: "32 word"

record 'h TidyResult =
  tr_parameters :: "'h MatchParameters"
  tr_can_be_removed :: "bool list"
  tr_tidied_to_original :: "nat list"
  tr_was_waypoint :: "bool list"

section \<open>Waypoint mask\<close>

fun clear_bits :: "nat list \<Rightarrow> bool list \<Rightarrow> bool list option" where
  "clear_bits [] m = Some m"
| "clear_bits (p # ps) m = (if p < length m then clear_bits ps (m[p := False]) else None)"

definition waypoint_mask :: "nat list \<Rightarrow> nat \<Rightarrow> bool list option" where
  "waypoint_mask waypoints n =
     (if waypoints \<noteq> [] then map_option (map Not) (clear_bits waypoints (replicate n True))
      else Some (replicate n True))"

section \<open>Copying the parallel arrays\<close>

definition push_from :: "'a list \<Rightarrow> nat \<Rightarrow> 'a list \<Rightarrow> 'a list option" where
  "push_from src i dst =
     (if src = [] then Some dst else if i < length src then Some (dst @ [src ! i]) else None)"

definition push_item ::
  "'h MatchParameters \<Rightarrow> bool list \<Rightarrow> nat \<Rightarrow> 'h MatchParameters \<Rightarrow> 'h MatchParameters option" where
  "push_item params was_waypoint i q = do {
     hints \<leftarrow> push_from (bp_hints params) i (bp_hints q);
     radiuses \<leftarrow> push_from (bp_radiuses params) i (bp_radiuses q);
     bearings \<leftarrow> push_from (bp_bearings params) i (bp_bearings q);
     timestamps \<leftarrow> push_from (mp_timestamps params) i (mp_timestamps q);
     let coordinates = bp_coordinates q @ [bp_coordinates params ! i] in
     Some (q\<lparr>bp_coordinates := coordinates,
             rp_waypoints := (if was_waypoint ! i then rp_waypoints q @ [length coordinates - 1]
                              else rp_waypoints q),
             bp_hints := hints, bp_radiuses := radiuses, bp_bearings := bearings,
             mp_timestamps := timestamps\<rparr>)
   }"

fun keep_loop ::
  "'h MatchParameters \<Rightarrow> bool list \<Rightarrow> nat list \<Rightarrow> 'h MatchParameters \<Rightarrow> 'h MatchParameters option" where
  "keep_loop params was_waypoint [] q = Some q"
| "keep_loop params was_waypoint (i # is) q =
     do { q' \<leftarrow> push_item params was_waypoint i q; keep_loop params was_waypoint is q' }"

definition keep_all :: "'h MatchParameters \<Rightarrow> 'h TidyResult option" where
  "keep_all params = do {
     let n = length (bp_coordinates params);
     was_waypoint \<leftarrow> waypoint_mask (rp_waypoints params) n;
     q \<leftarrow> keep_loop params was_waypoint [0..<n] MatchParameters_default;
     Some \<lparr>tr_parameters = (if rp_waypoints params = [] then q\<lparr>rp_waypoints := []\<rparr> else q),
           tr_can_be_removed = replicate n False,
           tr_tidied_to_original = [0..<n],
           tr_was_waypoint = was_waypoint\<rparr>
   }"

section \<open>Tidying\<close>

text \<open>The first loop: which coordinates can be removed.\<close>

record WalkState =
  ws_can_be_removed :: "bool list"
  ws_tidied_to_original :: "nat list"
  ws_distance :: fp
  ws_duration :: "32 word"

definition walk_step :: "(Coordinate \<Rightarrow> Coordinate \<Rightarrow> fp) \<Rightarrow> Thresholds \<Rightarrow> 'h MatchParameters
    \<Rightarrow> nat \<Rightarrow> WalkState \<Rightarrow> WalkState option" where
  "walk_step gcdist cfg params current ws = do {
     let next = current + 1;
     let distance = fp_add (ws_distance ws)
                      (gcdist (bp_coordinates params ! current) (bp_coordinates params ! next));
     let over_distance = fp_le (th_distance_in_meters cfg) distance;
     let uses_timestamps = mp_timestamps params \<noteq> [];
     _ \<leftarrow> (if uses_timestamps \<and> \<not> next < length (mp_timestamps params) then None else Some ());
     let duration = (if uses_timestamps
                     then ws_duration ws + (mp_timestamps params ! next - mp_timestamps params ! current)
                     else ws_duration ws);
     let over_duration = (uses_timestamps \<longrightarrow> th_duration_in_seconds cfg \<le>s duration);
     Some (if over_distance \<and> over_duration
           then ws\<lparr>ws_tidied_to_original := ws_tidied_to_original ws @ [next],
                   ws_distance := Fin 0, ws_duration := 0\<rparr>
           else ws\<lparr>ws_can_be_removed := (ws_can_be_removed ws)[next := True],
                   ws_distance := distance, ws_duration := duration\<rparr>)
   }"

fun walk_loop :: "(Coordinate \<Rightarrow> Coordinate \<Rightarrow> fp) \<Rightarrow> Thresholds \<Rightarrow> 'h MatchParameters
    \<Rightarrow> nat list \<Rightarrow> WalkState \<Rightarrow> WalkState option" where
  "walk_loop gcdist cfg params [] ws = Some ws"
| "walk_loop gcdist cfg params (c # cs) ws =
     do { ws' \<leftarrow> walk_step gcdist cfg params c ws; walk_loop gcdist cfg params cs ws' }"

text \<open>The second loop: a removed waypoint moves to the last coordinate that is kept before it.\<close>

definition tidy_item :: "'h MatchParameters \<Rightarrow> bool list \<Rightarrow> bool list \<Rightarrow> nat
    \<Rightarrow> 'h MatchParameters \<Rightarrow> 'h MatchParameters option" where
  "tidy_item params was_waypoint can_be_removed i q =
     (if \<not> can_be_removed ! i then push_item params was_waypoint i q
      else (let last_idx = length (bp_coordinates q) - 1 in
        if was_waypoint ! i then
          (if rp_waypoints q = [] then None
           else if last (rp_waypoints q) \<noteq> last_idx
                then Some (q\<lparr>rp_waypoints := rp_waypoints q @ [last_idx]\<rparr>)
                else Some q)
        else Some q))"

fun tidy_loop :: "'h MatchParameters \<Rightarrow> bool list \<Rightarrow> bool list \<Rightarrow> nat list
    \<Rightarrow> 'h MatchParameters \<Rightarrow> 'h MatchParameters option" where
  "tidy_loop params was_waypoint can_be_removed [] q = Some q"
| "tidy_loop params was_waypoint can_be_removed (i # is) q = do {
     q' \<leftarrow> tidy_item params was_waypoint can_be_removed i q;
     tidy_loop params was_waypoint can_be_removed is q'
   }"

definition tidy ::
  "(Coordinate \<Rightarrow> Coordinate \<Rightarrow> fp) \<Rightarrow> Thresholds \<Rightarrow> 'h MatchParameters \<Rightarrow> 'h TidyResult option" where
  "tidy gcdist cfg params = (if bp_coordinates params = [] then None else do {
     let n = length (bp_coordinates params);
     was_waypoint \<leftarrow> waypoint_mask (rp_waypoints params) n;
     ws \<leftarrow> walk_loop gcdist cfg params [0..<n - 2]
             \<lparr>ws_can_be_removed = replicate n False, ws_tidied_to_original = [0],
              ws_distance = Fin 0, ws_duration = 0\<rparr>;
     let tidied = (if n > 1 then ws_tidied_to_original ws @ [n - 1] else ws_tidied_to_original ws);
     q \<leftarrow> tidy_loop params was_waypoint (ws_can_be_removed ws) [0..<n] MatchParameters_default;
     Some \<lparr>tr_parameters = q, tr_can_be_removed = ws_can_be_removed ws,
           tr_tidied_to_original = tidied, tr_was_waypoint = was_waypoint\<rparr>
   })"

section \<open>Waypoint mask: lemmas\<close>

lemma clear_bits_eq:
  "\<forall>p \<in> set ps. p < length m \<Longrightarrow>
    clear_bits ps m = Some (map (\<lambda>i. m ! i \<and> i \<notin> set ps) [0..<length m])"
proof (induction ps arbitrary: m)
  case Nil
  then show ?case by (simp add: map_nth)
next
  case (Cons p ps)
  then show ?case by (auto intro!: nth_equalityI simp: nth_list_update)
qed

text \<open>The mask says which indices are waypoints; by default all are.\<close>

definition is_waypoint :: "nat list \<Rightarrow> nat \<Rightarrow> bool" where
  "is_waypoint waypoints i \<longleftrightarrow> waypoints = [] \<or> i \<in> set waypoints"

lemma waypoint_mask_eq:
  assumes "\<forall>w \<in> set waypoints. w < n"
  shows "waypoint_mask waypoints n = Some (map (is_waypoint waypoints) [0..<n])"
proof (cases "waypoints = []")
  case True
  then show ?thesis by (auto simp: waypoint_mask_def is_waypoint_def intro: nth_equalityI)
next
  case False
  have "clear_bits waypoints (replicate n True) = Some (map (\<lambda>i. i \<notin> set waypoints) [0..<n])"
    using clear_bits_eq [of waypoints "replicate n True"] assms by (simp cong: map_cong)
  then show ?thesis using False by (simp add: waypoint_mask_def is_waypoint_def)
qed

section \<open>Copying: lemmas\<close>

text \<open>The parallel arrays of a request that passed the validity test, restricted to some indices.\<close>

definition pick :: "nat list \<Rightarrow> 'a list \<Rightarrow> 'a list" where
  "pick is xs = (if xs = [] then [] else map ((!) xs) is)"

definition restricted :: "'h MatchParameters \<Rightarrow> nat list \<Rightarrow> nat list \<Rightarrow> 'h MatchParameters" where
  "restricted params is waypoints = MatchParameters_default
     \<lparr>bp_coordinates := map ((!) (bp_coordinates params)) is, bp_hints := pick is (bp_hints params),
      bp_radiuses := pick is (bp_radiuses params), bp_bearings := pick is (bp_bearings params),
      mp_timestamps := pick is (mp_timestamps params), rp_waypoints := waypoints\<rparr>"

lemma push_from_pick:
  "src = [] \<or> length src = n \<Longrightarrow> i < n \<Longrightarrow> push_from src i (pick is src) = Some (pick (is @ [i]) src)"
  by (auto simp: push_from_def pick_def)

lemma push_item_restricted:
  assumes "MatchParameters_IsValid params" "i < length (bp_coordinates params)"
  shows "push_item params wp i (restricted params is ws)
    = Some (restricted params (is @ [i]) (if wp ! i then ws @ [length is] else ws))"
  using assms
  by (simp add: push_item_def restricted_def MatchParameters_IsValid_def RouteParameters_IsValid_def
      BaseParameters_IsValid_def Let_def push_from_pick [where n = "length (bp_coordinates params)"]
      MatchParameters_default_def)

lemma restricted_Nil: "restricted params [] [] = MatchParameters_default"
  by (simp add: restricted_def pick_def MatchParameters_default_def RouteParameters_bool_def
      BaseParameters_default_def RouteParameters.defs BaseParameters.defs)

section \<open>The first loop\<close>

lemma walk_loop_append:
  "walk_loop d cfg params (xs @ ys) ws
    = do { ws' \<leftarrow> walk_loop d cfg params xs ws; walk_loop d cfg params ys ws' }"
  by (induction xs arbitrary: ws) (auto split: Option.bind_split)

definition walk_init :: "nat \<Rightarrow> WalkState" where
  "walk_init n = \<lparr>ws_can_be_removed = replicate n False, ws_tidied_to_original = [0],
     ws_distance = Fin 0, ws_duration = 0\<rparr>"

text \<open>After looking at the coordinates up to \<open>k\<close>: the first one and those after \<open>k\<close> are unmarked, and the
  collected indices are the unmarked ones.\<close>

definition walk_inv :: "nat \<Rightarrow> nat \<Rightarrow> WalkState \<Rightarrow> bool" where
  "walk_inv n k ws \<longleftrightarrow> length (ws_can_be_removed ws) = n \<and> \<not> ws_can_be_removed ws ! 0
     \<and> (\<forall>j. k < j \<and> j < n \<longrightarrow> \<not> ws_can_be_removed ws ! j)
     \<and> ws_tidied_to_original ws = filter (\<lambda>i. \<not> ws_can_be_removed ws ! i) [0..<Suc k]"

lemma walk_step_inv:
  assumes inv: "walk_inv n k ws" and n: "length (bp_coordinates params) = n" "k + 1 < n"
    and ts: "mp_timestamps params = [] \<or> length (mp_timestamps params) = n"
  shows "\<exists>ws'. walk_step d cfg params k ws = Some ws' \<and> walk_inv n (Suc k) ws'"
proof -
  from ts n have guard: "\<not> (mp_timestamps params \<noteq> [] \<and> \<not> k + 1 < length (mp_timestamps params))" by auto
  have upt: "[0..<Suc (Suc k)] = [0..<Suc k] @ [Suc k]" by simp
  have keep: "walk_inv n (Suc k) (ws\<lparr>ws_tidied_to_original := ws_tidied_to_original ws @ [k + 1],
      ws_distance := a, ws_duration := b\<rparr>)" for a b
    using inv n unfolding walk_inv_def upt filter_append by simp
  have drop: "walk_inv n (Suc k) (ws\<lparr>ws_can_be_removed := (ws_can_be_removed ws)[k + 1 := True],
      ws_distance := a, ws_duration := b\<rparr>)" for a b
    using inv n unfolding walk_inv_def upt filter_append by (auto intro: filter_cong)
  show ?thesis
    unfolding walk_step_def Let_def using guard keep drop by auto
qed

lemma walk_loop_inv:
  assumes "length (bp_coordinates params) = n" "k + 1 \<le> n"
    and "mp_timestamps params = [] \<or> length (mp_timestamps params) = n"
  shows "\<exists>ws. walk_loop d cfg params [0..<k] (walk_init n) = Some ws \<and> walk_inv n k ws"
  using assms(2)
proof (induction k)
  case 0
  then show ?case by (simp add: walk_inv_def walk_init_def)
next
  case (Suc k)
  then obtain ws where ws: "walk_loop d cfg params [0..<k] (walk_init n) = Some ws" "walk_inv n k ws" by auto
  have "k + 1 < n" using Suc.prems by simp
  from walk_step_inv [OF ws(2) assms(1) this assms(3)] obtain ws' where
    "walk_step d cfg params k ws = Some ws'" "walk_inv n (Suc k) ws'" by blast
  with ws(1) show ?case by (simp add: walk_loop_append)
qed

section \<open>The second loop\<close>

lemma tidy_loop_append:
  "tidy_loop params wp cr (xs @ ys) q
    = do { q' \<leftarrow> tidy_loop params wp cr xs q; tidy_loop params wp cr ys q' }"
  by (induction xs arbitrary: q) (auto split: Option.bind_split)

text \<open>The indices kept below \<open>k\<close>, and the position in the result that represents an index.\<close>

definition kept :: "bool list \<Rightarrow> nat \<Rightarrow> nat list" where
  "kept cr k = filter (\<lambda>i. \<not> cr ! i) [0..<k]"

definition rep_pos :: "bool list \<Rightarrow> nat \<Rightarrow> nat" where
  "rep_pos cr i = length (kept cr (Suc i)) - 1"

definition waypoints_ok :: "bool list \<Rightarrow> bool list \<Rightarrow> nat \<Rightarrow> nat list \<Rightarrow> bool" where
  "waypoints_ok wp cr k ws \<longleftrightarrow> sorted_wrt (<) ws \<and> set ws = rep_pos cr ` {i. i < k \<and> wp ! i}
     \<and> (\<forall>w \<in> set ws. w < length (kept cr k))"

lemma kept_Suc: "kept cr (Suc k) = kept cr k @ (if cr ! k then [] else [k])"
  by (simp add: kept_def)

lemma less_Suc_set: "{i. i < Suc k \<and> P i} = (if P k then insert k {i. i < k \<and> P i} else {i. i < k \<and> P i})"
  unfolding less_Suc_eq by (cases "P k") (simp_all, blast+)

lemma waypoints_ok_keep:
  assumes "waypoints_ok wp cr k ws" "\<not> cr ! k"
  shows "waypoints_ok wp cr (Suc k) (if wp ! k then ws @ [length (kept cr k)] else ws)"
proof -
  have pos: "rep_pos cr k = length (kept cr k)" using assms(2) by (simp add: rep_pos_def kept_Suc)
  have lt: "\<forall>w \<in> set ws. w < length (kept cr k)" using assms(1) by (simp add: waypoints_ok_def)
  then have "\<forall>w \<in> set ws. w < Suc (length (kept cr k))" by (simp add: less_SucI)
  then show ?thesis using assms lt pos unfolding waypoints_ok_def less_Suc_set
    by (simp add: kept_Suc sorted_wrt_append)
qed

lemma waypoints_ok_drop:
  assumes ok: "waypoints_ok wp cr k ws" and "cr ! k" "wp ! k" and ne: "ws \<noteq> []"
  shows "waypoints_ok wp cr (Suc k)
    (if last ws \<noteq> length (kept cr k) - 1 then ws @ [length (kept cr k) - 1] else ws)"
proof -
  have kept: "kept cr (Suc k) = kept cr k" "rep_pos cr k = length (kept cr k) - 1"
    using assms(2) by (simp_all add: rep_pos_def kept_Suc)
  have lt: "\<forall>w \<in> set ws. w < length (kept cr k)" using ok by (simp add: waypoints_ok_def)
  have "w \<le> last ws" if "w \<in> set ws" for w
  proof -
    have "sorted_wrt (<) (butlast ws @ [last ws])" using ok ne by (simp add: waypoints_ok_def)
    moreover have "w \<in> set (butlast ws @ [last ws])" using that ne by simp
    ultimately show ?thesis by (auto simp: sorted_wrt_append)
  qed
  then have new: "\<forall>w \<in> set ws. w < length (kept cr k) - 1" if "last ws \<noteq> length (kept cr k) - 1"
    using that lt ne last_in_set [OF ne] by fastforce
  show ?thesis
  proof (cases "last ws = length (kept cr k) - 1")
    case True
    then have "length (kept cr k) - 1 \<in> set ws" using last_in_set [OF ne] by simp
    then show ?thesis using ok assms(3) True kept unfolding waypoints_ok_def less_Suc_set by auto
  next
    case False
    have "0 < length (kept cr k)" using lt ne by (cases ws) auto
    then show ?thesis using ok assms(3) False new kept lt unfolding waypoints_ok_def less_Suc_set
      by (simp add: sorted_wrt_append)
  qed
qed

lemma waypoints_ok_skip:
  assumes "waypoints_ok wp cr k ws" "cr ! k" "\<not> wp ! k"
  shows "waypoints_ok wp cr (Suc k) ws"
  using assms unfolding waypoints_ok_def less_Suc_set by (simp add: kept_Suc)

lemma tidy_item_inv:
  assumes valid: "MatchParameters_IsValid params" and k: "k < length (bp_coordinates params)"
    and ok: "waypoints_ok wp cr k ws" and first: "wp ! 0" "\<not> cr ! 0"
  shows "\<exists>ws'. tidy_item params wp cr k (restricted params (kept cr k) ws)
      = Some (restricted params (kept cr (Suc k)) ws') \<and> waypoints_ok wp cr (Suc k) ws'"
proof (cases "cr ! k")
  case False
  then show ?thesis
    using push_item_restricted [OF valid k, of wp "kept cr k" ws] waypoints_ok_keep [OF ok False]
    by (auto simp: tidy_item_def kept_Suc)
next
  case True
  then have "k \<noteq> 0" using first(2) by (cases k) auto
  then have "rep_pos cr 0 \<in> set ws" using ok first(1) by (auto simp: waypoints_ok_def)
  then have ne: "ws \<noteq> []" by auto
  have r: "rp_waypoints (restricted params (kept cr k) ws) = ws"
    "length (bp_coordinates (restricted params (kept cr k) ws)) = length (kept cr k)"
    "restricted params (kept cr k) ws\<lparr>rp_waypoints := ws'\<rparr> = restricted params (kept cr k) ws'" for ws'
    by (simp_all add: restricted_def)
  show ?thesis
  proof (cases "wp ! k")
    case wp: True
    let ?ws = "if last ws \<noteq> length (kept cr k) - 1 then ws @ [length (kept cr k) - 1] else ws"
    have "tidy_item params wp cr k (restricted params (kept cr k) ws) = Some (restricted params (kept cr (Suc k)) ?ws)"
      using True wp ne by (simp add: tidy_item_def r Let_def kept_Suc)
    then show ?thesis using waypoints_ok_drop [OF ok True wp ne] by blast
  next
    case False
    then have "tidy_item params wp cr k (restricted params (kept cr k) ws) = Some (restricted params (kept cr (Suc k)) ws)"
      using True by (simp add: tidy_item_def Let_def kept_Suc)
    then show ?thesis using waypoints_ok_skip [OF ok True False] by blast
  qed
qed

lemma tidy_loop_inv:
  assumes "MatchParameters_IsValid params" "k \<le> length (bp_coordinates params)" "wp ! 0" "\<not> cr ! 0"
  shows "\<exists>ws. tidy_loop params wp cr [0..<k] MatchParameters_default
      = Some (restricted params (kept cr k) ws) \<and> waypoints_ok wp cr k ws"
  using assms(2)
proof (induction k)
  case 0
  have "waypoints_ok wp cr 0 []" by (simp add: waypoints_ok_def)
  moreover have "tidy_loop params wp cr [0..<0] MatchParameters_default
      = Some (restricted params (kept cr 0) [])" by (simp add: restricted_Nil kept_def)
  ultimately show ?case by blast
next
  case (Suc k)
  then obtain ws where ws: "tidy_loop params wp cr [0..<k] MatchParameters_default
      = Some (restricted params (kept cr k) ws)" "waypoints_ok wp cr k ws" by auto
  have "k < length (bp_coordinates params)" using Suc.prems by simp
  from tidy_item_inv [OF assms(1) this ws(2) assms(3,4)] ws(1) show ?case
    by (auto simp: tidy_loop_append)
qed

lemma kept_sorted: "sorted_wrt (<) (kept cr k)"
  unfolding kept_def by (rule sorted_wrt_filter) simp

lemma kept_filter:
  assumes "i < n"
  shows "filter (\<lambda>j. j \<le> i) (kept cr n) = kept cr (Suc i)"
proof -
  have "[0..<n] = [0..<Suc i] @ [Suc i..<n]"
    using upt_add_eq_append [of 0 "Suc i" "n - Suc i"] assms by (simp del: upt_Suc)
  moreover have "filter (\<lambda>j. j \<le> i) [0..<Suc i] = [0..<Suc i]" by (rule filter_True) auto
  moreover have "filter (\<lambda>j. j \<le> i) [Suc i..<n] = []" by (rule filter_False) auto
  ultimately have "filter (\<lambda>j. j \<le> i) [0..<n] = [0..<Suc i]" by (simp only: filter_append append_Nil2)
  moreover have "filter (\<lambda>j. j \<le> i) (kept cr n) = filter (\<lambda>j. \<not> cr ! j) (filter (\<lambda>j. j \<le> i) [0..<n])"
    unfolding kept_def filter_filter by (rule filter_cong) auto
  ultimately show ?thesis by (simp only: kept_def)
qed

lemma kept_ends:
  assumes "2 \<le> n" "\<not> cr ! 0" "\<not> cr ! (n - 1)"
  shows "hd (kept cr n) = 0" "last (kept cr n) = n - 1" "kept cr n \<noteq> []"
proof -
  have "[0..<n] = 0 # [1..<n]" using assms(1) by (simp add: upt_conv_Cons)
  then show "hd (kept cr n) = 0" "kept cr n \<noteq> []" using assms(2) by (simp_all add: kept_def)
  have "kept cr (Suc (n - 1)) = kept cr (n - 1) @ [n - 1]" using assms(3) by (simp only: kept_Suc if_False)
  then show "last (kept cr n) = n - 1" using assms(1) by simp
qed

lemma restricted_sel:
  "bp_coordinates (restricted params is ws) = map ((!) (bp_coordinates params)) is"
  "bp_hints (restricted params is ws) = pick is (bp_hints params)"
  "bp_radiuses (restricted params is ws) = pick is (bp_radiuses params)"
  "bp_bearings (restricted params is ws) = pick is (bp_bearings params)"
  "bp_approaches (restricted params is ws) = []"
  "mp_timestamps (restricted params is ws) = pick is (mp_timestamps params)"
  "rp_waypoints (restricted params is ws) = ws"
  by (simp_all add: restricted_def MatchParameters_default_def RouteParameters_bool_def
      BaseParameters_default_def RouteParameters.defs BaseParameters.defs)

lemma pick_ok: "pick is xs = [] \<or> length (pick is xs) = length is"
  by (simp add: pick_def)

lemma pick_all: "list_all P xs \<Longrightarrow> xs = [] \<or> length xs = n \<Longrightarrow> \<forall>i \<in> set is. i < n \<Longrightarrow> list_all P (pick is xs)"
  by (auto simp: pick_def list_all_length list_all_iff)

lemma restricted_valid:
  assumes valid: "MatchParameters_IsValid params" and lt: "\<forall>i \<in> set is. i < length (bp_coordinates params)"
    and "2 \<le> length is" "\<forall>w \<in> set ws. w < length is"
  shows "MatchParameters_IsValid (restricted params is ws)"
proof -
  note defs = MatchParameters_IsValid_def RouteParameters_IsValid_def BaseParameters_IsValid_def Let_def
  have "list_all (\<lambda>b. case b of None \<Rightarrow> True | Some bearing_and_range \<Rightarrow> Bearing_IsValid bearing_and_range)
      (pick is (bp_bearings params))"
    by (rule pick_all [OF _ _ lt]; use valid in \<open>unfold defs, blast\<close>)
  then show ?thesis using assms(3,4) unfolding defs restricted_sel
    by (simp add: list_all_iff pick_ok)
qed

section \<open>Keeping everything\<close>

lemma keep_loop_append:
  "keep_loop params wp (xs @ ys) q = do { q' \<leftarrow> keep_loop params wp xs q; keep_loop params wp ys q' }"
  by (induction xs arbitrary: q) (auto split: Option.bind_split)

lemma keep_loop_upt:
  assumes "MatchParameters_IsValid params" "k \<le> length (bp_coordinates params)"
  shows "keep_loop params wp [0..<k] MatchParameters_default
    = Some (restricted params [0..<k] (filter (\<lambda>i. wp ! i) [0..<k]))"
  using assms(2)
proof (induction k)
  case 0
  then show ?case by (simp add: restricted_Nil)
next
  case (Suc k)
  then have "k < length (bp_coordinates params)" by simp
  from push_item_restricted [OF assms(1) this, of wp "[0..<k]"] Suc show ?case
    by (simp add: keep_loop_append)
qed

section \<open>Properties\<close>


definition demo_match :: "nat list \<Rightarrow> unit MatchParameters" where
  "demo_match waypoints = MatchParameters_default
     \<lparr>bp_coordinates := replicate 4 \<lparr>crd_lon = 27000000, crd_lat = 47000000\<rparr>,
      bp_approaches := replicate 4 (Some CURB), rp_waypoints := waypoints\<rparr>"

lemma demo_match_valid: "\<forall>w \<in> set ws. w < 4 \<Longrightarrow> MatchParameters_IsValid (demo_match ws)"
  by (simp add: demo_match_def MatchParameters_IsValid_def RouteParameters_IsValid_def
      BaseParameters_IsValid_def MatchParameters_default_def RouteParameters_bool_def
      BaseParameters_default_def RouteParameters.defs BaseParameters.defs list_all_iff)

lemma demo_match_sel:
  "rp_waypoints (demo_match ws) = ws" "mp_timestamps (demo_match ws) = []"
  "bp_coordinates (demo_match ws) = replicate 4 \<lparr>crd_lon = 27000000, crd_lat = 47000000\<rparr>"
  "bp_hints (demo_match ws) = []" "bp_radiuses (demo_match ws) = []" "bp_bearings (demo_match ws) = []"
  by (simp_all add: demo_match_def MatchParameters_default_def RouteParameters_bool_def
      BaseParameters_default_def RouteParameters.defs BaseParameters.defs)


text \<open>
  C38.  Keeping all coordinates of a valid request copies coordinates, hints, radiuses, bearings and time
  stamps unchanged, and the waypoints sorted and without duplicates; the \<^verbatim>\<open>approaches\<close> of the request are not
  copied.
\<close>

theorem keep_all_spec:
  assumes valid: "MatchParameters_IsValid params"
  shows "\<exists>res. keep_all params = Some res
    \<and> (let n = length (bp_coordinates params); q = tr_parameters res in
        tr_tidied_to_original res = [0..<n] \<and> bp_coordinates q = bp_coordinates params
        \<and> bp_hints q = bp_hints params \<and> bp_radiuses q = bp_radiuses params
        \<and> bp_bearings q = bp_bearings params \<and> mp_timestamps q = mp_timestamps params
        \<and> sorted_wrt (<) (rp_waypoints q) \<and> set (rp_waypoints q) = set (rp_waypoints params)
        \<and> bp_approaches q = [])"
proof -
  let ?n = "length (bp_coordinates params)" and ?ws = "rp_waypoints params"
  let ?wp = "map (is_waypoint ?ws) [0..<?n]" and ?rw = "filter (is_waypoint ?ws) [0..<?n]"
  have wps: "\<forall>w \<in> set ?ws. w < ?n"
    using valid by (auto simp: MatchParameters_IsValid_def RouteParameters_IsValid_def Let_def list_all_iff)
  have "filter (\<lambda>i. ?wp ! i) [0..<?n] = ?rw" by (rule filter_cong) auto
  then have run: "keep_all params = Some \<lparr>tr_parameters = (if ?ws = [] then (restricted params [0..<?n] ?rw)\<lparr>rp_waypoints := []\<rparr>
        else restricted params [0..<?n] ?rw), tr_can_be_removed = replicate ?n False,
        tr_tidied_to_original = [0..<?n], tr_was_waypoint = ?wp\<rparr>"
    using waypoint_mask_eq [OF wps] keep_loop_upt [OF valid order_refl, of ?wp] by (simp add: keep_all_def Let_def)
  have full: "pick [0..<?n] xs = xs" if "xs = [] \<or> length xs = ?n" for xs :: "'x list"
    using that map_nth [of xs] by (auto simp: pick_def)
  have arrays: "pick [0..<?n] (bp_hints params) = bp_hints params"
    "pick [0..<?n] (bp_radiuses params) = bp_radiuses params"
    "pick [0..<?n] (bp_bearings params) = bp_bearings params"
    "pick [0..<?n] (mp_timestamps params) = mp_timestamps params"
    "map ((!) (bp_coordinates params)) [0..<?n] = bp_coordinates params"
    using valid unfolding MatchParameters_IsValid_def RouteParameters_IsValid_def BaseParameters_IsValid_def Let_def
    by (auto intro!: full simp: map_nth)
  have "set ?rw = set ?ws" if "?ws \<noteq> []" using that wps by (auto simp: is_waypoint_def)
  moreover have "sorted_wrt (<) ?rw" by (rule sorted_wrt_filter) simp
  ultimately show ?thesis using run arrays by (simp add: Let_def restricted_sel)
qed

theorem keep_all_spec_witness:
  "\<exists>res. keep_all (demo_match [3, 0]) = Some res \<and> bp_approaches (tr_parameters res) = []
    \<and> set (rp_waypoints (tr_parameters res)) = {0, 3}"
  using keep_all_spec [OF demo_match_valid, of "[3, 0]"] by (auto simp: demo_match_sel Let_def)

text \<open>
  The test that the first coordinate is a waypoint comes after tidying: for a valid request whose
  waypoints are the second and the fourth of four equal coordinates, tidying reads the last
  element of an empty vector.
\<close>

lemma tidy_undefined:
  "MatchParameters_IsValid (demo_match [1, 3])
    \<and> tidy (\<lambda>a b. Fin 0) \<lparr>th_distance_in_meters = Fin 15, th_duration_in_seconds = 5\<rparr> (demo_match [1, 3]) = None"
proof
  show "MatchParameters_IsValid (demo_match [1, 3])" by (rule demo_match_valid) simp
  have "[0..<2] = [0, 1 :: nat]" "[0..<4] = [0, 1, 2, 3 :: nat]" by (simp_all add: upt_rec)
  moreover have "rp_waypoints (MatchParameters_default :: unit MatchParameters) = []"
    using restricted_sel(7) [of _ "[]" "[]"] unfolding restricted_Nil by simp
  ultimately show "tidy (\<lambda>a b. Fin 0) \<lparr>th_distance_in_meters = Fin 15, th_duration_in_seconds = 5\<rparr> (demo_match [1, 3]) = None"
    by (simp add: tidy_def demo_match_sel waypoint_mask_def walk_step_def tidy_item_def push_item_def push_from_def
        Let_def numeral_eq_Suc)
qed

end
