(* ===== verification/Request_Parser.thy ===== *)
theory Request_Parser
  imports Std_String
begin

text \<open>
  \<^verbatim>\<open>src/server/request_parser.cpp\<close>: the HTTP request parser, a state machine fed one character at a
  time.  The parser's fields and the request it fills are records; \<open>consume\<close> is one step.  The two
  case-insensitive comparisons of Boost are a parameter (a record of functions); the locale
  \<open>case_insensitive\<close> states what the parser relies on.
\<close>

section \<open>Data\<close>

datatype RequestStatus = Valid | Invalid | Indeterminate

datatype internal_state = method_start | method_rest | uri_start | uri | http_version_h | http_version_t_1
  | http_version_t_2 | http_version_p | http_version_slash | http_version_major_start
  | http_version_major | http_version_minor_start | http_version_minor | expecting_newline_1
  | header_line_start | header_lws | header_name | header_value | expecting_newline_2
  | expecting_newline_3

datatype compression_type = no_compression | gzip_rfc1952 | deflate_rfc1951

record request =
  req_uri :: string
  req_referrer :: string
  req_agent :: string
  req_connection :: string

record RequestParser =
  rqp_state :: internal_state
  rqp_header_name :: string
  rqp_header_value :: string
  rqp_compression :: compression_type

record boost_strings =
  iequals :: "string \<Rightarrow> string \<Rightarrow> bool"
  icontains :: "string \<Rightarrow> string \<Rightarrow> bool"

definition RequestParser_init :: RequestParser where
  "RequestParser_init = \<lparr>rqp_state = method_start, rqp_header_name = [], rqp_header_value = [],
     rqp_compression = no_compression\<rparr>"

section \<open>Character classes\<close>

text \<open>A \<^verbatim>\<open>char\<close> is signed: the codes from 128 on are negative numbers.\<close>

definition char_code :: "char \<Rightarrow> int" where
  "char_code c = (if (of_char c :: int) < 128 then of_char c else of_char c - 256)"

definition is_char :: "char \<Rightarrow> bool" where
  "is_char c \<longleftrightarrow> char_code c \<ge> 0 \<and> char_code c \<le> 127"

definition is_CTL :: "char \<Rightarrow> bool" where
  "is_CTL c \<longleftrightarrow> (char_code c \<ge> 0 \<and> char_code c \<le> 31) \<or> char_code c = 127"

definition is_special :: "char \<Rightarrow> bool" where
  "is_special c \<longleftrightarrow> c \<in> set ''()<>@,;:/[]?={} '' \<or> char_code c \<in> {92, 34, 9}"

definition is_digit :: "char \<Rightarrow> bool" where
  "is_digit c \<longleftrightarrow> char_code c \<ge> 48 \<and> char_code c \<le> 57"

definition not_token :: "char \<Rightarrow> bool" where
  "not_token c \<longleftrightarrow> \<not> is_char c \<or> is_CTL c \<or> is_special c"

definition CR :: char where "CR = CHR 0x0D"

definition LF :: char where "LF = CHR 0x0A"

definition TAB :: char where "TAB = CHR 0x09"

section \<open>One character\<close>

type_synonym parser_step = "RequestStatus \<times> RequestParser \<times> request"

definition go :: "internal_state \<Rightarrow> RequestParser \<Rightarrow> request \<Rightarrow> parser_step" where
  "go s p r = (Indeterminate, p\<lparr>rqp_state := s\<rparr>, r)"

definition reject :: "RequestParser \<Rightarrow> request \<Rightarrow> parser_step" where
  "reject p r = (Invalid, p, r)"

text \<open>The states of the request line up to the URI.\<close>

definition consume_method_start :: "char \<Rightarrow> RequestParser \<Rightarrow> request \<Rightarrow> parser_step" where
  "consume_method_start c p r = (if not_token c then reject p r else go method_rest p r)"

definition consume_method :: "char \<Rightarrow> RequestParser \<Rightarrow> request \<Rightarrow> parser_step" where
  "consume_method c p r =
     (if c = CHR '' '' then go uri p r else if not_token c then reject p r else (Indeterminate, p, r))"

definition consume_uri_start :: "char \<Rightarrow> RequestParser \<Rightarrow> request \<Rightarrow> parser_step" where
  "consume_uri_start c p r =
     (if is_CTL c then reject p r else go uri p (r\<lparr>req_uri := req_uri r @ [c]\<rparr>))"

definition consume_uri :: "char \<Rightarrow> RequestParser \<Rightarrow> request \<Rightarrow> parser_step" where
  "consume_uri c p r =
     (if c = CHR '' '' then go http_version_h p r
      else if is_CTL c then reject p r
      else (Indeterminate, p, r\<lparr>req_uri := req_uri r @ [c]\<rparr>))"

text \<open>The states that expect one particular character.\<close>

definition expect :: "char \<Rightarrow> internal_state \<Rightarrow> char \<Rightarrow> RequestParser \<Rightarrow> request \<Rightarrow> parser_step" where
  "expect e s c p r = (if c = e then go s p r else reject p r)"

text \<open>The states of the version number.\<close>

definition consume_digit_start :: "internal_state \<Rightarrow> char \<Rightarrow> RequestParser \<Rightarrow> request \<Rightarrow> parser_step" where
  "consume_digit_start s c p r = (if is_digit c then go s p r else reject p r)"

definition consume_digits :: "char \<Rightarrow> internal_state \<Rightarrow> char \<Rightarrow> RequestParser \<Rightarrow> request \<Rightarrow> parser_step" where
  "consume_digits e s c p r =
     (if c = e then go s p r else if is_digit c then (Indeterminate, p, r) else reject p r)"

text \<open>The start of a header line first interprets the header that was just read.\<close>

definition select_compression :: "boost_strings \<Rightarrow> RequestParser \<Rightarrow> compression_type" where
  "select_compression B p =
     (if iequals B (rqp_header_name p) ''Accept-Encoding'' then
        let sel1 = (if icontains B (rqp_header_value p) ''deflate'' then deflate_rfc1951 else rqp_compression p);
            sel2 = (if icontains B (rqp_header_value p) ''gzip'' then gzip_rfc1952 else sel1)
        in sel2
      else rqp_compression p)"

definition store_header :: "boost_strings \<Rightarrow> RequestParser \<Rightarrow> request \<Rightarrow> request" where
  "store_header B p r =
     (let r1 = (if iequals B (rqp_header_name p) ''Referer'' then r\<lparr>req_referrer := rqp_header_value p\<rparr> else r);
          r2 = (if iequals B (rqp_header_name p) ''User-Agent'' then r1\<lparr>req_agent := rqp_header_value p\<rparr> else r1);
          r3 = (if iequals B (rqp_header_name p) ''Connection'' then r2\<lparr>req_connection := rqp_header_value p\<rparr> else r2)
      in r3)"

definition consume_header_line_start :: "boost_strings \<Rightarrow> char \<Rightarrow> RequestParser \<Rightarrow> request \<Rightarrow> parser_step" where
  "consume_header_line_start B c p r =
     (let p1 = p\<lparr>rqp_compression := select_compression B p\<rparr>;
          r1 = store_header B p r
      in if c = CR then go expecting_newline_3 p1 r1
         else if not_token c then reject p1 r1
         else go header_name (p1\<lparr>rqp_header_name := [c], rqp_header_value := []\<rparr>) r1)"

definition consume_header_lws :: "char \<Rightarrow> RequestParser \<Rightarrow> request \<Rightarrow> parser_step" where
  "consume_header_lws c p r =
     (if c = CR then go expecting_newline_2 p r
      else if c = CHR '' '' \<or> c = TAB then (Indeterminate, p, r)
      else if is_CTL c then reject p r
      else go header_value p r)"

definition consume_header_name :: "char \<Rightarrow> RequestParser \<Rightarrow> request \<Rightarrow> parser_step" where
  "consume_header_name c p r =
     (if c = CHR '':'' then go header_value p r
      else if not_token c then reject p r
      else (Indeterminate, p\<lparr>rqp_header_name := rqp_header_name p @ [c]\<rparr>, r))"

definition consume_header_value :: "char \<Rightarrow> RequestParser \<Rightarrow> request \<Rightarrow> parser_step" where
  "consume_header_value c p r =
     (if c = CHR '' '' then go header_value p r
      else if c = CR then go expecting_newline_2 p r
      else if is_CTL c then reject p r
      else (Indeterminate, p\<lparr>rqp_header_value := rqp_header_value p @ [c]\<rparr>, r))"

definition consume :: "boost_strings \<Rightarrow> char \<Rightarrow> RequestParser \<Rightarrow> request \<Rightarrow> parser_step" where
  "consume B c p r = (case rqp_state p of
       method_start \<Rightarrow> consume_method_start c p r
     | method_rest \<Rightarrow> consume_method c p r
     | uri_start \<Rightarrow> consume_uri_start c p r
     | uri \<Rightarrow> consume_uri c p r
     | http_version_h \<Rightarrow> expect CHR ''H'' http_version_t_1 c p r
     | http_version_t_1 \<Rightarrow> expect CHR ''T'' http_version_t_2 c p r
     | http_version_t_2 \<Rightarrow> expect CHR ''T'' http_version_p c p r
     | http_version_p \<Rightarrow> expect CHR ''P'' http_version_slash c p r
     | http_version_slash \<Rightarrow> expect CHR ''/'' http_version_major_start c p r
     | http_version_major_start \<Rightarrow> consume_digit_start http_version_major c p r
     | http_version_major \<Rightarrow> consume_digits CHR ''.'' http_version_minor_start c p r
     | http_version_minor_start \<Rightarrow> consume_digit_start http_version_minor c p r
     | http_version_minor \<Rightarrow> consume_digits CR expecting_newline_1 c p r
     | expecting_newline_1 \<Rightarrow> expect LF header_line_start c p r
     | header_line_start \<Rightarrow> consume_header_line_start B c p r
     | header_lws \<Rightarrow> consume_header_lws c p r
     | header_name \<Rightarrow> consume_header_name c p r
     | header_value \<Rightarrow> consume_header_value c p r
     | expecting_newline_2 \<Rightarrow> expect LF header_line_start c p r
     | expecting_newline_3 \<Rightarrow> (if c = LF then Valid else Invalid, p, r))"

fun parse :: "boost_strings \<Rightarrow> string \<Rightarrow> RequestParser \<Rightarrow> request \<Rightarrow> parser_step" where
  "parse B [] p r = (Indeterminate, p, r)"
| "parse B (c # cs) p r = (case consume B c p r of (s, p', r') \<Rightarrow>
     if s \<noteq> Indeterminate then (s, p', r') else parse B cs p' r')"

text \<open>A connection feeds the parser one read at a time while the status is indeterminate.\<close>

fun parse_reads :: "boost_strings \<Rightarrow> string list \<Rightarrow> RequestParser \<Rightarrow> request \<Rightarrow> parser_step" where
  "parse_reads B [] p r = (Indeterminate, p, r)"
| "parse_reads B (buf # bufs) p r = (case parse B buf p r of (s, p', r') \<Rightarrow>
     if s \<noteq> Indeterminate then (s, p', r') else parse_reads B bufs p' r')"

lemmas consume_defs = consume_method_start_def consume_method_def consume_uri_start_def consume_uri_def
  expect_def consume_digit_start_def consume_digits_def consume_header_line_start_def
  consume_header_lws_def consume_header_name_def consume_header_value_def go_def reject_def

section \<open>Reading in pieces\<close>

lemma parse_append:
  "parse B (xs @ ys) p r = (case parse B xs p r of (s, p', r') \<Rightarrow>
     if s \<noteq> Indeterminate then (s, p', r') else parse B ys p' r')"
  by (induction xs arbitrary: p r) (auto split: prod.splits)

section \<open>The comparisons the parser relies on\<close>

locale case_insensitive =
  fixes B :: boost_strings
  assumes iequals_iff: "iequals B s t \<longleftrightarrow> map tolower s = map tolower t"
    and icontains_iff: "icontains B s t \<longleftrightarrow> (\<exists>u v. map tolower s = u @ map tolower t @ v)"
begin

lemma iequals_refl: "iequals B s s"
  by (simp add: iequals_iff)

lemma iequals_names:
  "\<not> iequals B ''Referer'' ''User-Agent''" "\<not> iequals B ''Referer'' ''Connection''"
  "\<not> iequals B ''User-Agent'' ''Connection''" "\<not> iequals B ''User-Agent'' ''Referer''"
  "\<not> iequals B [] ''Referer''" "\<not> iequals B [] ''User-Agent''" "\<not> iequals B [] ''Connection''"
  "\<not> iequals B [] ''Accept-Encoding''"
  by (simp_all add: iequals_iff tolower_def)

text \<open>A header changes only the field it names.\<close>

lemma store_header_agent:
  "iequals B (rqp_header_name p) ''User-Agent'' \<Longrightarrow>
    store_header B p r = r\<lparr>req_agent := rqp_header_value p\<rparr>"
  by (auto simp: store_header_def Let_def iequals_iff tolower_def)

lemma select_gzip:
  "iequals B (rqp_header_name p) ''Accept-Encoding'' \<Longrightarrow> icontains B (rqp_header_value p) ''gzip''
    \<Longrightarrow> select_compression B p = gzip_rfc1952"
  by (simp add: select_compression_def Let_def)

end

definition std_strings :: boost_strings where
  "std_strings = \<lparr>iequals = (\<lambda>s t. map tolower s = map tolower t),
     icontains = (\<lambda>s t. find_sub (map tolower t) (map tolower s) \<noteq> None)\<rparr>"

interpretation std: case_insensitive std_strings
  by unfold_locales (simp_all only: std_strings_def boost_strings.simps find_sub_iff)

section \<open>Runs of characters in one state\<close>

lemma not_tokens: "not_token CHR '':''" "not_token CR" "not_token CHR '' ''"
  by (simp_all add: not_token_def is_special_def is_CTL_def char_code_def CR_def)

lemma token_not_colon: "\<not> not_token c \<Longrightarrow> c \<noteq> CHR '':'' \<and> c \<noteq> CR \<and> c \<noteq> CHR '' ''"
  using not_tokens by blast

lemma parse_method:
  "rqp_state p = method_rest \<Longrightarrow> list_all (\<lambda>c. \<not> not_token c) m \<Longrightarrow> parse B (m @ rest) p r = parse B rest p r"
  by (induction m) (simp_all add: consume_def consume_defs token_not_colon)

definition uri_char :: "char \<Rightarrow> bool" where
  "uri_char c \<longleftrightarrow> c \<noteq> CHR '' '' \<and> \<not> is_CTL c"

lemma parse_uri:
  "rqp_state p = uri \<Longrightarrow> list_all uri_char u
    \<Longrightarrow> parse B (u @ rest) p r = parse B rest p (r\<lparr>req_uri := req_uri r @ u\<rparr>)"
  by (induction u arbitrary: r) (simp_all add: consume_def consume_defs uri_char_def)

lemma not_digits: "\<not> is_digit CHR ''.''" "\<not> is_digit CR"
  by (simp_all add: is_digit_def char_code_def CR_def)

lemma digit_not_stop: "is_digit c \<Longrightarrow> c \<noteq> CHR ''.'' \<and> c \<noteq> CR"
  using not_digits by blast

lemma parse_major:
  "rqp_state p = http_version_major \<Longrightarrow> list_all is_digit ds \<Longrightarrow> parse B (ds @ rest) p r = parse B rest p r"
  by (induction ds) (simp_all add: consume_def consume_defs digit_not_stop)

lemma parse_minor:
  "rqp_state p = http_version_minor \<Longrightarrow> list_all is_digit ds \<Longrightarrow> parse B (ds @ rest) p r = parse B rest p r"
  by (induction ds) (simp_all add: consume_def consume_defs digit_not_stop)

lemma parse_header_name:
  "rqp_state p = header_name \<Longrightarrow> list_all (\<lambda>c. \<not> not_token c) n
    \<Longrightarrow> parse B (n @ rest) p r = parse B rest (p\<lparr>rqp_header_name := rqp_header_name p @ n\<rparr>) r"
  by (induction n arbitrary: p) (simp_all add: consume_def consume_defs token_not_colon)

lemma is_CTL_CR: "is_CTL CR"
  by (simp add: is_CTL_def char_code_def CR_def)

lemma not_CTL_CR: "\<not> is_CTL c \<Longrightarrow> c \<noteq> CR"
  using is_CTL_CR by blast

lemma state_self: "rqp_state p = s \<Longrightarrow> p\<lparr>rqp_state := s\<rparr> = p" for p :: RequestParser
  by (cases p) simp

lemma parse_header_value:
  "rqp_state p = header_value \<Longrightarrow> list_all (\<lambda>c. \<not> is_CTL c) v
    \<Longrightarrow> parse B (v @ rest) p r
      = parse B rest (p\<lparr>rqp_header_value := rqp_header_value p @ filter (\<lambda>c. c \<noteq> CHR '' '') v\<rparr>) r"
  by (induction v arbitrary: p) (simp_all add: consume_def consume_defs not_CTL_CR state_self)

section \<open>The text of a request\<close>

definition CRLF :: string where "CRLF = [CR, LF]"

definition header_text :: "string \<times> string \<Rightarrow> string" where
  "header_text h = fst h @ '':'' @ snd h @ CRLF"

definition request_line :: "string \<Rightarrow> string \<Rightarrow> string \<Rightarrow> string \<Rightarrow> string" where
  "request_line m u major minor = m @ '' '' @ u @ '' HTTP/'' @ major @ ''.'' @ minor @ CRLF"

definition request_text :: "string \<Rightarrow> string \<Rightarrow> string \<Rightarrow> string \<Rightarrow> (string \<times> string) list \<Rightarrow> string" where
  "request_text m u major minor hs = request_line m u major minor @ concat (map header_text hs) @ CRLF"

definition token :: "string \<Rightarrow> bool" where
  "token s \<longleftrightarrow> s \<noteq> [] \<and> list_all (\<lambda>c. \<not> not_token c) s"

definition digits :: "string \<Rightarrow> bool" where
  "digits s \<longleftrightarrow> s \<noteq> [] \<and> list_all is_digit s"

definition header_ok :: "string \<times> string \<Rightarrow> bool" where
  "header_ok h \<longleftrightarrow> token (fst h) \<and> list_all (\<lambda>c. \<not> is_CTL c) (snd h)"

text \<open>What the headers of a request leave behind: the value without its spaces, interpreted by name.\<close>

definition take_header :: "boost_strings \<Rightarrow> string \<times> string \<Rightarrow> RequestParser \<times> request \<Rightarrow> RequestParser \<times> request" where
  "take_header B h pr = (case pr of (p, r) \<Rightarrow>
     (p\<lparr>rqp_compression := select_compression B p, rqp_header_name := fst h,
        rqp_header_value := filter (\<lambda>c. c \<noteq> CHR '' '') (snd h)\<rparr>, store_header B p r))"

lemma parse_request_line:
  assumes "token m" "list_all uri_char u" "digits major" "digits minor"
  shows "parse B (request_line m u major minor @ rest) RequestParser_init r
    = parse B rest (RequestParser_init\<lparr>rqp_state := header_line_start\<rparr>) (r\<lparr>req_uri := req_uri r @ u\<rparr>)"
proof -
  obtain c m' where m: "m = c # m'" "\<not> not_token c" "list_all (\<lambda>c. \<not> not_token c) m'"
    using assms(1) by (cases m) (auto simp: token_def)
  obtain d ds where major: "major = d # ds" "is_digit d" "list_all is_digit ds"
    using assms(3) by (cases major) (auto simp: digits_def)
  obtain e es where minor: "minor = e # es" "is_digit e" "list_all is_digit es"
    using assms(4) by (cases minor) (auto simp: digits_def)
  show ?thesis
    using assms(2) m major minor
    by (simp add: request_line_def RequestParser_init_def consume_def consume_defs parse_method parse_uri
        parse_major parse_minor CRLF_def CR_def LF_def)
qed

lemma parse_header:
  assumes "rqp_state p = header_line_start" "header_ok h"
  shows "parse B (header_text h @ rest) p r = (case take_header B h (p, r) of (p', r') \<Rightarrow> parse B rest p' r')"
proof -
  obtain c n where n: "fst h = c # n" "\<not> not_token c" "list_all (\<lambda>c. \<not> not_token c) n"
    using assms(2) by (cases "fst h") (auto simp: token_def header_ok_def)
  have v: "list_all (\<lambda>c. \<not> is_CTL c) (snd h)" using assms(2) by (simp add: header_ok_def)
  show ?thesis
    using assms(1) n v token_not_colon [OF n(2)]
    by (cases p) (simp add: header_text_def CRLF_def consume_def consume_defs take_header_def Let_def parse_header_name
        parse_header_value CR_def LF_def is_CTL_def char_code_def)
qed

lemma take_header_state:
  "rqp_state (fst (take_header B h pr)) = rqp_state (fst pr)"
  by (simp add: take_header_def split: prod.split)

lemma parse_headers:
  "rqp_state p = header_line_start \<Longrightarrow> list_all header_ok hs \<Longrightarrow>
    parse B (concat (map header_text hs) @ rest) p r
      = (case fold (take_header B) hs (p, r) of (p', r') \<Rightarrow> parse B rest p' r')
    \<and> rqp_state (fst (fold (take_header B) hs (p, r))) = header_line_start"
proof (induction hs arbitrary: p r)
  case Nil
  then show ?case by simp
next
  case (Cons h hs)
  obtain p1 r1 where t: "take_header B h (p, r) = (p1, r1)" by (cases "take_header B h (p, r)")
  have "rqp_state p1 = header_line_start" using take_header_state [of B h "(p, r)"] t Cons.prems(1) by simp
  with Cons t show ?case by (simp add: parse_header)
qed

lemma parse_end:
  "rqp_state p = header_line_start \<Longrightarrow> parse B CRLF p r
    = (Valid, p\<lparr>rqp_compression := select_compression B p, rqp_state := expecting_newline_3\<rparr>, store_header B p r)"
  by (simp add: CRLF_def CR_def LF_def consume_def consume_defs Let_def)

text \<open>The value of the last header with a name, without its spaces.\<close>

definition header_field :: "boost_strings \<Rightarrow> string \<Rightarrow> (string \<times> string) list \<Rightarrow> string \<Rightarrow> string" where
  "header_field B name = fold (\<lambda>h v. if iequals B (fst h) name then filter (\<lambda>c. c \<noteq> CHR '' '') (snd h) else v)"

lemma header_fields:
  assumes "fold (take_header B) hs (p, r) = (p', r')"
  shows "req_agent (store_header B p' r') = header_field B ''User-Agent'' hs (req_agent (store_header B p r))"
    "req_referrer (store_header B p' r') = header_field B ''Referer'' hs (req_referrer (store_header B p r))"
    "req_connection (store_header B p' r') = header_field B ''Connection'' hs (req_connection (store_header B p r))"
    "req_uri (store_header B p' r') = req_uri r"
  using assms
proof (induction hs arbitrary: p r)
  case Nil
  {
    case 1 then show ?case by (simp add: header_field_def)
  next
    case 2 then show ?case by (simp add: header_field_def)
  next
    case 3 then show ?case by (simp add: header_field_def)
  next
    case 4 then show ?case by (simp add: store_header_def Let_def)
  }
next
  case (Cons h hs)
  {
    case 1 with Cons(1) show ?case by (simp add: header_field_def take_header_def store_header_def Let_def)
  next
    case 2 with Cons(2) show ?case by (simp add: header_field_def take_header_def store_header_def Let_def)
  next
    case 3 with Cons(3) show ?case by (simp add: header_field_def take_header_def store_header_def Let_def)
  next
    case 4 with Cons(4) show ?case by (simp add: take_header_def store_header_def Let_def)
  }
qed

lemma parse_request:
  assumes line: "token m" "list_all uri_char u" "digits major" "digits minor" and hs: "list_all header_ok hs"
    and fold: "fold (take_header B) hs (RequestParser_init\<lparr>rqp_state := header_line_start\<rparr>, r\<lparr>req_uri := req_uri r @ u\<rparr>) = (p', r')"
  shows "parse B (request_text m u major minor hs) RequestParser_init r
    = (Valid, p'\<lparr>rqp_compression := select_compression B p', rqp_state := expecting_newline_3\<rparr>, store_header B p' r')"
proof -
  have "rqp_state (RequestParser_init\<lparr>rqp_state := header_line_start\<rparr>) = header_line_start" by simp
  from parse_headers [OF this hs, of B CRLF "r\<lparr>req_uri := req_uri r @ u\<rparr>"] fold show ?thesis
    unfolding request_text_def parse_request_line [OF line] by (simp add: parse_end)
qed

section \<open>Invariant\<close>

text \<open>
  Whatever bytes arrive: two of the states are never entered, the URI collected so far has no space
  and no control character, and neither has any header.
\<close>

definition clean :: "string \<Rightarrow> bool" where
  "clean s \<longleftrightarrow> list_all uri_char s"

definition parser_inv :: "RequestParser \<times> request \<Rightarrow> bool" where
  "parser_inv pr \<longleftrightarrow> (case pr of (p, r) \<Rightarrow> rqp_state p \<notin> {uri_start, header_lws}
     \<and> clean (rqp_header_name p) \<and> clean (rqp_header_value p) \<and> clean (req_uri r)
     \<and> clean (req_agent r) \<and> clean (req_referrer r) \<and> clean (req_connection r))"

lemma clean_snoc: "clean (s @ [c]) \<longleftrightarrow> clean s \<and> uri_char c" "clean []" "clean [c] \<longleftrightarrow> uri_char c"
  by (simp_all add: clean_def)

lemma token_uri_char: "\<not> not_token c \<Longrightarrow> uri_char c"
  using not_tokens(3) by (auto simp: uri_char_def not_token_def)

lemma store_header_clean:
  "parser_inv (p, r) \<Longrightarrow> parser_inv (p, store_header B p r)"
  by (simp add: parser_inv_def store_header_def Let_def)

lemma consume_inv:
  assumes "parser_inv (p, r)"
  shows "parser_inv (snd (consume B c p r))"
proof (cases "rqp_state p = header_line_start")
  case True
  have "parser_inv (p, store_header B p r)" using assms by (rule store_header_clean)
  with True show ?thesis
    by (simp add: consume_def consume_header_line_start_def go_def reject_def Let_def parser_inv_def clean_snoc token_uri_char)
next
  case False
  with assms show ?thesis
    by (cases "rqp_state p")
       (simp_all add: consume_def consume_defs parser_inv_def clean_snoc token_uri_char
         token_uri_char [unfolded uri_char_def] uri_char_def)
qed

lemma parse_inv: "parser_inv (p, r) \<Longrightarrow> parser_inv (snd (parse B cs p r))"
proof (induction cs arbitrary: p r)
  case (Cons c cs)
  then show ?case using consume_inv [OF Cons.prems, of B c] by (auto split: prod.split)
qed simp

section \<open>Properties\<close>

definition empty_request :: request where
  "empty_request = \<lparr>req_uri = [], req_referrer = [], req_agent = [], req_connection = []\<rparr>"

text \<open>
  C34.  A well-formed request is accepted.  For a method, a URI without spaces and control characters,
  a version and any list of headers (non-empty token as name, value without control
  characters), the parser reports a valid request with exactly that URI; the user agent, the
  referrer and the connection are those of the last header with that name, but with all spaces
  removed from the value.
\<close>

theorem parse_request_text:
  assumes "case_insensitive B" "token m" "list_all uri_char u" "digits major" "digits minor" "list_all header_ok hs"
  shows "\<exists>p r. parse B (request_text m u major minor hs) RequestParser_init empty_request = (Valid, p, r)
    \<and> req_uri r = u \<and> req_agent r = header_field B ''User-Agent'' hs []
    \<and> req_referrer r = header_field B ''Referer'' hs [] \<and> req_connection r = header_field B ''Connection'' hs []"
proof -
  let ?p = "RequestParser_init\<lparr>rqp_state := header_line_start\<rparr>" and ?r = "empty_request\<lparr>req_uri := req_uri empty_request @ u\<rparr>"
  obtain p' r' where fold: "fold (take_header B) hs (?p, ?r) = (p', r')" by (cases "fold (take_header B) hs (?p, ?r)")
  have "store_header B ?p ?r = ?r"
    using case_insensitive.iequals_names [OF assms(1)] by (simp add: store_header_def RequestParser_init_def)
  then show ?thesis
    using parse_request [OF assms(2-6) fold] header_fields [OF fold] by (simp add: empty_request_def)
qed

theorem parse_request_text_witness:
  "\<exists>p r. parse std_strings (request_text ''GET'' ''/route/v1'' ''1'' ''1'' [(''User-Agent'', '' my app'')])
       RequestParser_init empty_request = (Valid, p, r) \<and> req_uri r = ''/route/v1'' \<and> req_agent r = ''myapp''"
proof -
  have "token ''GET''" "list_all uri_char ''/route/v1''" "digits ''1''" "list_all header_ok [(''User-Agent'', '' my app'')]"
    by (simp_all add: token_def uri_char_def digits_def header_ok_def not_token_def is_char_def is_CTL_def
        is_special_def is_digit_def char_code_def)
  from parse_request_text [OF std.case_insensitive_axioms this(1,2,3,3,4)] show ?thesis
    by (auto simp: header_field_def std.iequals_refl)
qed

text \<open>
  C35.  On any input the states \<^verbatim>\<open>uri_start\<close> and \<^verbatim>\<open>header_lws\<close> are never entered, and no space and no
  control character reaches the URI or a header field of the request.
\<close>

theorem parser_invariant:
  "case parse B cs RequestParser_init empty_request of (s, p, r) \<Rightarrow>
     rqp_state p \<noteq> uri_start \<and> rqp_state p \<noteq> header_lws
     \<and> list_all uri_char (req_uri r @ req_agent r @ req_referrer r @ req_connection r)"
proof -
  have "parser_inv (RequestParser_init, empty_request)"
    by (simp add: parser_inv_def RequestParser_init_def empty_request_def clean_def)
  from parse_inv [OF this, of B cs] show ?thesis by (auto simp: parser_inv_def clean_def split: prod.split)
qed

text \<open>
  Reading in pieces: however the bytes of a request are cut into reads, feeding the pieces one
  after the other while the status is indeterminate gives the same status, parser and request as
  one read of all bytes.
\<close>

lemma parse_reads_concat: "parse_reads B bufs p r = parse B (concat bufs) p r"
  by (induction bufs arbitrary: p r) (auto simp: parse_append split: prod.split)

end
