(* ===== verification/Query_Heap.thy ===== *)
theory Query_Heap
  imports Osrm_Prelude "HOL-Library.AList" "HOL-Library.Product_Lexorder"
begin

text \<open>
  \<^verbatim>\<open>include/util/query_heap.hpp\<close>: the priority queue of the searches.  Nodes are stored in insertion
  order; a heap of pairs (weight, insertion index) orders them, and an index storage maps a node to
  its insertion index.  The heap is Boost's \<^verbatim>\<open>d_ary_heap\<close>: a record of functions that the
  operations take as an argument, with its documented behaviour in the locale \<open>mutable_heap\<close>.  The
  index storages are those of the source; the locale \<open>index_storage\<close> is the contract the queue relies
  on, interpreted for each of them.
\<close>

section \<open>Index storages\<close>

text \<open>\<^verbatim>\<open>std::numeric_limits<Key>::max()\<close> for a 32-bit key.\<close>

definition KEY_MAX :: nat where
  "KEY_MAX = 4294967295"

record 's storage_ops =
  st_put :: "nat \<Rightarrow> nat \<Rightarrow> 's \<Rightarrow> 's"
  st_peek :: "'s \<Rightarrow> nat \<Rightarrow> nat"
  st_clear :: "'s \<Rightarrow> 's"

text \<open>\<^verbatim>\<open>ArrayStorage\<close>: clearing does nothing; stale positions stay.\<close>

definition ArrayStorage_init :: "nat \<Rightarrow> nat list" where
  "ArrayStorage_init sz = replicate sz 0"

definition ArrayStorage :: "nat list storage_ops" where
  "ArrayStorage = \<lparr>st_put = (\<lambda>node i positions. positions[node := i]),
     st_peek = (\<lambda>positions node. positions ! node), st_clear = (\<lambda>positions. positions)\<rparr>"

text \<open>\<^verbatim>\<open>MapStorage\<close> and \<^verbatim>\<open>UnorderedMapStorage\<close>: an absent node has the largest key.\<close>

definition MapStorage :: "(nat \<times> nat) list storage_ops" where
  "MapStorage = \<lparr>st_put = AList.update,
     st_peek = (\<lambda>nodes node. case map_of nodes node of Some i \<Rightarrow> i | None \<Rightarrow> KEY_MAX),
     st_clear = (\<lambda>nodes. [])\<rparr>"

definition UnorderedMapStorage :: "(nat \<times> nat) list storage_ops" where
  "UnorderedMapStorage = \<lparr>st_put = AList.update,
     st_peek = (\<lambda>nodes node. case map_of nodes node of Some i \<Rightarrow> i | None \<Rightarrow> KEY_MAX),
     st_clear = (\<lambda>nodes. [])\<rparr>"

text \<open>\<^verbatim>\<open>TwoLevelStorage\<close>: overlay nodes come first.\<close>

record ('b, 'o) two_level =
  tl_number_of_overlay_nodes :: nat
  tl_base :: 'b
  tl_overlay :: 'o

definition TwoLevelStorage :: "'b storage_ops \<Rightarrow> 'o storage_ops \<Rightarrow> ('b, 'o) two_level storage_ops" where
  "TwoLevelStorage B Ov = \<lparr>
     st_put = (\<lambda>node i s. if node < tl_number_of_overlay_nodes s
                 then s\<lparr>tl_overlay := st_put Ov node i (tl_overlay s)\<rparr>
                 else s\<lparr>tl_base := st_put B node i (tl_base s)\<rparr>),
     st_peek = (\<lambda>s node. if node < tl_number_of_overlay_nodes s
                 then st_peek Ov (tl_overlay s) node else st_peek B (tl_base s) node),
     st_clear = (\<lambda>s. s\<lparr>tl_base := st_clear B (tl_base s), tl_overlay := st_clear Ov (tl_overlay s)\<rparr>)\<rparr>"

section \<open>The queue\<close>

type_synonym HeapData = "int \<times> nat"

record ('p, 'h) heap_ops =
  hp_clear :: "'p \<Rightarrow> 'p"
  hp_push :: "HeapData \<Rightarrow> 'p \<Rightarrow> 'h \<times> 'p"
  hp_top :: "'p \<Rightarrow> HeapData"
  hp_pop :: "'p \<Rightarrow> 'p"
  hp_increase :: "'h \<Rightarrow> HeapData \<Rightarrow> 'p \<Rightarrow> 'p"
  hp_size :: "'p \<Rightarrow> nat"
  hp_get :: "'p \<Rightarrow> 'h \<Rightarrow> HeapData"
    \<comment> \<open>dereferencing a handle\<close>
  hp_end :: "'p \<Rightarrow> 'h"
    \<comment> \<open>\<^verbatim>\<open>s_handle_from_iterator(heap.end())\<close>\<close>

record ('h, 'd) HeapNode =
  hn_handle :: 'h
  hn_node :: nat
  hn_weight :: int
  hn_data :: 'd

record ('p, 'h, 's, 'd) QueryHeap =
  qh_inserted_nodes :: "('h, 'd) HeapNode list"
  qh_heap :: 'p
  qh_node_index :: 's

definition qh_Clear ::
  "('p, 'h) heap_ops \<Rightarrow> 's storage_ops \<Rightarrow> ('p, 'h, 's, 'd) QueryHeap \<Rightarrow> ('p, 'h, 's, 'd) QueryHeap" where
  "qh_Clear H S q = \<lparr>qh_inserted_nodes = [], qh_heap = hp_clear H (qh_heap q),
     qh_node_index = st_clear S (qh_node_index q)\<rparr>"

definition qh_Size :: "('p, 'h) heap_ops \<Rightarrow> ('p, 'h, 's, 'd) QueryHeap \<Rightarrow> nat" where
  "qh_Size H q = hp_size H (qh_heap q)"

definition qh_Empty :: "('p, 'h) heap_ops \<Rightarrow> ('p, 'h, 's, 'd) QueryHeap \<Rightarrow> bool" where
  "qh_Empty H q \<longleftrightarrow> 0 = qh_Size H q"

definition qh_Insert :: "('p, 'h) heap_ops \<Rightarrow> 's storage_ops \<Rightarrow> nat \<Rightarrow> int \<Rightarrow> 'd
    \<Rightarrow> ('p, 'h, 's, 'd) QueryHeap \<Rightarrow> ('p, 'h, 's, 'd) QueryHeap" where
  "qh_Insert H S node weight data q =
     (let index = length (qh_inserted_nodes q) mod 2 ^ 32 in
      case hp_push H (weight, index) (qh_heap q) of (handle, heap) \<Rightarrow>
        q\<lparr>qh_heap := heap,
          qh_inserted_nodes := qh_inserted_nodes q @
            [\<lparr>hn_handle = handle, hn_node = node, hn_weight = weight, hn_data = data\<rparr>],
          qh_node_index := st_put S node index (qh_node_index q)\<rparr>)"

definition getHeapNode :: "'s storage_ops \<Rightarrow> ('p, 'h, 's, 'd) QueryHeap \<Rightarrow> nat \<Rightarrow> ('h, 'd) HeapNode" where
  "getHeapNode S q node = qh_inserted_nodes q ! st_peek S (qh_node_index q) node"

definition GetData :: "'s storage_ops \<Rightarrow> ('p, 'h, 's, 'd) QueryHeap \<Rightarrow> nat \<Rightarrow> 'd" where
  "GetData S q node = hn_data (qh_inserted_nodes q ! st_peek S (qh_node_index q) node)"

definition GetKey :: "'s storage_ops \<Rightarrow> ('p, 'h, 's, 'd) QueryHeap \<Rightarrow> nat \<Rightarrow> int" where
  "GetKey S q node = hn_weight (qh_inserted_nodes q ! st_peek S (qh_node_index q) node)"

definition WasRemoved :: "('p, 'h) heap_ops \<Rightarrow> 's storage_ops \<Rightarrow> ('p, 'h, 's, 'd) QueryHeap \<Rightarrow> nat \<Rightarrow> bool" where
  "WasRemoved H S q node \<longleftrightarrow>
     hn_handle (qh_inserted_nodes q ! st_peek S (qh_node_index q) node) = hp_end H (qh_heap q)"

definition WasInserted :: "'s storage_ops \<Rightarrow> ('p, 'h, 's, 'd) QueryHeap \<Rightarrow> nat \<Rightarrow> bool" where
  "WasInserted S q node =
     (let index = st_peek S (qh_node_index q) node in
      if index \<ge> length (qh_inserted_nodes q) mod 2 ^ 32 then False
      else hn_node (qh_inserted_nodes q ! index) = node)"

definition GetHeapNodeIfWasInserted ::
  "'s storage_ops \<Rightarrow> ('p, 'h, 's, 'd) QueryHeap \<Rightarrow> nat \<Rightarrow> ('h, 'd) HeapNode option" where
  "GetHeapNodeIfWasInserted S q node =
     (let index = st_peek S (qh_node_index q) node in
      if index \<ge> length (qh_inserted_nodes q) mod 2 ^ 32
         \<or> hn_node (qh_inserted_nodes q ! index) \<noteq> node then None
      else Some (qh_inserted_nodes q ! index))"

definition qh_Min :: "('p, 'h) heap_ops \<Rightarrow> ('p, 'h, 's, 'd) QueryHeap \<Rightarrow> nat" where
  "qh_Min H q = hn_node (qh_inserted_nodes q ! snd (hp_top H (qh_heap q)))"

definition qh_MinKey :: "('p, 'h) heap_ops \<Rightarrow> ('p, 'h, 's, 'd) QueryHeap \<Rightarrow> int" where
  "qh_MinKey H q = fst (hp_top H (qh_heap q))"

definition qh_DeleteMin :: "('p, 'h) heap_ops \<Rightarrow> ('p, 'h, 's, 'd) QueryHeap
    \<Rightarrow> nat \<times> ('p, 'h, 's, 'd) QueryHeap" where
  "qh_DeleteMin H q =
     (let removedIndex = snd (hp_top H (qh_heap q));
          heap = hp_pop H (qh_heap q);
          removed = (qh_inserted_nodes q ! removedIndex)\<lparr>hn_handle := hp_end H heap\<rparr>
      in (hn_node removed,
          q\<lparr>qh_heap := heap, qh_inserted_nodes := (qh_inserted_nodes q)[removedIndex := removed]\<rparr>))"

definition DeleteMinGetHeapNode :: "('p, 'h) heap_ops \<Rightarrow> ('p, 'h, 's, 'd) QueryHeap
    \<Rightarrow> ('h, 'd) HeapNode \<times> ('p, 'h, 's, 'd) QueryHeap" where
  "DeleteMinGetHeapNode H q =
     (let removedIndex = snd (hp_top H (qh_heap q));
          heap = hp_pop H (qh_heap q);
          removed = (qh_inserted_nodes q ! removedIndex)\<lparr>hn_handle := hp_end H heap\<rparr>
      in (removed,
          q\<lparr>qh_heap := heap, qh_inserted_nodes := (qh_inserted_nodes q)[removedIndex := removed]\<rparr>))"

definition DeleteAll :: "('p, 'h) heap_ops \<Rightarrow> ('p, 'h, 's, 'd) QueryHeap \<Rightarrow> ('p, 'h, 's, 'd) QueryHeap" where
  "DeleteAll H q = q\<lparr>
     qh_inserted_nodes := map (\<lambda>n. n\<lparr>hn_handle := hp_end H (qh_heap q)\<rparr>) (qh_inserted_nodes q),
     qh_heap := hp_clear H (qh_heap q)\<rparr>"

definition DecreaseKey :: "('p, 'h) heap_ops \<Rightarrow> 's storage_ops \<Rightarrow> nat \<Rightarrow> int
    \<Rightarrow> ('p, 'h, 's, 'd) QueryHeap \<Rightarrow> ('p, 'h, 's, 'd) QueryHeap" where
  "DecreaseKey H S node weight q =
     (let index = st_peek S (qh_node_index q) node;
          reference = (qh_inserted_nodes q ! index)\<lparr>hn_weight := weight\<rparr>
      in q\<lparr>qh_inserted_nodes := (qh_inserted_nodes q)[index := reference],
           qh_heap := hp_increase H (hn_handle reference) (weight, index) (qh_heap q)\<rparr>)"

text \<open>The variant for a caller that has already lowered the weight of the stored node.\<close>

definition DecreaseKey_node :: "('p, 'h) heap_ops \<Rightarrow> ('h, 'd) HeapNode
    \<Rightarrow> ('p, 'h, 's, 'd) QueryHeap \<Rightarrow> ('p, 'h, 's, 'd) QueryHeap" where
  "DecreaseKey_node H heapNode q = q\<lparr>qh_heap := hp_increase H (hn_handle heapNode)
     (hn_weight heapNode, snd (hp_get H (qh_heap q) (hn_handle heapNode))) (qh_heap q)\<rparr>"

section \<open>What the queue relies on\<close>

text \<open>
  An index storage: reading back what was written.  Nothing is promised about a cleared storage,
  because \<^verbatim>\<open>ArrayStorage\<close> keeps stale positions.
\<close>

locale index_storage =
  fixes S :: "'s storage_ops" and node_ok :: "'s \<Rightarrow> nat \<Rightarrow> bool"
  assumes peek_put: "node_ok s n \<Longrightarrow> node_ok s n' \<Longrightarrow>
      st_peek S (st_put S n i s) n' = (if n' = n then i else st_peek S s n')"
    and ok_put: "node_ok (st_put S n i s) = node_ok s"
    and ok_clear: "node_ok (st_clear S s) = node_ok s"

interpretation array_storage: index_storage ArrayStorage "\<lambda>s n. n < length s"
  by unfold_locales (auto simp: ArrayStorage_def)

interpretation map_storage: index_storage MapStorage "\<lambda>s n. True"
  by unfold_locales (auto simp: MapStorage_def)

interpretation unordered_map_storage: index_storage UnorderedMapStorage "\<lambda>s n. True"
  by unfold_locales (auto simp: UnorderedMapStorage_def)

text \<open>A two-level storage keeps the contract of its levels.\<close>

definition two_level_ok :: "('b \<Rightarrow> nat \<Rightarrow> bool) \<Rightarrow> ('o \<Rightarrow> nat \<Rightarrow> bool) \<Rightarrow> ('b, 'o) two_level \<Rightarrow> nat \<Rightarrow> bool" where
  "two_level_ok okB okO s n =
     (if n < tl_number_of_overlay_nodes s then okO (tl_overlay s) n else okB (tl_base s) n)"

interpretation two_level_storage: index_storage "TwoLevelStorage UnorderedMapStorage ArrayStorage"
  "two_level_ok (\<lambda>s n. True) (\<lambda>s n. n < length s)"
  by unfold_locales
     (auto simp: TwoLevelStorage_def two_level_ok_def fun_eq_iff unordered_map_storage.peek_put array_storage.peek_put
       ArrayStorage_def)

text \<open>
  The mutable heap: \<open>elems\<close> maps the handles in the heap to their values.  The end handle is none of
  them, pushing gives a new handle, the top is minimal, popping removes one top element, and
  increasing the priority replaces a value by a smaller one.
\<close>

locale mutable_heap =
  fixes H :: "('p, 'h) heap_ops" and elems :: "'p \<Rightarrow> 'h \<Rightarrow> HeapData option"
  assumes elems_clear: "elems (hp_clear H p) = Map.empty"
    and end_elems: "elems p (hp_end H p') = None"
    and end_const: "hp_end H p = hp_end H p'"
    and push: "hp_push H v p = (h, p') \<Longrightarrow> elems p h = None \<and> elems p' = (elems p)(h \<mapsto> v)"
    and top_min: "elems p h = Some v \<Longrightarrow> hp_top H p \<le> v \<and> (\<exists>h'. elems p h' = Some (hp_top H p))"
    and pop: "elems p \<noteq> Map.empty \<Longrightarrow>
      \<exists>h. elems p h = Some (hp_top H p) \<and> elems (hp_pop H p) = (elems p)(h := None)"
    and increase: "elems p h = Some v \<Longrightarrow> w \<le> v \<Longrightarrow> elems (hp_increase H h w p) = (elems p)(h \<mapsto> w)"
    and get: "elems p h = Some v \<Longrightarrow> hp_get H p h = v"
    and size_card: "finite (dom (elems p)) \<and> hp_size H p = card (dom (elems p))"


section \<open>An executable heap\<close>

text \<open>
  A heap that keeps its values in a list indexed by handle; it satisfies the contract and is used to
  run the queue.
\<close>

type_synonym slot_heap = "HeapData option list"

definition slot_elems :: "slot_heap \<Rightarrow> nat option \<Rightarrow> HeapData option" where
  "slot_elems p h = (case h of None \<Rightarrow> None | Some i \<Rightarrow> if i < length p then p ! i else None)"

definition slot_values :: "slot_heap \<Rightarrow> HeapData list" where
  "slot_values p = map the (filter (\<lambda>x. x \<noteq> None) p)"

definition slot_top :: "slot_heap \<Rightarrow> HeapData" where
  "slot_top p = fold min (slot_values p) (hd (slot_values p))"

fun slot_remove :: "HeapData \<Rightarrow> slot_heap \<Rightarrow> slot_heap" where
  "slot_remove v [] = []"
| "slot_remove v (x # xs) = (if x = Some v then None # xs else x # slot_remove v xs)"

definition slot_heap :: "(slot_heap, nat option) heap_ops" where
  "slot_heap = \<lparr>hp_clear = (\<lambda>p. []), hp_push = (\<lambda>v p. (Some (length p), p @ [Some v])),
     hp_top = slot_top, hp_pop = (\<lambda>p. slot_remove (slot_top p) p),
     hp_increase = (\<lambda>h w p. case h of None \<Rightarrow> p | Some i \<Rightarrow> p[i := Some w]),
     hp_size = (\<lambda>p. length (slot_values p)), hp_get = (\<lambda>p h. the (slot_elems p h)), hp_end = (\<lambda>p. None)\<rparr>"

lemma slot_elems_in_values: "slot_elems p h = Some v \<Longrightarrow> v \<in> set (slot_values p)"
proof -
  assume "slot_elems p h = Some v"
  then have "Some v \<in> set p"
    by (auto simp: slot_elems_def split: option.splits if_splits) (metis nth_mem)
  then show ?thesis by (force simp: slot_values_def)
qed

lemma slot_values_in_elems: "v \<in> set (slot_values p) \<Longrightarrow> \<exists>h. slot_elems p h = Some v"
proof -
  assume "v \<in> set (slot_values p)"
  then have "Some v \<in> set p" by (auto simp: slot_values_def)
  then obtain i where "i < length p" "p ! i = Some v" by (auto simp: in_set_conv_nth)
  then show ?thesis by (intro exI [of _ "Some i"]) (simp add: slot_elems_def)
qed

lemma fold_min_le:
  fixes a :: HeapData
  shows "fold min xs a \<le> a \<and> (\<forall>x \<in> set xs. fold min xs a \<le> x)"
proof (induction xs arbitrary: a)
  case (Cons y ys)
  have "fold min ys (min y a) \<le> min y a" "\<forall>x \<in> set ys. fold min ys (min y a) \<le> x"
    using Cons.IH [of "min y a"] by blast+
  then show ?case using min.cobounded1 [of y a] min.cobounded2 [of y a] order_trans by (simp; blast)
qed simp

lemma fold_min_in:
  fixes a :: HeapData
  shows "fold min xs a \<in> insert a (set xs)"
proof (induction xs arbitrary: a)
  case (Cons y ys)
  have "fold min ys (min y a) \<in> insert (min y a) (set ys)" by (rule Cons.IH)
  moreover have "min y a = y \<or> min y a = a" by (simp only: min_def split: if_split) simp
  ultimately show ?case by (elim disjE) auto
qed simp

lemma slot_top_min:
  assumes "slot_elems p h = Some v"
  shows "slot_top p \<le> v \<and> (\<exists>h'. slot_elems p h' = Some (slot_top p))"
proof -
  have v: "v \<in> set (slot_values p)" using assms by (rule slot_elems_in_values)
  then have "hd (slot_values p) \<in> set (slot_values p)" by (cases "slot_values p") auto
  then have "slot_top p \<in> set (slot_values p)"
    using fold_min_in [of "slot_values p" "hd (slot_values p)"] by (elim insertE) (simp_all only: slot_top_def)
  moreover have "slot_top p \<le> v"
    using v fold_min_le [of "slot_values p" "hd (slot_values p)"] by (simp only: slot_top_def)
  ultimately show ?thesis using slot_values_in_elems by blast
qed

lemma slot_remove_elems:
  "Some v \<in> set p \<Longrightarrow> \<exists>i < length p. p ! i = Some v \<and> slot_remove v p = p[i := None]"
proof (induction p)
  case (Cons x xs)
  show ?case
  proof (cases "x = Some v")
    case False
    with Cons obtain i where "i < length xs" "xs ! i = Some v" "slot_remove v xs = xs[i := None]" by auto
    with False show ?thesis by (intro exI [of _ "Suc i"]) simp
  qed auto
qed simp

lemma slot_elems_update:
  "i < length p \<Longrightarrow> slot_elems (p[i := x]) = (slot_elems p)(Some i := x)"
  by (auto simp: slot_elems_def fun_eq_iff nth_list_update split: option.splits)

lemma slot_dom: "dom (slot_elems p) = Some ` {i. i < length p \<and> p ! i \<noteq> None}"
  by (auto simp: slot_elems_def dom_def image_iff split: option.splits if_splits)

interpretation slots: mutable_heap slot_heap slot_elems
proof
  fix p :: slot_heap and h v assume *: "slot_elems p h = Some v"
  show "hp_top slot_heap p \<le> v \<and> (\<exists>h'. slot_elems p h' = Some (hp_top slot_heap p))"
    using slot_top_min [OF *] by (simp add: slot_heap_def)
next
  fix p :: slot_heap assume "slot_elems p \<noteq> Map.empty"
  then obtain h v where "slot_elems p h = Some v" by (metis not_Some_eq)
  then obtain h' where "slot_elems p h' = Some (slot_top p)" using slot_top_min by blast
  then have "Some (slot_top p) \<in> set p" by (auto simp: slot_elems_def split: option.splits if_splits dest: nth_mem)
  then obtain i where "i < length p" "p ! i = Some (slot_top p)" "slot_remove (slot_top p) p = p[i := None]"
    using slot_remove_elems by blast
  then show "\<exists>h. slot_elems p h = Some (hp_top slot_heap p) \<and>
      slot_elems (hp_pop slot_heap p) = (slot_elems p)(h := None)"
    by (intro exI [of _ "Some i"]) (simp add: slot_heap_def slot_elems_update, simp add: slot_elems_def)
next
  fix p :: slot_heap and h v w assume "slot_elems p h = Some v"
  then obtain i where "h = Some i" "i < length p" by (auto simp: slot_elems_def split: option.splits if_splits)
  then show "slot_elems (hp_increase slot_heap h w p) = (slot_elems p)(h \<mapsto> w)"
    by (simp add: slot_heap_def slot_elems_update)
next
  fix p :: slot_heap
  show "finite (dom (slot_elems p)) \<and> hp_size slot_heap p = card (dom (slot_elems p))"
    by (simp add: slot_dom card_image slot_heap_def slot_values_def length_filter_conv_card)
qed (auto simp: slot_heap_def slot_elems_def fun_eq_iff nth_append split: option.splits if_splits)

section \<open>Invariant and abstract view\<close>

text \<open>
  Every inserted node is found at its own index, and the heap holds exactly the nodes whose handle is
  not the end handle, with their current weight and their index.
\<close>

definition qh_inv :: "('p, 'h) heap_ops \<Rightarrow> ('p \<Rightarrow> 'h \<Rightarrow> HeapData option) \<Rightarrow> 's storage_ops \<Rightarrow> ('s \<Rightarrow> nat \<Rightarrow> bool)
    \<Rightarrow> ('p, 'h, 's, 'd) QueryHeap \<Rightarrow> bool" where
  "qh_inv H elems S node_ok q \<longleftrightarrow>
     length (qh_inserted_nodes q) < 2 ^ 32 \<and>
     (\<forall>i < length (qh_inserted_nodes q).
        node_ok (qh_node_index q) (hn_node (qh_inserted_nodes q ! i)) \<and>
        st_peek S (qh_node_index q) (hn_node (qh_inserted_nodes q ! i)) = i) \<and>
     (\<forall>h v. elems (qh_heap q) h = Some v \<longleftrightarrow>
        (\<exists>i < length (qh_inserted_nodes q).
           hn_handle (qh_inserted_nodes q ! i) = h \<and> h \<noteq> hp_end H (qh_heap q) \<and>
           v = (hn_weight (qh_inserted_nodes q ! i), i)))"

text \<open>What a client sees: for an inserted node its weight, its data and whether it is still queued.\<close>

definition qh_view :: "('p, 'h) heap_ops \<Rightarrow> ('p, 'h, 's, 'd) QueryHeap \<Rightarrow> nat \<rightharpoonup> int \<times> 'd \<times> bool" where
  "qh_view H q = map_of (map (\<lambda>n. (hn_node n, hn_weight n, hn_data n, hn_handle n \<noteq> hp_end H (qh_heap q)))
     (qh_inserted_nodes q))"

datatype 'd qop = QInsert nat int 'd | QDeleteMin | QDecreaseKey nat int | QDeleteAll | QClear

text \<open>The abstract priority queue.\<close>

inductive pq_step :: "(nat \<rightharpoonup> int \<times> 'd \<times> bool) \<Rightarrow> 'd qop \<Rightarrow> (nat \<rightharpoonup> int \<times> 'd \<times> bool) \<Rightarrow> bool" where
  pq_insert: "m n = None \<Longrightarrow> pq_step m (QInsert n w d) (m(n \<mapsto> (w, d, True)))"
| pq_delete_min: "m n = Some (w, d, True) \<Longrightarrow> (\<And>n' w' d'. m n' = Some (w', d', True) \<Longrightarrow> w \<le> w') \<Longrightarrow>
    pq_step m QDeleteMin (m(n \<mapsto> (w, d, False)))"
| pq_decrease: "m n = Some (w0, d, True) \<Longrightarrow> w \<le> w0 \<Longrightarrow> pq_step m (QDecreaseKey n w) (m(n \<mapsto> (w, d, True)))"
| pq_delete_all: "pq_step m QDeleteAll (\<lambda>n. map_option (\<lambda>(w, d, a). (w, d, False)) (m n))"
| pq_clear: "pq_step m QClear Map.empty"

inductive_cases pq_delete_minE: "pq_step m QDeleteMin m'"

text \<open>The detailed queue: one operation, and when the code may call it.\<close>

primrec qh_step :: "('p, 'h) heap_ops \<Rightarrow> 's storage_ops \<Rightarrow> 'd qop
    \<Rightarrow> ('p, 'h, 's, 'd) QueryHeap \<Rightarrow> ('p, 'h, 's, 'd) QueryHeap" where
  "qh_step H S (QInsert n w d) q = qh_Insert H S n w d q"
| "qh_step H S QDeleteMin q = snd (qh_DeleteMin H q)"
| "qh_step H S (QDecreaseKey n w) q = DecreaseKey H S n w q"
| "qh_step H S QDeleteAll q = DeleteAll H q"
| "qh_step H S QClear q = qh_Clear H S q"

primrec qh_enabled :: "('p, 'h) heap_ops \<Rightarrow> 's storage_ops \<Rightarrow> ('s \<Rightarrow> nat \<Rightarrow> bool) \<Rightarrow> 'd qop
    \<Rightarrow> ('p, 'h, 's, 'd) QueryHeap \<Rightarrow> bool" where
  "qh_enabled H S node_ok (QInsert n w d) q \<longleftrightarrow>
     node_ok (qh_node_index q) n \<and> \<not> WasInserted S q n \<and> length (qh_inserted_nodes q) + 1 < 2 ^ 32"
| "qh_enabled H S node_ok QDeleteMin q \<longleftrightarrow> \<not> qh_Empty H q"
| "qh_enabled H S node_ok (QDecreaseKey n w) q \<longleftrightarrow>
     node_ok (qh_node_index q) n \<and> WasInserted S q n \<and> \<not> WasRemoved H S q n \<and> w \<le> GetKey S q n"
| "qh_enabled H S node_ok QDeleteAll q \<longleftrightarrow> True"
| "qh_enabled H S node_ok QClear q \<longleftrightarrow> True"

lemma map_of_list_update:
  "i < length xs \<Longrightarrow> distinct (map fst xs) \<Longrightarrow>
   map_of (xs[i := (fst (xs ! i), v)]) = (map_of xs)(fst (xs ! i) \<mapsto> v)"
proof (induction xs arbitrary: i)
  case (Cons x xs)
  then show ?case by (cases i) (auto simp: fun_eq_iff, metis image_eqI nth_mem)
qed simp

lemma map_of_map_snd:
  "map_of (map (\<lambda>x. (k x, f (g x))) xs) = (\<lambda>n. map_option f (map_of (map (\<lambda>x. (k x, g x)) xs) n))"
  by (induction xs) auto

section \<open>Correctness for every heap and storage that keep their contracts\<close>

locale query_heap = mutable_heap H elems + index_storage S node_ok
  for H :: "('p, 'h) heap_ops" and elems and S :: "'s storage_ops" and node_ok
begin

abbreviation inv :: "('p, 'h, 's, 'd) QueryHeap \<Rightarrow> bool" where
  "inv \<equiv> qh_inv H elems S node_ok"

abbreviation view :: "('p, 'h, 's, 'd) QueryHeap \<Rightarrow> nat \<rightharpoonup> int \<times> 'd \<times> bool" where
  "view \<equiv> qh_view H"

lemma invD:
  assumes "inv q"
  shows "length (qh_inserted_nodes q) < 2 ^ 32"
    and "i < length (qh_inserted_nodes q) \<Longrightarrow> node_ok (qh_node_index q) (hn_node (qh_inserted_nodes q ! i))"
    and "i < length (qh_inserted_nodes q) \<Longrightarrow>
      st_peek S (qh_node_index q) (hn_node (qh_inserted_nodes q ! i)) = i"
    and "elems (qh_heap q) h = Some v \<longleftrightarrow> (\<exists>i < length (qh_inserted_nodes q).
      hn_handle (qh_inserted_nodes q ! i) = h \<and> h \<noteq> hp_end H (qh_heap q) \<and>
      v = (hn_weight (qh_inserted_nodes q ! i), i))"
  using assms unfolding qh_inv_def by blast+

lemma distinct_nodes:
  assumes "inv q" shows "distinct (map hn_node (qh_inserted_nodes q))"
  unfolding distinct_conv_nth using invD(3) [OF assms] by (metis length_map nth_map)

text \<open>The view in terms of the index the storage gives.\<close>

lemma view_nth:
  assumes "inv q" "i < length (qh_inserted_nodes q)"
  shows "view q (hn_node (qh_inserted_nodes q ! i)) =
    Some (hn_weight (qh_inserted_nodes q ! i), hn_data (qh_inserted_nodes q ! i),
      hn_handle (qh_inserted_nodes q ! i) \<noteq> hp_end H (qh_heap q))"
  unfolding qh_view_def using assms distinct_nodes [OF assms(1)]
  by (intro map_of_is_SomeI) (simp_all add: o_def image_iff, metis nth_mem)

lemma view_SomeD:
  assumes "inv q" "view q n = Some x"
  obtains i where "i < length (qh_inserted_nodes q)" "hn_node (qh_inserted_nodes q ! i) = n"
    "st_peek S (qh_node_index q) n = i" "node_ok (qh_node_index q) n"
proof -
  have "n \<in> set (map hn_node (qh_inserted_nodes q))"
    using map_of_SomeD [OF assms(2) [unfolded qh_view_def]] by auto
  then obtain i where "i < length (qh_inserted_nodes q)" "hn_node (qh_inserted_nodes q ! i) = n"
    by (auto simp: in_set_conv_nth)
  then show thesis using that invD [OF assms(1)] by blast
qed

lemma WasInserted_view:
  assumes "inv q" shows "WasInserted S q n \<longleftrightarrow> view q n \<noteq> None"
proof
  assume "WasInserted S q n"
  then have "st_peek S (qh_node_index q) n < length (qh_inserted_nodes q)"
    "hn_node (qh_inserted_nodes q ! st_peek S (qh_node_index q) n) = n"
    using invD(1) [OF assms] by (auto simp: WasInserted_def Let_def split: if_splits)
  then show "view q n \<noteq> None" using view_nth [OF assms] by fastforce
next
  assume "view q n \<noteq> None"
  then obtain i where "i < length (qh_inserted_nodes q)" "hn_node (qh_inserted_nodes q ! i) = n"
    "st_peek S (qh_node_index q) n = i" using view_SomeD [OF assms] by blast
  then show "WasInserted S q n" using invD(1) [OF assms] by (simp add: WasInserted_def Let_def)
qed

lemma view_Some:
  assumes "inv q" "view q n = Some (w, d, a)"
  shows "WasInserted S q n \<and> GetKey S q n = w \<and> GetData S q n = d \<and> (WasRemoved H S q n \<longleftrightarrow> \<not> a)"
proof -
  obtain i where "i < length (qh_inserted_nodes q)" "hn_node (qh_inserted_nodes q ! i) = n"
    "st_peek S (qh_node_index q) n = i" using view_SomeD [OF assms] by blast
  then show ?thesis using view_nth [OF assms(1), of i] assms WasInserted_view [OF assms(1), of n]
    by (simp add: GetKey_def GetData_def WasRemoved_def)
qed

text \<open>A queued node has its (weight, index) pair in the heap.\<close>

lemma queued_in_heap:
  assumes "inv q" "i < length (qh_inserted_nodes q)"
    "hn_handle (qh_inserted_nodes q ! i) \<noteq> hp_end H (qh_heap q)"
  shows "elems (qh_heap q) (hn_handle (qh_inserted_nodes q ! i)) = Some (hn_weight (qh_inserted_nodes q ! i), i)"
  using invD(4) [OF assms(1)] assms(2,3) by blast

text \<open>The top of a nonempty heap.\<close>

lemma top_cases:
  assumes "inv q" "\<not> qh_Empty H q"
  obtains i h where "i < length (qh_inserted_nodes q)" "hp_top H (qh_heap q) = (hn_weight (qh_inserted_nodes q ! i), i)"
    "hn_handle (qh_inserted_nodes q ! i) = h" "h \<noteq> hp_end H (qh_heap q)"
    "elems (hp_pop H (qh_heap q)) = (elems (qh_heap q))(h := None)"
    "\<forall>h' v. elems (qh_heap q) h' = Some v \<longrightarrow> hp_top H (qh_heap q) \<le> v"
proof -
  have "elems (qh_heap q) \<noteq> Map.empty"
    using assms(2) size_card [of "qh_heap q"] by (auto simp: qh_Empty_def qh_Size_def)
  then obtain h where h: "elems (qh_heap q) h = Some (hp_top H (qh_heap q))"
    "elems (hp_pop H (qh_heap q)) = (elems (qh_heap q))(h := None)" using pop by blast
  then obtain i where "i < length (qh_inserted_nodes q)" "hn_handle (qh_inserted_nodes q ! i) = h"
    "h \<noteq> hp_end H (qh_heap q)" "hp_top H (qh_heap q) = (hn_weight (qh_inserted_nodes q ! i), i)"
    using invD(4) [OF assms(1)] by blast
  then show thesis using that h(2) top_min by blast
qed

text \<open>Insertion.\<close>

lemma inv_insert:
  assumes "inv q" "qh_enabled H S node_ok (QInsert n w d) q"
  shows "inv (qh_Insert H S n w d q) \<and> view (qh_Insert H S n w d q) = (view q)(n \<mapsto> (w, d, True))"
proof -
  let ?N = "qh_inserted_nodes q" and ?I = "qh_node_index q"
  have en: "node_ok ?I n" "length ?N + 1 < 2 ^ 32" using assms(2) by simp_all
  have new: "view q n = None" using assms(2) WasInserted_view [OF assms(1)] by (metis qh_enabled.simps(1))
  obtain h p' where p: "hp_push H (w, length ?N) (qh_heap q) = (h, p')" by fastforce
  have e: "elems (qh_heap q) h = None" "elems p' = (elems (qh_heap q))(h \<mapsto> (w, length ?N))"
    using push [OF p] by auto
  have hend: "h \<noteq> hp_end H p'" using end_elems [of p' p'] e by auto
  have ends: "hp_end H p' = hp_end H (qh_heap q)" by (rule end_const)
  have fresh: "n \<noteq> hn_node (?N ! i)" if "i < length ?N" for i
    using view_nth [OF assms(1) that] new by auto
  have q': "qh_Insert H S n w d q = q\<lparr>qh_heap := p', qh_inserted_nodes := ?N @
      [\<lparr>hn_handle = h, hn_node = n, hn_weight = w, hn_data = d\<rparr>], qh_node_index := st_put S n (length ?N) ?I\<rparr>"
    using p en(2) by (simp add: qh_Insert_def)
  have "hn_handle (?N ! i) \<noteq> h" if "i < length ?N" "hn_handle (?N ! i) \<noteq> hp_end H (qh_heap q)" for i
    using queued_in_heap [OF assms(1) that] e(1) by auto
  then have "inv (qh_Insert H S n w d q)"
    unfolding qh_inv_def q' using invD [OF assms(1)] en e hend ends fresh
    by (auto simp: nth_append peek_put ok_put less_Suc_eq) blast
  moreover have "view (qh_Insert H S n w d q) = (view q)(n \<mapsto> (w, d, True))"
  proof
    fix x
    show "view (qh_Insert H S n w d q) x = ((view q)(n \<mapsto> (w, d, True))) x"
      using hend ends new by (simp add: q' qh_view_def map_add_def split: option.split)
  qed
  ultimately show ?thesis ..
qed

text \<open>Replacing one stored node keeps the index and changes the view at that node only.\<close>

lemma view_update:
  assumes "inv q" "i < length (qh_inserted_nodes q)" "hn_node x = hn_node (qh_inserted_nodes q ! i)"
  shows "view (q\<lparr>qh_heap := p', qh_inserted_nodes := (qh_inserted_nodes q)[i := x]\<rparr>) =
    (view q)(hn_node x \<mapsto> (hn_weight x, hn_data x, hn_handle x \<noteq> hp_end H (qh_heap q)))"
proof -
  let ?N = "qh_inserted_nodes q"
  let ?f = "\<lambda>n. (hn_node n, hn_weight n, hn_data n, hn_handle n \<noteq> hp_end H (qh_heap q))"
  have ends: "hp_end H p' = hp_end H (qh_heap q)" by (rule end_const)
  have d: "distinct (map fst (map ?f ?N))" using distinct_nodes [OF assms(1)] by (simp add: o_def)
  have "map_of ((map ?f ?N)[i := (fst (map ?f ?N ! i), snd (?f x))]) =
      (map_of (map ?f ?N))(fst (map ?f ?N ! i) \<mapsto> snd (?f x))"
    using assms(2) d by (intro map_of_list_update) simp_all
  then show ?thesis using assms(2,3) ends by (simp add: qh_view_def map_update)
qed

lemma inv_update:
  assumes "inv q" "i < length (qh_inserted_nodes q)" "hn_node x = hn_node (qh_inserted_nodes q ! i)"
    "\<And>h v. elems p' h = Some v \<longleftrightarrow> (\<exists>j. j < length (qh_inserted_nodes q) \<and>
       hn_handle ((qh_inserted_nodes q)[i := x] ! j) = h \<and> h \<noteq> hp_end H (qh_heap q) \<and>
       v = (hn_weight ((qh_inserted_nodes q)[i := x] ! j), j))"
  shows "inv (q\<lparr>qh_heap := p', qh_inserted_nodes := (qh_inserted_nodes q)[i := x]\<rparr>)"
proof -
  have nodes: "hn_node ((qh_inserted_nodes q)[i := x] ! j) = hn_node (qh_inserted_nodes q ! j)"
    if "j < length (qh_inserted_nodes q)" for j
    using that assms(2,3) by (cases "j = i") simp_all
  show ?thesis unfolding qh_inv_def
    using invD(1-3) [OF assms(1)] nodes end_const [of p' "qh_heap q"]
    by (intro conjI) (simp, simp, simp add: assms(4))
qed

text \<open>Deleting the minimum.\<close>

lemma inv_delete_min:
  assumes "inv q" "\<not> qh_Empty H q"
  shows "inv (snd (qh_DeleteMin H q)) \<and>
    (\<exists>n w d. fst (qh_DeleteMin H q) = n \<and> w = qh_MinKey H q \<and> n = qh_Min H q \<and> view q n = Some (w, d, True) \<and>
      (\<forall>n' w' d'. view q n' = Some (w', d', True) \<longrightarrow> w \<le> w') \<and>
      view (snd (qh_DeleteMin H q)) = (view q)(n \<mapsto> (w, d, False)))"
proof -
  let ?N = "qh_inserted_nodes q"
  obtain i h where top: "i < length ?N" "hp_top H (qh_heap q) = (hn_weight (?N ! i), i)"
    "hn_handle (?N ! i) = h" "h \<noteq> hp_end H (qh_heap q)"
    "elems (hp_pop H (qh_heap q)) = (elems (qh_heap q))(h := None)"
    "\<forall>h' v. elems (qh_heap q) h' = Some v \<longrightarrow> hp_top H (qh_heap q) \<le> v"
    by (rule top_cases [OF assms])
  define x where "x = (?N ! i)\<lparr>hn_handle := hp_end H (hp_pop H (qh_heap q))\<rparr>"
  have q': "qh_DeleteMin H q = (hn_node (?N ! i), q\<lparr>qh_heap := hp_pop H (qh_heap q), qh_inserted_nodes := ?N[i := x]\<rparr>)"
    using top(2) by (simp add: qh_DeleteMin_def Let_def x_def)
  have ends: "hp_end H (hp_pop H (qh_heap q)) = hp_end H (qh_heap q)" by (rule end_const)
  have unique: "hn_handle (?N ! j) \<noteq> h" if "j < length ?N" "j \<noteq> i" for j
    using queued_in_heap [OF assms(1) that(1)] queued_in_heap [OF assms(1) top(1)] that(2) top(3,4) by auto
  have "inv (snd (qh_DeleteMin H q))"
    unfolding q' snd_conv
  proof (rule inv_update [OF assms(1) top(1)])
    fix h' v
    show "elems (hp_pop H (qh_heap q)) h' = Some v \<longleftrightarrow> (\<exists>j. j < length ?N \<and> hn_handle (?N[i := x] ! j) = h' \<and>
        h' \<noteq> hp_end H (qh_heap q) \<and> v = (hn_weight (?N[i := x] ! j), j))"
      (is "_ \<longleftrightarrow> (\<exists>j. ?new j)")
    proof -
      have "elems (hp_pop H (qh_heap q)) h' = Some v \<longleftrightarrow> h' \<noteq> h \<and> elems (qh_heap q) h' = Some v"
        using top(5) by simp
      also have "\<dots> \<longleftrightarrow> (\<exists>j. h' \<noteq> h \<and> j < length ?N \<and> hn_handle (?N ! j) = h' \<and>
          h' \<noteq> hp_end H (qh_heap q) \<and> v = (hn_weight (?N ! j), j))"
        unfolding invD(4) [OF assms(1), of h' v] ex_simps ..
      also have "\<dots> \<longleftrightarrow> (\<exists>j. ?new j)"
      proof (rule ex_cong1)
        fix j
        show "(h' \<noteq> h \<and> j < length ?N \<and> hn_handle (?N ! j) = h' \<and> h' \<noteq> hp_end H (qh_heap q) \<and>
            v = (hn_weight (?N ! j), j)) \<longleftrightarrow> ?new j"
          using top(1,3) ends unique [of j] by (cases "j = i") (auto simp: x_def)
      qed
      finally show ?thesis .
    qed
  qed (simp add: x_def)
  moreover have "hn_weight (?N ! i) \<le> w'" if v: "view q n' = Some (w', d', True)" for n' w' d'
  proof -
    obtain j where j: "j < length ?N" "hn_node (?N ! j) = n'" using view_SomeD [OF assms(1) v] by blast
    with v view_nth [OF assms(1) j(1)] have "hn_weight (?N ! j) = w'" "hn_handle (?N ! j) \<noteq> hp_end H (qh_heap q)"
      by auto
    then show ?thesis using top(6) queued_in_heap [OF assms(1) j(1)] top(2) by fastforce
  qed
  moreover have "view (snd (qh_DeleteMin H q)) = (view q)(hn_node (?N ! i) \<mapsto> (hn_weight (?N ! i), hn_data (?N ! i), False))"
    using view_update [OF assms(1) top(1), of x] ends by (simp add: q' x_def)
  ultimately show ?thesis using view_nth [OF assms(1) top(1)] top(2,3,4)
    by (simp add: q' qh_Min_def qh_MinKey_def) blast
qed

text \<open>Decreasing a key.\<close>

lemma inv_decrease_key:
  assumes "inv q" "qh_enabled H S node_ok (QDecreaseKey n w) q"
  shows "inv (DecreaseKey H S n w q) \<and>
    (\<exists>w0 d. view q n = Some (w0, d, True) \<and> w \<le> w0 \<and> view (DecreaseKey H S n w q) = (view q)(n \<mapsto> (w, d, True)))"
proof -
  let ?N = "qh_inserted_nodes q"
  have "view q n \<noteq> None" using assms(2) WasInserted_view [OF assms(1)] by (metis qh_enabled.simps(3))
  then obtain i where i: "i < length ?N" "hn_node (?N ! i) = n" "st_peek S (qh_node_index q) n = i"
    using view_SomeD [OF assms(1)] by blast
  define x where "x = (?N ! i)\<lparr>hn_weight := w\<rparr>"
  have en: "hn_handle (?N ! i) \<noteq> hp_end H (qh_heap q)" "w \<le> hn_weight (?N ! i)"
    using assms(2) i(3) by (simp_all add: WasRemoved_def GetKey_def)
  define p' where "p' = hp_increase H (hn_handle (?N ! i)) (w, i) (qh_heap q)"
  have e: "elems p' = (elems (qh_heap q))(hn_handle (?N ! i) \<mapsto> (w, i))"
    unfolding p'_def using en queued_in_heap [OF assms(1) i(1) en(1)] by (intro increase) auto
  have q': "DecreaseKey H S n w q = q\<lparr>qh_heap := p', qh_inserted_nodes := ?N[i := x]\<rparr>"
    using i(3) by (simp add: DecreaseKey_def Let_def x_def p'_def)
  have ends: "hp_end H p' = hp_end H (qh_heap q)" by (rule end_const)
  have unique: "hn_handle (?N ! j) \<noteq> hn_handle (?N ! i)" if "j < length ?N" "j \<noteq> i" for j
    using queued_in_heap [OF assms(1) that(1)] queued_in_heap [OF assms(1) i(1)] that(2) en(1) by auto
  have "inv (DecreaseKey H S n w q)"
    unfolding q'
  proof (rule inv_update [OF assms(1) i(1)])
    fix h' v
    show "elems p' h' = Some v \<longleftrightarrow> (\<exists>j. j < length ?N \<and> hn_handle (?N[i := x] ! j) = h' \<and>
        h' \<noteq> hp_end H (qh_heap q) \<and> v = (hn_weight (?N[i := x] ! j), j))"
      (is "_ \<longleftrightarrow> (\<exists>j. ?new j)")
    proof (cases "h' = hn_handle (?N ! i)")
      case True
      then have "?new j \<longleftrightarrow> j = i \<and> v = (w, i)" for j
        using unique [of j] i(1) en(1) by (cases "j = i") (auto simp: x_def)
      then show ?thesis using True e by auto
    next
      case False
      have "?new j \<longleftrightarrow> j < length ?N \<and> hn_handle (?N ! j) = h' \<and> h' \<noteq> hp_end H (qh_heap q) \<and>
          v = (hn_weight (?N ! j), j)" for j
        using False i(1) by (cases "j = i") (auto simp: x_def)
      then show ?thesis using False e invD(4) [OF assms(1), of h' v] by simp
    qed
  qed (simp add: x_def)
  moreover have "view (DecreaseKey H S n w q) = (view q)(n \<mapsto> (w, hn_data (?N ! i), True))"
    using view_update [OF assms(1) i(1), of x] i(2) en(1) by (simp add: q' x_def)
  ultimately show ?thesis using view_nth [OF assms(1) i(1)] i(2) en by simp
qed

text \<open>Lowering the stored weight first and then calling the other variant has the same effect.\<close>

lemma decrease_key_node:
  assumes "inv q" "qh_enabled H S node_ok (QDecreaseKey n w) q"
  shows "(let i = st_peek S (qh_node_index q) n; x = (getHeapNode S q n)\<lparr>hn_weight := w\<rparr>
      in DecreaseKey_node H x (q\<lparr>qh_inserted_nodes := (qh_inserted_nodes q)[i := x]\<rparr>)) = DecreaseKey H S n w q"
proof -
  let ?N = "qh_inserted_nodes q"
  have "view q n \<noteq> None" using assms(2) WasInserted_view [OF assms(1)] by (metis qh_enabled.simps(3))
  then obtain i where i: "i < length ?N" "hn_node (?N ! i) = n" "st_peek S (qh_node_index q) n = i"
    using view_SomeD [OF assms(1)] by blast
  have "hn_handle (?N ! i) \<noteq> hp_end H (qh_heap q)" using assms(2) i(3) by (simp add: WasRemoved_def)
  then have "hp_get H (qh_heap q) (hn_handle (?N ! i)) = (hn_weight (?N ! i), i)"
    using queued_in_heap [OF assms(1) i(1)] by (intro get)
  then show ?thesis using i(3) by (simp add: DecreaseKey_node_def DecreaseKey_def getHeapNode_def Let_def)
qed

text \<open>Emptying the queue.\<close>

lemma inv_delete_all:
  assumes "inv q"
  shows "inv (DeleteAll H q) \<and> view (DeleteAll H q) = (\<lambda>n. map_option (\<lambda>(w, d, a). (w, d, False)) (view q n))"
proof
  have ends: "hp_end H (hp_clear H (qh_heap q)) = hp_end H (qh_heap q)" by (rule end_const)
  then show "inv (DeleteAll H q)"
    unfolding qh_inv_def using invD [OF assms] by (auto simp: DeleteAll_def elems_clear)
  show "view (DeleteAll H q) = (\<lambda>n. map_option (\<lambda>(w, d, a). (w, d, False)) (view q n))"
    using ends map_of_map_snd [of hn_node "\<lambda>(w, d, a). (w, d, False)"
        "\<lambda>n. (hn_weight n, hn_data n, hn_handle n \<noteq> hp_end H (qh_heap q))" "qh_inserted_nodes q"]
    by (simp add: DeleteAll_def qh_view_def o_def)
qed

lemma inv_clear: "inv (qh_Clear H S q) \<and> view (qh_Clear H S q) = Map.empty"
  by (simp add: qh_inv_def qh_Clear_def elems_clear qh_view_def)

text \<open>Every operation the code may call implements the abstract one.\<close>

lemma step_refines:
  assumes "inv q" "qh_enabled H S node_ok op q"
  shows "inv (qh_step H S op q) \<and> pq_step (view q) op (view (qh_step H S op q))"
proof (cases op)
  case (QInsert n w d)
  have "view q n = None"
    using assms WasInserted_view [OF assms(1)] unfolding QInsert by (metis qh_enabled.simps(1))
  then show ?thesis using QInsert inv_insert [OF assms(1)] assms(2) by (auto intro: pq_step.intros)
next
  case QDeleteMin
  then have "\<not> qh_Empty H q" using assms(2) by simp
  from inv_delete_min [OF assms(1) this] obtain n w d where *: "inv (snd (qh_DeleteMin H q))"
    "view q n = Some (w, d, True)" "\<forall>n' w' d'. view q n' = Some (w', d', True) \<longrightarrow> w \<le> w'"
    "view (snd (qh_DeleteMin H q)) = (view q)(n \<mapsto> (w, d, False))" by blast
  have "pq_step (view q) QDeleteMin ((view q)(n \<mapsto> (w, d, False)))" using *(2,3) by (intro pq_delete_min) blast+
  then show ?thesis using *(1,4) QDeleteMin by simp
next
  case (QDecreaseKey n w)
  then have "qh_enabled H S node_ok (QDecreaseKey n w) q" using assms(2) by simp
  from inv_decrease_key [OF assms(1) this] obtain w0 d where "inv (DecreaseKey H S n w q)" "view q n = Some (w0, d, True)"
    "w \<le> w0" "view (DecreaseKey H S n w q) = (view q)(n \<mapsto> (w, d, True))" by blast
  then show ?thesis using QDecreaseKey pq_decrease [of "view q" n w0 d w] by simp
next
  case QDeleteAll
  then show ?thesis using inv_delete_all [OF assms(1)] by (auto intro: pq_delete_all)
next
  case QClear
  then show ?thesis using inv_clear by (auto intro: pq_clear)
qed

text \<open>The number of queued nodes: the queue is empty when none is left, and each deletion removes one.\<close>

lemma empty_view:
  assumes "inv q" shows "qh_Empty H q \<longleftrightarrow> (\<forall>n w d. view q n \<noteq> Some (w, d, True))"
proof
  assume "qh_Empty H q"
  then have e: "elems (qh_heap q) = Map.empty" using size_card [of "qh_heap q"] by (simp add: qh_Empty_def qh_Size_def)
  show "\<forall>n w d. view q n \<noteq> Some (w, d, True)"
  proof (intro allI notI)
    fix n w d assume v: "view q n = Some (w, d, True)"
    then obtain i where i: "i < length (qh_inserted_nodes q)" "hn_node (qh_inserted_nodes q ! i) = n"
      using view_SomeD [OF assms] by blast
    then show False using view_nth [OF assms i(1)] queued_in_heap [OF assms i(1)] v e by simp
  qed
next
  assume none: "\<forall>n w d. view q n \<noteq> Some (w, d, True)"
  show "qh_Empty H q"
  proof (rule ccontr)
    assume "\<not> qh_Empty H q"
    then show False using inv_delete_min [OF assms] none by blast
  qed
qed

lemma delete_min_size:
  assumes "inv q" "\<not> qh_Empty H q"
  shows "qh_Size H q = Suc (qh_Size H (snd (qh_DeleteMin H q)))"
proof -
  obtain i h where top: "i < length (qh_inserted_nodes q)"
    "hp_top H (qh_heap q) = (hn_weight (qh_inserted_nodes q ! i), i)"
    "hn_handle (qh_inserted_nodes q ! i) = h" "h \<noteq> hp_end H (qh_heap q)"
    "elems (hp_pop H (qh_heap q)) = (elems (qh_heap q))(h := None)"
    "\<forall>h' v. elems (qh_heap q) h' = Some v \<longrightarrow> hp_top H (qh_heap q) \<le> v"
    by (rule top_cases [OF assms])
  have "h \<in> dom (elems (qh_heap q))" using queued_in_heap [OF assms(1) top(1)] top(3,4) by blast
  then show ?thesis using size_card [of "qh_heap q"] size_card [of "hp_pop H (qh_heap q)"] top(5)
    by (simp add: qh_Size_def qh_DeleteMin_def Let_def card_Suc_Diff1 del: card_Diff_insert card_Diff_singleton)
qed

end

interpretation array_queue: query_heap slot_heap slot_elems ArrayStorage "\<lambda>s n. n < length s" ..

interpretation map_queue: query_heap slot_heap slot_elems UnorderedMapStorage "\<lambda>s n. True" ..

interpretation two_level_queue: query_heap slot_heap slot_elems "TwoLevelStorage UnorderedMapStorage ArrayStorage"
  "two_level_ok (\<lambda>s n. True) (\<lambda>s n. n < length s)" ..

section \<open>Properties\<close>

text \<open>
  C3.  The queue refines the abstract priority queue: with a heap and an index storage that keep their
  contracts, every operation called under its precondition keeps the invariant, and what clients see
  changes as the abstract operation says.  In particular the node that leaves has minimal weight.
\<close>

theorem QueryHeap_refines:
  assumes "mutable_heap H elems" "index_storage S node_ok"
    and "qh_inv H elems S node_ok q" "qh_enabled H S node_ok op q"
  shows "qh_inv H elems S node_ok (qh_step H S op q) \<and>
    pq_step (qh_view H q) op (qh_view H (qh_step H S op q))"
proof -
  from assms(1,2) have "query_heap H elems S node_ok" by (rule query_heap.intro)
  then show ?thesis using assms(3,4) by (rule query_heap.step_refines)
qed

definition qh_example :: "(slot_heap, nat option, nat list, unit) QueryHeap" where
  "qh_example = foldl (\<lambda>q op. qh_step slot_heap ArrayStorage op q)
     \<lparr>qh_inserted_nodes = [], qh_heap = [], qh_node_index = ArrayStorage_init 8\<rparr>
     [QInsert 5 7 (), QInsert 2 9 (), QInsert 6 3 (), QDecreaseKey 2 4, QDeleteMin]"

lemma list_update_Cons_numeral: "(x # xs)[numeral n := v] = x # xs[pred_numeral n := v]"
  by (simp add: numeral_eq_Suc)

lemma replicate_numeral: "replicate (numeral n) x = x # replicate (pred_numeral n) x"
  by (simp add: numeral_eq_Suc)

lemma qh_example_value:
  "qh_example = \<lparr>qh_inserted_nodes =
     [\<lparr>hn_handle = Some 0, hn_node = 5, hn_weight = 7, hn_data = ()\<rparr>,
      \<lparr>hn_handle = Some 1, hn_node = 2, hn_weight = 4, hn_data = ()\<rparr>,
      \<lparr>hn_handle = None, hn_node = 6, hn_weight = 3, hn_data = ()\<rparr>],
     qh_heap = [Some (7, 0), Some (4, 1), None], qh_node_index = [0, 0, 1, 0, 0, 0, 2, 0]\<rparr>"
  by (simp add: qh_example_def qh_Insert_def DecreaseKey_def qh_DeleteMin_def slot_heap_def ArrayStorage_def
      ArrayStorage_init_def slot_top_def slot_values_def Let_def list_update_Cons_numeral replicate_numeral min_def)

lemma qh_example_inv: "qh_inv slot_heap slot_elems ArrayStorage (\<lambda>s n. n < length s) qh_example"
  unfolding qh_example_value qh_inv_def
  by (simp add: slot_heap_def ArrayStorage_def slot_elems_def less_Suc_eq numeral_3_eq_3 nth_Cons'
      conj_disj_distribR conj_disj_distribL ex_disj_distrib split: option.split) auto

theorem QueryHeap_refines_witness:
  "pq_step (qh_view slot_heap qh_example) QDeleteMin (qh_view slot_heap (qh_step slot_heap ArrayStorage QDeleteMin qh_example))"
proof -
  have "qh_enabled slot_heap ArrayStorage (\<lambda>s n. n < length s) QDeleteMin qh_example" by (simp add: qh_example_value qh_Empty_def qh_Size_def slot_heap_def slot_values_def)
  from QueryHeap_refines [OF slots.mutable_heap_axioms array_storage.index_storage_axioms qh_example_inv this]
  show ?thesis by blast
qed

text \<open>
  C25.  The queries agree with the abstract state: a node was inserted when the view has it, then its
  key, its data and whether it was removed are those of the view.  A node that was never inserted is
  not reported, even when the index storage still holds a stale position for it.
\<close>

theorem QueryHeap_queries:
  assumes "mutable_heap H elems" "index_storage S node_ok" "qh_inv H elems S node_ok q"
  shows "case qh_view H q n of None \<Rightarrow> \<not> WasInserted S q n \<and> GetHeapNodeIfWasInserted S q n = None
    | Some (w, d, queued) \<Rightarrow> WasInserted S q n \<and> GetKey S q n = w \<and> GetData S q n = d \<and>
        WasRemoved H S q n = (\<not> queued) \<and> GetHeapNodeIfWasInserted S q n = Some (getHeapNode S q n)"
proof -
  from assms(1,2) have Q: "query_heap H elems S node_ok" by (rule query_heap.intro)
  have get: "GetHeapNodeIfWasInserted S q n = (if WasInserted S q n then Some (getHeapNode S q n) else None)"
    by (auto simp: GetHeapNodeIfWasInserted_def WasInserted_def getHeapNode_def Let_def)
  show ?thesis
    using query_heap.WasInserted_view [OF Q assms(3), of n] query_heap.view_Some [OF Q assms(3), of n] get
    by (auto split: option.split)
qed

theorem QueryHeap_queries_witness:
  "\<not> WasInserted ArrayStorage qh_example 3 \<and> WasInserted ArrayStorage qh_example 6 \<and>
   WasRemoved slot_heap ArrayStorage qh_example 6 \<and> GetKey ArrayStorage qh_example 2 = 4"
proof -
  note Q = QueryHeap_queries [OF slots.mutable_heap_axioms array_storage.index_storage_axioms qh_example_inv]
  have "qh_view slot_heap qh_example 3 = None" "qh_view slot_heap qh_example 6 = Some (3, (), False)"
    "qh_view slot_heap qh_example 2 = Some (4, (), True)"
    by (simp_all add: qh_example_value qh_view_def slot_heap_def)
  then show ?thesis using Q [of 3] Q [of 6] Q [of 2] by simp
qed

text \<open>
  C26.  Deletion makes progress: on a nonempty queue the returned node is the reported minimum, it was
  queued with the reported key, no queued node is lighter, and exactly one node leaves, so a search
  that only deletes ends after as many steps as there are queued nodes.
\<close>

theorem DeleteMin_progress:
  assumes "mutable_heap H elems" "index_storage S node_ok" "qh_inv H elems S node_ok q" "\<not> qh_Empty H q"
  shows "fst (qh_DeleteMin H q) = qh_Min H q
    \<and> (\<exists>d. qh_view H q (qh_Min H q) = Some (qh_MinKey H q, d, True))
    \<and> (\<forall>n w d. qh_view H q n = Some (w, d, True) \<longrightarrow> qh_MinKey H q \<le> w)
    \<and> qh_Size H q = Suc (qh_Size H (snd (qh_DeleteMin H q)))"
proof -
  from assms(1,2) have Q: "query_heap H elems S node_ok" by (rule query_heap.intro)
  from query_heap.inv_delete_min [OF Q assms(3,4)] obtain d where
    "fst (qh_DeleteMin H q) = qh_Min H q" "qh_view H q (qh_Min H q) = Some (qh_MinKey H q, d, True)"
    "\<forall>n w d. qh_view H q n = Some (w, d, True) \<longrightarrow> qh_MinKey H q \<le> w" by (elim conjE exE) simp
  then show ?thesis using query_heap.delete_min_size [OF Q assms(3,4)] by (intro conjI exI [of _ d])
qed

theorem DeleteMin_progress_witness:
  "fst (qh_DeleteMin slot_heap qh_example) = 2 \<and> qh_Size slot_heap (snd (qh_DeleteMin slot_heap qh_example)) = 1"
proof -
  have "\<not> qh_Empty slot_heap qh_example" "qh_Min slot_heap qh_example = 2" "qh_Size slot_heap qh_example = 2"
    by (simp_all add: qh_example_value qh_Empty_def qh_Size_def qh_Min_def slot_heap_def slot_values_def slot_top_def)
  with DeleteMin_progress [OF slots.mutable_heap_axioms array_storage.index_storage_axioms qh_example_inv]
  show ?thesis by simp
qed

end
