(* ===== verification/Multi_Level_Partition.thy ===== *)
theory Multi_Level_Partition
  imports Osrm_Prelude "HOL-Library.Log_Nat"
begin

text \<open>
  \<^verbatim>\<open>include/partitioner/multi_level_partition.hpp\<close> and \<^verbatim>\<open>include/util/msb.hpp\<close>: the cells of a node on
  every level of the partition, packed into one 64-bit word per node.  Level \<open>l\<close> has index \<open>l - 1\<close>
  and occupies the bits from its offset up to the next offset.  Cell ids are natural numbers below
  $2^{32}$ (increments wrap); arrays are lists of the entries that are written.
\<close>

unbundle bit_operations_syntax

section \<open>Data\<close>

datatype mlp_error = Cannot_pack nat nat | Undefined

record LevelData =
  num_level :: nat
  lidx_to_offset :: "nat list"
  lidx_to_mask :: "64 word list"
  bit_to_level :: "nat list"
  lidx_to_children_offsets :: "nat list"

record MultiLevelPartition =
  level_data :: LevelData
  partition_ids :: "64 word list"
  cell_to_children :: "nat list"

section \<open>Most significant bit\<close>

text \<open>The generic loop, and the overload for 64-bit words, with the compiler's count of leading zeros.\<close>

function msb_loop :: "64 word \<Rightarrow> nat \<Rightarrow> nat" where
  "msb_loop v m = (if v > 0 then msb_loop (drop_bit 1 v) (m + 1) else m - 1)"
  by auto
termination by (relation "measure (\<lambda>(v, m). unat v)")
    (auto simp: drop_bit_eq_div word_less_nat_alt unat_div)

declare msb_loop.simps [simp del]

definition builtin_clz :: "64 word \<Rightarrow> nat" where
  "builtin_clz v = length (takeWhile (\<lambda>i. \<not> bit v i) (rev [0..<64]))"

definition msb_u64 :: "64 word \<Rightarrow> nat" where
  "msb_u64 v = 63 - builtin_clz v"

section \<open>Level data\<close>

fun MakeLevelOffsets_loop :: "nat list \<Rightarrow> nat list \<Rightarrow> nat \<Rightarrow> mlp_error + nat list" where
  "MakeLevelOffsets_loop [] offsets sum_bits =
     (if length offsets \<ge> 15 then Inl Undefined else Inr (offsets @ [sum_bits]))"
| "MakeLevelOffsets_loop (num_cells # rest) offsets sum_bits =
     (if (num_cells + 1) mod 2 ^ 32 = 0 \<or> length offsets \<ge> 15 then Inl Undefined
      else let bits = ceillog2 ((num_cells + 1) mod 2 ^ 32); sum_bits' = sum_bits + bits in
        if sum_bits' > 64 then Inl (Cannot_pack (length offsets + 1) sum_bits')
        else MakeLevelOffsets_loop rest (offsets @ [sum_bits]) sum_bits')"

definition MakeLevelOffsets :: "nat list \<Rightarrow> mlp_error + nat list" where
  "MakeLevelOffsets lidx_to_num_cells = MakeLevelOffsets_loop lidx_to_num_cells [] 0"

text \<open>One mask per pair of adjacent offsets.\<close>

fun MakeLevelMasks :: "nat list \<Rightarrow> mlp_error + 64 word list" where
  "MakeLevelMasks (offset # next_offset # rest) =
     (if offset \<ge> 64 then Inl Undefined else
      case MakeLevelMasks (next_offset # rest) of Inl e \<Rightarrow> Inl e
      | Inr masks \<Rightarrow>
        let low = push_bit offset 1 - 1;
            next_mask = (if next_offset = 64 then - 1 else push_bit next_offset 1 - 1)
        in Inr ((next_mask XOR low) # masks))"
| "MakeLevelMasks _ = Inr []"

text \<open>Every entry is written as soon as there is one level, because its offset is 0.\<close>

definition MakeBitToLevel :: "nat list \<Rightarrow> nat \<Rightarrow> nat list" where
  "MakeBitToLevel level_offsets levels =
     fold (\<lambda>l bits. fold (\<lambda>idx bits. bits[idx := l]) [level_offsets ! (l - 1)..<64] bits)
       [1..<levels] (replicate 64 0)"

definition MakeLevelData :: "nat list \<Rightarrow> mlp_error + LevelData" where
  "MakeLevelData lidx_to_num_cells =
     (let levels = length lidx_to_num_cells + 1 in
      case MakeLevelOffsets lidx_to_num_cells of Inl e \<Rightarrow> Inl e
      | Inr offsets \<Rightarrow>
        case MakeLevelMasks (take levels offsets) of Inl e \<Rightarrow> Inl e
        | Inr masks \<Rightarrow> Inr \<lparr>num_level = levels, lidx_to_offset = offsets, lidx_to_mask = masks,
            bit_to_level = MakeBitToLevel offsets levels, lidx_to_children_offsets = replicate 15 0\<rparr>)"

section \<open>Cells\<close>

definition LevelIDToIndex :: "nat \<Rightarrow> nat" where
  "LevelIDToIndex l = (if l = 0 then 2 ^ 64 - 1 else l - 1)"

definition cell_of :: "LevelData \<Rightarrow> nat \<Rightarrow> 64 word \<Rightarrow> nat" where
  "cell_of ld l p =
     (let lidx = LevelIDToIndex l; masked = p AND lidx_to_mask ld ! lidx
      in unat (drop_bit (lidx_to_offset ld ! lidx) masked) mod 2 ^ 32)"

definition GetCell :: "MultiLevelPartition \<Rightarrow> nat \<Rightarrow> nat \<Rightarrow> nat" where
  "GetCell mlp l node = cell_of (level_data mlp) l (partition_ids mlp ! node)"

definition GetHighestDifferentLevel :: "MultiLevelPartition \<Rightarrow> nat \<Rightarrow> nat \<Rightarrow> nat" where
  "GetHighestDifferentLevel mlp first second =
     (if partition_ids mlp ! first = partition_ids mlp ! second then 0
      else bit_to_level (level_data mlp) ! msb_u64 (partition_ids mlp ! first XOR partition_ids mlp ! second))"

definition GetQueryLevel :: "MultiLevelPartition \<Rightarrow> nat \<Rightarrow> nat \<Rightarrow> nat \<Rightarrow> nat" where
  "GetQueryLevel mlp start target node =
     min (GetHighestDifferentLevel mlp start node) (GetHighestDifferentLevel mlp target node)"

definition GetNumberOfLevels :: "MultiLevelPartition \<Rightarrow> nat" where
  "GetNumberOfLevels mlp = num_level (level_data mlp)"

definition GetSentinelNode :: "MultiLevelPartition \<Rightarrow> nat" where
  "GetSentinelNode mlp = length (partition_ids mlp) - 1"

definition GetNumberOfCells :: "MultiLevelPartition \<Rightarrow> nat \<Rightarrow> nat" where
  "GetNumberOfCells mlp level = GetCell mlp level (GetSentinelNode mlp)"

definition BeginChildren :: "MultiLevelPartition \<Rightarrow> nat \<Rightarrow> nat \<Rightarrow> nat" where
  "BeginChildren mlp level cell =
     (let offset = lidx_to_children_offsets (level_data mlp) ! LevelIDToIndex level
      in cell_to_children mlp ! (offset + cell))"

definition EndChildren :: "MultiLevelPartition \<Rightarrow> nat \<Rightarrow> nat \<Rightarrow> nat" where
  "EndChildren mlp level cell =
     (let offset = lidx_to_children_offsets (level_data mlp) ! LevelIDToIndex level
      in cell_to_children mlp ! (offset + cell + 1))"

definition set_cell :: "LevelData \<Rightarrow> nat \<Rightarrow> nat \<Rightarrow> 64 word \<Rightarrow> 64 word" where
  "set_cell ld l cell_id p =
     (let lidx = LevelIDToIndex l;
          shifted_id = push_bit (lidx_to_offset ld ! lidx) (of_nat cell_id);
          cleared_cell = p AND NOT (lidx_to_mask ld ! lidx)
      in cleared_cell OR shifted_id)"

definition SetCellID :: "LevelData \<Rightarrow> nat \<Rightarrow> nat \<Rightarrow> nat \<Rightarrow> 64 word list \<Rightarrow> 64 word list" where
  "SetCellID ld l node cell_id ids = ids[node := set_cell ld l cell_id (ids ! node)]"

section \<open>Initialisation\<close>

text \<open>The stable sorts, bottom up.\<close>

definition sort_nodes :: "nat list list \<Rightarrow> nat list \<Rightarrow> nat list" where
  "sort_nodes partitions permutation =
     fold (\<lambda>part permutation. sort_key (\<lambda>n. part ! n) permutation) partitions permutation"

text \<open>Assigning the cell ids of one level, then of all levels top down.\<close>

fun assign_loop :: "LevelData \<Rightarrow> nat list \<Rightarrow> nat \<Rightarrow> nat list \<Rightarrow> nat \<Rightarrow> nat \<Rightarrow> 64 word list \<Rightarrow> nat \<times> 64 word list" where
  "assign_loop ld part level [] last_cell_id cell_id ids = (cell_id, ids)"
| "assign_loop ld part level (node # nodes) last_cell_id cell_id ids =
     (if last_cell_id \<noteq> part ! node
      then assign_loop ld part level nodes (part ! node) ((cell_id + 1) mod 2 ^ 32)
             (SetCellID ld level node ((cell_id + 1) mod 2 ^ 32) ids)
      else assign_loop ld part level nodes last_cell_id cell_id (SetCellID ld level node cell_id ids))"

definition assign_level :: "LevelData \<Rightarrow> nat list \<Rightarrow> nat \<Rightarrow> nat list \<Rightarrow> nat \<Rightarrow> 64 word list \<Rightarrow> 64 word list" where
  "assign_level ld part level permutation sentinel ids =
     (case assign_loop ld part level permutation (part ! hd permutation) 0 ids of
        (cell_id, ids') \<Rightarrow> SetCellID ld level sentinel ((cell_id + 1) mod 2 ^ 32) ids')"

fun assign_levels :: "LevelData \<Rightarrow> nat list list \<Rightarrow> nat \<Rightarrow> nat list \<Rightarrow> nat \<Rightarrow> 64 word list \<Rightarrow> 64 word list" where
  "assign_levels ld [] level permutation sentinel ids = ids"
| "assign_levels ld (part # rest) level permutation sentinel ids =
     assign_levels ld rest (level - 1) permutation sentinel
       (assign_level ld part level permutation sentinel ids)"

text \<open>The first child of every parent cell, then a sentinel.\<close>

fun children_loop :: "MultiLevelPartition \<Rightarrow> nat list \<Rightarrow> nat \<Rightarrow> nat list \<Rightarrow> nat \<Rightarrow> nat list" where
  "children_loop mlp parent_partition level [] last_parent_id = []"
| "children_loop mlp parent_partition level (node # nodes) last_parent_id =
     (if last_parent_id \<noteq> parent_partition ! node
      then GetCell mlp level node # children_loop mlp parent_partition level nodes (parent_partition ! node)
      else children_loop mlp parent_partition level nodes last_parent_id)"

definition children_level ::
  "nat list list \<Rightarrow> nat list \<Rightarrow> nat \<Rightarrow> MultiLevelPartition \<Rightarrow> MultiLevelPartition" where
  "children_level partitions permutation level_idx mlp =
     (let parent_partition = partitions ! (level_idx + 1);
          ld = level_data mlp;
          ld' = ld\<lparr>lidx_to_children_offsets :=
                 (lidx_to_children_offsets ld)[level_idx + 1 := length (cell_to_children mlp)]\<rparr>;
          children = [GetCell mlp (level_idx + 1) (hd permutation)]
            @ children_loop mlp parent_partition (level_idx + 1) permutation (parent_partition ! hd permutation)
            @ [(GetCell mlp (level_idx + 1) (last permutation) + 1) mod 2 ^ 32]
      in mlp\<lparr>level_data := ld', cell_to_children := cell_to_children mlp @ children\<rparr>)"

definition InitializePartitionIDs :: "LevelData \<Rightarrow> nat list list \<Rightarrow> mlp_error + MultiLevelPartition" where
  "InitializePartitionIDs ld partitions =
     (if partitions = [] \<or> hd partitions = [] \<or> (\<exists>p \<in> set partitions. length p < length (hd partitions))
         \<or> length partitions \<ge> num_level ld then Inl Undefined
      else
        let num_nodes = length (hd partitions);
            permutation = sort_nodes partitions [0..<num_nodes];
            ids = assign_levels ld (rev partitions) (length partitions) permutation num_nodes
                    (replicate (num_nodes + 1) 0);
            ld' = ld\<lparr>lidx_to_children_offsets := (lidx_to_children_offsets ld)[0 := 0]\<rparr>
        in Inr (fold (children_level partitions permutation) [0..<length partitions - 1]
                 \<lparr>level_data = ld', partition_ids = ids, cell_to_children = []\<rparr>))"

definition MultiLevelPartition_make :: "nat list list \<Rightarrow> nat list \<Rightarrow> mlp_error + MultiLevelPartition" where
  "MultiLevelPartition_make partitions lidx_to_num_cells =
     (case MakeLevelData lidx_to_num_cells of Inl e \<Rightarrow> Inl e
      | Inr ld \<Rightarrow> InitializePartitionIDs ld partitions)"

section \<open>The most significant bit\<close>

lemma bit_beyond_64: "64 \<le> i \<Longrightarrow> \<not> bit (v :: 64 word) i"
  using bit_imp_le_length [of v i] by auto

lemma length_takeWhile_less: "x \<in> set xs \<Longrightarrow> \<not> P x \<Longrightarrow> length (takeWhile P xs) < length xs"
  by (induction xs) auto

lemma msb_u64_bit:
  assumes "v \<noteq> 0"
  shows "bit v (msb_u64 v)" "msb_u64 v < 64" "i > msb_u64 v \<Longrightarrow> \<not> bit v i"
proof -
  let ?P = "\<lambda>i. \<not> bit v i" and ?xs = "rev [0..<64] :: nat list"
  obtain b where b: "bit v b" using assms by (auto simp: bit_eq_iff)
  then have "b < 64" using bit_beyond_64 not_le by blast
  then have "b \<in> set ?xs" by simp
  with b have len: "length (takeWhile ?P ?xs) < length ?xs" by (intro length_takeWhile_less) auto
  let ?k = "length (takeWhile ?P ?xs)"
  have k: "?xs ! ?k = msb_u64 v" using len by (simp add: rev_nth msb_u64_def builtin_clz_def)
  show "bit v (msb_u64 v)" using nth_length_takeWhile [OF len] k by simp
  show "msb_u64 v < 64" by (simp add: msb_u64_def)
  show "\<not> bit v i" if "i > msb_u64 v"
  proof (cases "i < 64")
    case True
    have "63 - i < ?k" using that True len by (simp add: msb_u64_def builtin_clz_def)
    moreover have "?xs ! (63 - i) = i" using True by (simp add: rev_nth)
    ultimately show ?thesis
      using takeWhile_nth [of "63 - i" ?P ?xs] set_takeWhileD [of i ?P ?xs] by (metis nth_mem)
  qed (simp add: bit_beyond_64)
qed

lemma msb_u64_eqI:
  assumes "bit v i" "\<And>j. j > i \<Longrightarrow> \<not> bit v j"
  shows "msb_u64 v = i"
proof -
  have "v \<noteq> 0" using assms(1) by auto
  then show ?thesis using msb_u64_bit [of v] assms by (metis nat_neq_iff)
qed

lemma msb_loop_u64: "v \<noteq> 0 \<Longrightarrow> msb_loop v m = m + msb_u64 v"
proof (induction v m rule: msb_loop.induct)
  case (1 v m)
  then have pos: "v > 0" by (simp add: word_neq_0_conv)
  show ?case
  proof (cases "drop_bit 1 v = 0")
    case True
    have "bit (drop_bit 1 v) (j - 1) = bit v j" if "j > 0" for j using that by (simp add: bit_drop_bit_eq)
    then have high: "\<not> bit v j" if "j > 0" for j using that True by fastforce
    moreover have "bit v 0"
    proof (rule ccontr)
      assume "\<not> bit v 0"
      then have "\<not> bit v j" for j using high by (cases j) auto
      then show False using "1.prems" by (auto simp: bit_eq_iff)
    qed
    ultimately have "msb_u64 v = 0" by (intro msb_u64_eqI) auto
    then show ?thesis using True pos by (simp add: msb_loop.simps [of v m] msb_loop.simps [of 0])
  next
    case False
    have "bit v (Suc (msb_u64 (drop_bit 1 v)))"
      using msb_u64_bit(1) [OF False] by (simp add: bit_drop_bit_eq)
    moreover have "\<not> bit v j" if "j > Suc (msb_u64 (drop_bit 1 v))" for j
      using msb_u64_bit(3) [OF False, of "j - 1"] that by (simp add: bit_drop_bit_eq)
    ultimately have "msb_u64 v = Suc (msb_u64 (drop_bit 1 v))" by (rule msb_u64_eqI)
    then show ?thesis using "1.IH" [OF pos False] pos by (simp add: msb_loop.simps [of v m])
  qed
qed

section \<open>Well-formed level data\<close>

text \<open>
  The offsets increase, the bits of a level hold all its cell ids and the number of its cells, the
  mask of a level has exactly its bits, and each bit points to its level.
\<close>

definition level_data_ok :: "nat list \<Rightarrow> LevelData \<Rightarrow> bool" where
  "level_data_ok nums ld \<longleftrightarrow>
     num_level ld = length nums + 1 \<and> length nums < 15 \<and> length (lidx_to_offset ld) = length nums + 1 \<and>
     lidx_to_offset ld ! 0 = 0 \<and>
     (\<forall>i < length nums.
        lidx_to_offset ld ! i \<le> lidx_to_offset ld ! (i + 1) \<and> lidx_to_offset ld ! (i + 1) \<le> 64 \<and>
        lidx_to_offset ld ! (i + 1) \<le> lidx_to_offset ld ! i + 32 \<and>
        nums ! i < 2 ^ (lidx_to_offset ld ! (i + 1) - lidx_to_offset ld ! i) \<and>
        (\<forall>b. bit (lidx_to_mask ld ! i) b \<longleftrightarrow> lidx_to_offset ld ! i \<le> b \<and> b < lidx_to_offset ld ! (i + 1)) \<and>
        (\<forall>b. lidx_to_offset ld ! i \<le> b \<and> b < lidx_to_offset ld ! (i + 1) \<longrightarrow> bit_to_level ld ! b = i + 1))"

lemma MakeLevelOffsets_loop_ok:
  assumes "MakeLevelOffsets_loop nums offs s = Inr os" "\<forall>n \<in> set nums. n < 2 ^ 32" "s \<le> 64"
  shows "length os = length offs + length nums + 1 \<and> length os \<le> 15 \<and> take (length offs) os = offs \<and>
    os ! length offs = s \<and>
    (\<forall>i < length nums. os ! (length offs + i) \<le> os ! (length offs + i + 1) \<and> os ! (length offs + i + 1) \<le> 64 \<and>
       os ! (length offs + i + 1) \<le> os ! (length offs + i) + 32 \<and>
       nums ! i < 2 ^ (os ! (length offs + i + 1) - os ! (length offs + i)))"
  using assms
proof (induction nums arbitrary: offs s)
  case (Cons n ns)
  define s' where "s' = s + ceillog2 (n + 1)"
  have nz: "(n + 1) mod 2 ^ 32 \<noteq> 0" using Cons.prems(1) by (auto split: if_splits)
  have "n + 1 \<noteq> 2 ^ 32" using nz by (intro notI) (simp only: mod_self)
  then have n1: "n + 1 < 2 ^ 32" using Cons.prems(2) by simp
  then have "(n + 1) mod 2 ^ 32 = n + 1" by (rule mod_less)
  then have n: "n + 1 < 2 ^ 32" "s' \<le> 64" and rec: "MakeLevelOffsets_loop ns (offs @ [s]) s' = Inr os"
    using Cons.prems(1) n1 unfolding MakeLevelOffsets_loop.simps s'_def by (auto simp: Let_def split: if_splits)
  have "ceillog2 (n + 1) \<le> 32" using n(1) by (simp add: ceillog2_le_iff)
  moreover have "n < 2 ^ ceillog2 (n + 1)" using le_two_power_ceillog2 [of "n + 1"] by simp
  moreover note IH = Cons.IH [OF rec _ n(2)]
  moreover have "os ! length offs = s"
  proof -
    have "take (length (offs @ [s])) os = offs @ [s]" using IH Cons.prems(2) by simp
    then have "take (length (offs @ [s])) os ! length offs = (offs @ [s]) ! length offs" by (simp only:)
    then show ?thesis by (simp del: take_Suc_conv_app_nth)
  qed
  moreover have "take (length offs) os = offs"
  proof -
    have "take (length offs) (take (length (offs @ [s])) os) = take (length offs) (offs @ [s])" using IH Cons.prems(2) by simp
    then show ?thesis by (simp add: min_def)
  qed
  ultimately show ?case using Cons.prems(2) n(2)
    by (auto simp: s'_def less_Suc_eq_0_disj)
qed (auto split: if_splits)

lemma bit_pow_minus_1: "bit (2 ^ n - 1 :: 64 word) b \<longleftrightarrow> b < n \<and> b < 64"
proof -
  have "2 ^ n - 1 = (Bit_Operations.mask n :: 64 word)" by (simp add: mask_eq_exp_minus_1)
  then show ?thesis by (auto simp: bit_mask_iff)
qed

lemma MakeLevelMasks_ok:
  assumes "MakeLevelMasks os = Inr ms" "\<forall>i. i + 1 < length os \<longrightarrow> os ! i \<le> os ! (i + 1) \<and> os ! (i + 1) \<le> 64"
    "i + 1 < length os"
  shows "bit (ms ! i) b \<longleftrightarrow> os ! i \<le> b \<and> b < os ! (i + 1)"
  using assms
proof (induction os arbitrary: ms i rule: MakeLevelMasks.induct)
  case (1 offset next_offset rest)
  from "1.prems"(1) obtain ms' where rec: "MakeLevelMasks (next_offset # rest) = Inr ms'" "offset < 64"
    and ms: "ms = ((if next_offset = 64 then - 1 else push_bit next_offset 1 - 1) XOR (push_bit offset 1 - 1)) # ms'"
    by (auto simp: Let_def split: if_splits sum.splits)
  have o: "offset \<le> next_offset" "next_offset \<le> 64" using "1.prems"(2) by force+
  have sub: "\<forall>i. i + 1 < length (next_offset # rest) \<longrightarrow>
      (next_offset # rest) ! i \<le> (next_offset # rest) ! (i + 1) \<and> (next_offset # rest) ! (i + 1) \<le> 64"
    using "1.prems"(2) by (metis Suc_eq_plus1 length_Cons not_less_eq nth_Cons_Suc)
  show ?case
  proof (cases i)
    case 0
    then show ?thesis using ms o rec(2) bit_beyond_64 [of b]
      by (auto simp: bit_xor_iff bit_pow_minus_1 not_le)
  next
    case (Suc j)
    then show ?thesis using "1.IH" [OF _ rec(1) sub, of j] "1.prems"(3) rec(2) ms by simp
  qed
qed auto

lemma fold_update_range:
  "length bs = 64 \<Longrightarrow> length (fold (\<lambda>idx bits. bits[idx := l]) [a..<n] bs) = 64 \<and>
   (\<forall>k < 64. fold (\<lambda>idx bits. bits[idx := l]) [a..<n] bs ! k = (if a \<le> k \<and> k < n then l else bs ! k))"
  by (induction n) (auto simp: nth_list_update less_Suc_eq)

lemma MakeBitToLevel_ok:
  assumes "i < n" "\<And>j. j < n \<Longrightarrow> os ! j \<le> os ! Suc j" "os ! i \<le> b" "b < os ! Suc i" "b < 64"
  shows "MakeBitToLevel os (Suc n) ! b = Suc i"
proof -
  let ?step = "\<lambda>l bits. fold (\<lambda>idx bits. bits[idx := l]) [os ! (l - 1)..<64] bits :: nat list"
  have len: "length (fold ?step xs bs) = 64" if "length bs = 64" for xs bs
    using that by (induction xs arbitrary: bs) (simp_all add: fold_update_range)
  have mono: "os ! Suc i \<le> os ! m" if "Suc i \<le> m" "m \<le> n" for m
    using that
  proof (induction m rule: dec_induct)
    case (step m)
    then show ?case using assms(2) [of m] by simp
  qed simp
  have "fold ?step [1..<Suc m] (replicate 64 0) ! b = Suc i" if "Suc i \<le> m" "m \<le> n" for m
    using that
  proof (induction m rule: dec_induct)
    case base
    have "[1..<Suc (Suc i)] = [1..<Suc i] @ [Suc i]" by simp
    then show ?case using assms(3,5) len [of "replicate 64 0" "[1..<Suc i]"] by (simp add: fold_update_range)
  next
    case (step m)
    have "[1..<Suc (Suc m)] = [1..<Suc m] @ [Suc m]" using step.hyps by simp
    moreover have "b < os ! m" using mono [of m] step.hyps step.prems assms(4) by simp
    ultimately show ?case using step len [of "replicate 64 0" "[1..<Suc m]"] assms(5)
      by (simp add: fold_update_range del: upt_Suc)
  qed
  then show ?thesis using assms(1) by (simp add: MakeBitToLevel_def del: upt_Suc)
qed

lemma MakeLevelData_ok:
  assumes "MakeLevelData nums = Inr ld" "\<forall>n \<in> set nums. n < 2 ^ 32"
  shows "level_data_ok nums ld"
proof -
  obtain os ms where os: "MakeLevelOffsets_loop nums [] 0 = Inr os" and ms: "MakeLevelMasks (take (Suc (length nums)) os) = Inr ms"
    and ld: "ld = \<lparr>num_level = Suc (length nums), lidx_to_offset = os, lidx_to_mask = ms,
      bit_to_level = MakeBitToLevel os (Suc (length nums)), lidx_to_children_offsets = replicate 15 0\<rparr>"
    using assms(1) by (auto simp: MakeLevelData_def MakeLevelOffsets_def Let_def split: sum.splits)
  note ok = MakeLevelOffsets_loop_ok [OF os assms(2), simplified]
  have ms': "MakeLevelMasks os = Inr ms" using ms ok by simp
  have b: "MakeBitToLevel os (Suc (length nums)) ! b = Suc i"
    if "i < length nums" "os ! i \<le> b" "b < os ! Suc i" for i b
    using that ok by (intro MakeBitToLevel_ok) (auto intro: less_le_trans)
  show ?thesis
    using ok MakeLevelMasks_ok [OF ms'] b unfolding level_data_ok_def ld by simp
qed

section \<open>Reading and writing the cell of one level\<close>

text \<open>A packed word uses the bits of the levels only.\<close>

definition packed :: "nat list \<Rightarrow> LevelData \<Rightarrow> 64 word \<Rightarrow> bool" where
  "packed nums ld p \<longleftrightarrow> (\<forall>b. bit p b \<longrightarrow> b < lidx_to_offset ld ! length nums)"

lemma level_dataD:
  assumes "level_data_ok nums ld" "1 \<le> l" "l \<le> length nums"
  shows "lidx_to_offset ld ! (l - 1) \<le> lidx_to_offset ld ! l" "lidx_to_offset ld ! l \<le> 64"
    "lidx_to_offset ld ! l \<le> lidx_to_offset ld ! (l - 1) + 32"
    "nums ! (l - 1) < 2 ^ (lidx_to_offset ld ! l - lidx_to_offset ld ! (l - 1))"
    "bit (lidx_to_mask ld ! (l - 1)) b \<longleftrightarrow> lidx_to_offset ld ! (l - 1) \<le> b \<and> b < lidx_to_offset ld ! l"
    "lidx_to_offset ld ! (l - 1) \<le> b \<Longrightarrow> b < lidx_to_offset ld ! l \<Longrightarrow> bit_to_level ld ! b = l"
  using assms unfolding level_data_ok_def by (cases l; simp)+

lemma offset_mono:
  assumes "level_data_ok nums ld" "i \<le> j" "j \<le> length nums"
  shows "lidx_to_offset ld ! i \<le> lidx_to_offset ld ! j"
  using assms(2,3)
proof (induction j rule: dec_induct)
  case (step m)
  then show ?case using level_dataD(1) [OF assms(1), of "Suc m"] by simp
qed simp

text \<open>Every used bit belongs to a level.\<close>

lemma bit_level:
  assumes "level_data_ok nums ld" "b < lidx_to_offset ld ! length nums"
  obtains l where "1 \<le> l" "l \<le> length nums" "lidx_to_offset ld ! (l - 1) \<le> b" "b < lidx_to_offset ld ! l"
proof -
  have "\<exists>l. 1 \<le> l \<and> l \<le> m \<and> lidx_to_offset ld ! (l - 1) \<le> b \<and> b < lidx_to_offset ld ! l"
    if "b < lidx_to_offset ld ! m" "m \<le> length nums" for m
    using that
  proof (induction m)
    case 0 then show ?case using assms(1) by (simp add: level_data_ok_def)
  next
    case (Suc m)
    then show ?case
    proof (cases "b < lidx_to_offset ld ! m")
      case True
      with Suc obtain l where "1 \<le> l" "l \<le> m" "lidx_to_offset ld ! (l - 1) \<le> b" "b < lidx_to_offset ld ! l" by auto
      then show ?thesis by (intro exI [of _ l]) simp
    next
      case False
      with Suc.prems show ?thesis by (intro exI [of _ "Suc m"]) simp
    qed
  qed
  from this [OF assms(2) order_refl] show thesis using that by blast
qed

lemma bit_unat_mod: "bit (unat (v :: 64 word) mod 2 ^ 32) n \<longleftrightarrow> n < 32 \<and> bit v n"
  by (simp only: take_bit_eq_mod [symmetric] bit_take_bit_iff bit_unsigned_iff) simp

lemma bit_cell_of:
  assumes "level_data_ok nums ld" "1 \<le> l" "l \<le> length nums"
  shows "bit (cell_of ld l p) n \<longleftrightarrow>
    lidx_to_offset ld ! (l - 1) + n < lidx_to_offset ld ! l \<and> bit p (lidx_to_offset ld ! (l - 1) + n)"
proof -
  let ?o = "lidx_to_offset ld ! (l - 1)"
  have "bit (cell_of ld l p) n \<longleftrightarrow> n < 32 \<and> bit (drop_bit ?o (p AND lidx_to_mask ld ! (l - 1))) n"
    using assms(2) by (simp only: cell_of_def LevelIDToIndex_def Let_def bit_unat_mod) simp
  also have "\<dots> \<longleftrightarrow> ?o + n < lidx_to_offset ld ! l \<and> bit p (?o + n)"
    using level_dataD(3) [OF assms] by (auto simp: bit_drop_bit_eq bit_and_iff level_dataD(5) [OF assms] simp del: One_nat_def)
  finally show ?thesis .
qed

lemma cell_of_cong:
  assumes "level_data_ok nums ld" "1 \<le> l" "l \<le> length nums"
    "\<And>b. lidx_to_offset ld ! (l - 1) \<le> b \<Longrightarrow> b < lidx_to_offset ld ! l \<Longrightarrow> bit p b = bit q b"
  shows "cell_of ld l p = cell_of ld l q"
  by (rule bit_eqI) (use assms in \<open>auto simp: bit_cell_of\<close>)

lemma cell_of_differ:
  assumes "level_data_ok nums ld" "1 \<le> l" "l \<le> length nums"
    "lidx_to_offset ld ! (l - 1) \<le> b" "b < lidx_to_offset ld ! l" "bit p b \<noteq> bit q b"
  shows "cell_of ld l p \<noteq> cell_of ld l q"
proof
  assume "cell_of ld l p = cell_of ld l q"
  then have "bit (cell_of ld l p) (b - lidx_to_offset ld ! (l - 1)) = bit (cell_of ld l q) (b - lidx_to_offset ld ! (l - 1))"
    by simp
  then show False using assms(4-6) by (simp add: bit_cell_of [OF assms(1-3)])
qed

text \<open>Writing a cell that fits changes the bits of its level only, and reads back.\<close>

lemma bit_set_cell:
  assumes "level_data_ok nums ld" "1 \<le> l" "l \<le> length nums"
    "c < 2 ^ (lidx_to_offset ld ! l - lidx_to_offset ld ! (l - 1))"
  shows "bit (set_cell ld l c p) b \<longleftrightarrow>
    (if lidx_to_offset ld ! (l - 1) \<le> b \<and> b < lidx_to_offset ld ! l then bit c (b - lidx_to_offset ld ! (l - 1)) else bit p b)"
proof -
  let ?o = "lidx_to_offset ld ! (l - 1)" and ?o' = "lidx_to_offset ld ! l"
  have high: "n < ?o' - ?o" if "bit c n" for n
  proof (rule ccontr)
    assume "\<not> n < ?o' - ?o"
    then have "c < 2 ^ n" using assms(4) less_le_trans [OF assms(4) power_increasing [of "?o' - ?o" n 2]] by simp
    then show False using that by (simp add: bit_iff_odd)
  qed
  have sh: "bit (push_bit ?o (of_nat c) :: 64 word) b \<longleftrightarrow> ?o \<le> b \<and> b < ?o' \<and> bit c (b - ?o)"
    using high [of "b - ?o"] level_dataD(1,2) [OF assms(1-3)] by (auto simp: bit_push_bit_iff bit_of_nat_iff)
  have "bit (set_cell ld l c p) b \<longleftrightarrow> (bit p b \<and> \<not> bit (lidx_to_mask ld ! (l - 1)) b) \<or> bit (push_bit ?o (of_nat c) :: 64 word) b"
    using assms(2) bit_imp_le_length [of p b]
    by (auto simp: set_cell_def LevelIDToIndex_def Let_def bit_or_iff bit_and_iff bit_not_iff simp del: One_nat_def)
  then show ?thesis unfolding sh level_dataD(5) [OF assms(1-3)] by auto
qed

lemma cell_of_set_cell:
  assumes "level_data_ok nums ld" "1 \<le> l" "l \<le> length nums" "1 \<le> l'" "l' \<le> length nums"
    "c < 2 ^ (lidx_to_offset ld ! l - lidx_to_offset ld ! (l - 1))"
  shows "cell_of ld l' (set_cell ld l c p) = (if l' = l then c else cell_of ld l' p)"
proof (cases "l' = l")
  case True
  have "bit c n \<Longrightarrow> lidx_to_offset ld ! (l - 1) + n < lidx_to_offset ld ! l" for n
  proof (rule ccontr)
    assume "bit c n" "\<not> lidx_to_offset ld ! (l - 1) + n < lidx_to_offset ld ! l"
    then have "c < 2 ^ n"
      using less_le_trans [OF assms(6) power_increasing [of "lidx_to_offset ld ! l - lidx_to_offset ld ! (l - 1)" n 2]] by simp
    with \<open>bit c n\<close> show False by (simp add: bit_iff_odd)
  qed
  then have "cell_of ld l (set_cell ld l c p) = c"
    by (intro bit_eqI) (auto simp: bit_cell_of [OF assms(1-3)] bit_set_cell [OF assms(1-3,6)])
  then show ?thesis using True by simp
next
  case False
  have "cell_of ld l' (set_cell ld l c p) = cell_of ld l' p"
  proof (rule cell_of_cong [OF assms(1,4,5)])
    fix b assume b: "lidx_to_offset ld ! (l' - 1) \<le> b" "b < lidx_to_offset ld ! l'"
    have "\<not> (lidx_to_offset ld ! (l - 1) \<le> b \<and> b < lidx_to_offset ld ! l)"
    proof (cases "l' < l")
      case True
      then have "lidx_to_offset ld ! l' \<le> lidx_to_offset ld ! (l - 1)"
        using assms(3) by (intro offset_mono [OF assms(1)]) auto
      then show ?thesis using b by simp
    next
      case False
      then have "lidx_to_offset ld ! l \<le> lidx_to_offset ld ! (l' - 1)"
        using \<open>l' \<noteq> l\<close> assms(5) by (intro offset_mono [OF assms(1)]) auto
      then show ?thesis using b by simp
    qed
    then show "bit (set_cell ld l c p) b = bit p b" unfolding bit_set_cell [OF assms(1-3,6)] by (rule if_not_P)
  qed
  then show ?thesis using False by simp
qed

lemma packed_set_cell:
  assumes "level_data_ok nums ld" "1 \<le> l" "l \<le> length nums" "packed nums ld p"
    "c < 2 ^ (lidx_to_offset ld ! l - lidx_to_offset ld ! (l - 1))"
  shows "packed nums ld (set_cell ld l c p)"
  using assms(4) offset_mono [OF assms(1,3)]
  by (auto simp: packed_def bit_set_cell [OF assms(1-3,5)] split: if_splits)

section \<open>The highest level on which two nodes differ\<close>

lemma highest_level:
  assumes "level_data_ok nums ld" "packed nums ld p" "packed nums ld q" "p \<noteq> q"
  shows "\<exists>l. bit_to_level ld ! msb_u64 (p XOR q) = l \<and> 1 \<le> l \<and> l \<le> length nums \<and> cell_of ld l p \<noteq> cell_of ld l q
    \<and> (\<forall>l'. l < l' \<and> l' \<le> length nums \<longrightarrow> cell_of ld l' p = cell_of ld l' q)"
proof -
  let ?b = "msb_u64 (p XOR q)"
  have "p XOR q \<noteq> 0" using assms(4) by (auto simp: bit_eq_iff bit_xor_iff)
  note m = msb_u64_bit [OF this]
  have diff: "bit p ?b \<noteq> bit q ?b" using m(1) by (simp add: bit_xor_iff)
  then have "?b < lidx_to_offset ld ! length nums" using assms(2,3) unfolding packed_def by blast
  then obtain l where l: "1 \<le> l" "l \<le> length nums" "lidx_to_offset ld ! (l - 1) \<le> ?b" "?b < lidx_to_offset ld ! l"
    using bit_level [OF assms(1)] by blast
  have "cell_of ld l' p = cell_of ld l' q" if "l < l'" "l' \<le> length nums" for l'
  proof (rule cell_of_cong [OF assms(1) _ that(2)])
    fix b assume "lidx_to_offset ld ! (l' - 1) \<le> b"
    moreover have "lidx_to_offset ld ! l \<le> lidx_to_offset ld ! (l' - 1)"
      using that by (intro offset_mono [OF assms(1)]) auto
    ultimately have "?b < b" using l(4) by simp
    then show "bit p b = bit q b" using m(3) by (simp add: bit_xor_iff)
  qed (use that in simp)
  then show ?thesis using l level_dataD(6) [OF assms(1) l] cell_of_differ [OF assms(1) l diff] by blast
qed

section \<open>The order of the nodes\<close>

text \<open>Sorting stably by one key after another orders lexicographically, the last key first.\<close>

fun lex_le :: "('a \<Rightarrow> nat) list \<Rightarrow> 'a \<Rightarrow> 'a \<Rightarrow> bool" where
  "lex_le [] u v = True"
| "lex_le (k # ks) u v = (k u < k v \<or> k u = k v \<and> lex_le ks u v)"

lemma lex_le_Cons: "lex_le (k # ks) = (\<lambda>u v. k u < k v \<or> k u = k v \<and> lex_le ks u v)"
  by (intro ext) simp

lemma insort_key_lex:
  assumes "sorted_wrt (\<lambda>x y. f x < f y \<or> f x = f y \<and> R x y) ys" "\<forall>y \<in> set ys. R x y"
  shows "sorted_wrt (\<lambda>x y. f x < (f y :: nat) \<or> f x = f y \<and> R x y) (insort_key f x ys)"
  using assms
proof (induction ys)
  case (Cons y ys)
  then show ?case by (cases "f x \<le> f y") (auto simp: set_insort_key)
qed simp

lemma sort_key_lex:
  "sorted_wrt R xs \<Longrightarrow> sorted_wrt (\<lambda>x y. f x < (f y :: nat) \<or> f x = f y \<and> R x y) (sort_key f xs)"
  by (induction xs) (auto intro: insort_key_lex)

lemma sort_nodes_set:
  "set (sort_nodes ps perm) = set perm \<and> distinct (sort_nodes ps perm) = distinct perm
    \<and> length (sort_nodes ps perm) = length perm"
  unfolding sort_nodes_def by (induction ps arbitrary: perm) auto

lemma sort_nodes_lex:
  "sorted_wrt (lex_le ks) perm \<Longrightarrow> sorted_wrt (lex_le (rev (map (\<lambda>p n. p ! n) ps) @ ks)) (sort_nodes ps perm)"
  unfolding sort_nodes_def
proof (induction ps arbitrary: perm ks)
  case (Cons p ps)
  have "sorted_wrt (lex_le ((\<lambda>n. p ! n) # ks)) (sort_key (\<lambda>n. p ! n) perm)"
    using sort_key_lex [OF Cons.prems, of "\<lambda>n. p ! n"] by (simp only: lex_le_Cons)
  from Cons.IH [OF this] show ?case by simp
qed simp

lemma lex_le_append: "lex_le (as @ bs) u v \<Longrightarrow> lex_le as u v"
  by (induction as) auto

lemma lex_le_between:
  "lex_le ks u v \<Longrightarrow> lex_le ks v w \<Longrightarrow> \<forall>k \<in> set ks. k u = k w \<Longrightarrow> \<forall>k \<in> set ks. k u = k v"
proof (induction ks)
  case (Cons k ks)
  have "k u = k w" using Cons.prems(3) by simp
  moreover have "k u \<le> k v" "k v \<le> k w" using Cons.prems(1,2) by auto
  ultimately have k: "k u = k v" "k v = k w" by auto
  then have "lex_le ks u v" "lex_le ks v w" using Cons.prems(1,2) by auto
  then show ?case using Cons.IH Cons.prems(3) k by simp
qed simp

text \<open>A list is grouped when equal elements are adjacent.\<close>

definition grouped :: "'a list \<Rightarrow> bool" where
  "grouped ks \<longleftrightarrow> (\<forall>i j k. i < j \<and> j < k \<and> k < length ks \<and> ks ! i = ks ! k \<longrightarrow> ks ! j = ks ! i)"

definition nested :: "nat \<Rightarrow> nat list list \<Rightarrow> bool" where
  "nested num_nodes ps \<longleftrightarrow> (\<forall>m. Suc m < length ps \<longrightarrow> (\<forall>u < num_nodes. \<forall>v < num_nodes.
     ps ! m ! u = ps ! m ! v \<longrightarrow> ps ! Suc m ! u = ps ! Suc m ! v))"

lemma nested_above:
  assumes "nested n ps" "u < n" "v < n" "ps ! m ! u = ps ! m ! v" "m \<le> m'" "m' < length ps"
  shows "ps ! m' ! u = ps ! m' ! v"
  using assms(5,6)
proof (induction m' rule: dec_induct)
  case (step k)
  then have "ps ! k ! u = ps ! k ! v" "Suc k < length ps" by simp_all
  then show ?case using assms(1-3) unfolding nested_def by blast
qed (rule assms(4))

lemma sort_nodes_grouped:
  assumes "nested n ps" "m < length ps"
  shows "grouped (map (\<lambda>v. ps ! m ! v) (sort_nodes ps [0..<n]))"
  unfolding grouped_def
proof (intro allI impI, elim conjE)
  fix i j k
  let ?perm = "sort_nodes ps [0..<n]"
  let ?A = "rev (map (\<lambda>p n. p ! n) (drop m ps))"
  assume ijk: "i < j" "j < k" "k < length (map (\<lambda>v. ps ! m ! v) ?perm)"
    and eq: "map (\<lambda>v. ps ! m ! v) ?perm ! i = map (\<lambda>v. ps ! m ! v) ?perm ! k"
  have len: "k < length ?perm" using ijk by simp
  have range: "?perm ! x < n" if "x < length ?perm" for x
    using nth_mem [OF that] sort_nodes_set [of ps "[0..<n]"] by simp
  have "sorted_wrt (lex_le []) [0..<n]" by (simp add: sorted_wrt_iff_nth_less)
  from sort_nodes_lex [OF this, of ps] have "sorted_wrt (lex_le (rev (map (\<lambda>p n. p ! n) ps))) ?perm" by simp
  moreover have "rev (map (\<lambda>p n. p ! n) ps) = ?A @ rev (map (\<lambda>p n. p ! n) (take m ps))"
    by (metis append_take_drop_id map_append rev_append)
  ultimately have "lex_le ?A (?perm ! x) (?perm ! y)" if "x < y" "y < length ?perm" for x y
    using that lex_le_append by (metis sorted_wrt_iff_nth_less)
  then have "lex_le ?A (?perm ! i) (?perm ! j)" "lex_le ?A (?perm ! j) (?perm ! k)" using ijk len by auto
  moreover have "\<forall>f \<in> set ?A. f (?perm ! i) = f (?perm ! k)"
  proof
    fix f assume "f \<in> set ?A"
    then obtain d where "d < length (drop m ps)" "f = (\<lambda>n. drop m ps ! d ! n)" by (auto simp: in_set_conv_nth)
    moreover from this(1) have "drop m ps ! d = ps ! (m + d)" "m + d < length ps" using assms(2) by simp_all
    ultimately show "f (?perm ! i) = f (?perm ! k)"
      using nested_above [OF assms(1), of "?perm ! i" "?perm ! k" m "m + d"] range eq ijk len by simp
  qed
  ultimately have all: "\<forall>f \<in> set ?A. f (?perm ! i) = f (?perm ! j)" by (rule lex_le_between)
  have "(\<lambda>n. ps ! m ! n) \<in> set ?A" using assms(2) by (force simp: in_set_conv_nth intro: exI [of _ 0])
  with all have "ps ! m ! (?perm ! i) = ps ! m ! (?perm ! j)" by blast
  then show "map (\<lambda>v. ps ! m ! v) ?perm ! j = map (\<lambda>v. ps ! m ! v) ?perm ! i" using ijk len by simp
qed

section \<open>Numbering the runs of a grouped list\<close>

text \<open>A change of value in a grouped list is the first occurrence of the new value.\<close>

fun fresh_runs :: "'a \<Rightarrow> 'a set \<Rightarrow> 'a list \<Rightarrow> bool" where
  "fresh_runs prev seen [] = True"
| "fresh_runs prev seen (k # ks) = ((k \<noteq> prev \<longrightarrow> k \<notin> seen) \<and> fresh_runs k (insert k seen) ks)"

lemma grouped_fresh_runs:
  assumes "grouped (pre @ ks)" "pre \<noteq> []"
  shows "fresh_runs (last pre) (set pre) ks"
  using assms
proof (induction ks arbitrary: pre)
  case (Cons k ks)
  have "k \<notin> set pre" if "k \<noteq> last pre"
  proof
    assume "k \<in> set pre"
    then obtain i where i: "i < length pre" "pre ! i = k" by (auto simp: in_set_conv_nth)
    have "i \<noteq> length pre - 1" using i that Cons.prems(2) by (auto simp: last_conv_nth)
    with i have "i < length pre - 1" "length pre - 1 < length pre" by auto
    with Cons.prems i have "(pre @ k # ks) ! (length pre - 1) = (pre @ k # ks) ! i"
      unfolding grouped_def by (elim allE [of _ i] allE [of _ "length pre - 1"] allE [of _ "length pre"]) (simp add: nth_append)
    then show False using i that Cons.prems(2) by (auto simp: nth_append last_conv_nth)
  qed
  moreover have "fresh_runs k (insert k (set pre)) ks" using Cons.IH [of "pre @ [k]"] Cons.prems by simp
  ultimately show ?case by simp
qed simp

lemma grouped_Cons_hd:
  assumes "grouped ks" "ks \<noteq> []" shows "grouped (hd ks # ks)"
  unfolding grouped_def
proof (intro allI impI, elim conjE)
  fix i j k
  have nth: "(hd ks # ks) ! x = ks ! (x - 1)" for x using assms(2) by (cases x) (simp_all add: hd_conv_nth)
  assume ijk: "i < j" "j < k" "k < length (hd ks # ks)" and eq: "(hd ks # ks) ! i = (hd ks # ks) ! k"
  show "(hd ks # ks) ! j = (hd ks # ks) ! i"
  proof (cases "j - 1 = i - 1")
    case False
    then have "i - 1 < j - 1" "j - 1 < k - 1" "k - 1 < length ks" using ijk by auto
    moreover have "ks ! (i - 1) = ks ! (k - 1)" using eq unfolding nth .
    ultimately have "ks ! (j - 1) = ks ! (i - 1)" using assms(1) unfolding grouped_def by blast
    then show ?thesis unfolding nth .
  qed (simp only: nth)
qed

lemma grouped_runs: "grouped ks \<Longrightarrow> ks \<noteq> [] \<Longrightarrow> fresh_runs (hd ks) {hd ks} ks"
  using grouped_fresh_runs [of "[hd ks]" ks] grouped_Cons_hd [of ks] by simp

text \<open>The number of a run: how many values came before.\<close>

definition run_number :: "'a list \<Rightarrow> nat \<Rightarrow> nat" where
  "run_number ks i = card (set (take (Suc i) ks)) - 1"

lemma run_number_mono: "i \<le> j \<Longrightarrow> run_number ks i \<le> run_number ks j"
  unfolding run_number_def by (intro diff_le_mono card_mono) (auto intro: set_take_subset_set_take [THEN subsetD])

lemma run_number_eq:
  assumes "grouped ks" "i < length ks" "j < length ks"
  shows "run_number ks i = run_number ks j \<longleftrightarrow> ks ! i = ks ! j"
proof -
  have *: "run_number ks i = run_number ks j \<longleftrightarrow> ks ! i = ks ! j" if "i < j" "j < length ks" for i j
  proof
    let ?S = "\<lambda>i. set (take (Suc i) ks)"
    assume "run_number ks i = run_number ks j"
    moreover have "card (?S i) > 0" "card (?S j) > 0" using that by (auto simp: card_gt_0_iff)
    ultimately have "card (?S i) = card (?S j)" unfolding run_number_def by simp
    moreover have "?S i \<subseteq> ?S j" using that by (intro set_take_subset_set_take) simp
    ultimately have "?S i = ?S j" by (intro card_subset_eq) auto
    moreover have "ks ! j \<in> ?S j" using that by (auto simp: in_set_conv_nth)
    ultimately have "ks ! j \<in> ?S i" by simp
    then obtain i' where "i' < length (take (Suc i) ks)" "take (Suc i) ks ! i' = ks ! j" unfolding in_set_conv_nth by blast
    then have i': "i' \<le> i" "ks ! i' = ks ! j" by simp_all
    show "ks ! i = ks ! j"
    proof (cases "i' = i")
      case False
      then have "ks ! i = ks ! i'" using i' that assms(1) unfolding grouped_def by (meson le_neq_implies_less)
      then show ?thesis using i' by simp
    qed (use i' in simp)
  next
    assume eq: "ks ! i = ks ! j"
    have same: "ks ! x = ks ! i" if "i < x" "x \<le> j" for x
    proof (cases "x = j")
      case False
      then have "x < j" using that by simp
      then show ?thesis using assms(1) eq that(1) \<open>j < length ks\<close> unfolding grouped_def by blast
    qed (use eq in simp)
    have mem: "ks ! x \<in> set (take (Suc i) ks)" if "x \<le> i" for x
      using that \<open>i < j\<close> \<open>j < length ks\<close> by (auto simp: in_set_conv_nth intro!: exI [of _ x])
    have "set (take (Suc j) ks) \<subseteq> set (take (Suc i) ks)"
    proof
      fix y assume "y \<in> set (take (Suc j) ks)"
      then obtain x where x: "x < length (take (Suc j) ks)" "take (Suc j) ks ! x = y" unfolding in_set_conv_nth by blast
      then have "x \<le> j" "ks ! x = y" by simp_all
      then show "y \<in> set (take (Suc i) ks)" using mem [of x] mem [of i] same [of x] by (cases "x \<le> i") auto
    qed
    moreover have "set (take (Suc i) ks) \<subseteq> set (take (Suc j) ks)" using that by (intro set_take_subset_set_take) simp
    ultimately have "set (take (Suc j) ks) = set (take (Suc i) ks)" by (rule subset_antisym)
    then show "run_number ks i = run_number ks j" by (simp add: run_number_def)
  qed
  show ?thesis using * [of i j] * [of j i] assms(2,3) by (metis linorder_less_linear)
qed

section \<open>Assigning the cells\<close>

text \<open>One step of the loop, whether or not a new cell starts.\<close>

lemma assign_loop_Cons:
  assumes "fresh_runs prev S (part ! node # ks)" "finite S" "prev \<in> S" "card (insert (part ! node) S) \<le> 2 ^ 32"
  shows "assign_loop ld part l (node # nodes) prev (card S - 1) ids =
    assign_loop ld part l nodes (part ! node) (card (insert (part ! node) S) - 1)
      (SetCellID ld l node (card (insert (part ! node) S) - 1) ids)"
proof (cases "part ! node = prev")
  case True
  then show ?thesis using assms(3) by (simp add: insert_absorb)
next
  case False
  then have new: "card (insert (part ! node) S) = Suc (card S)" using assms(1,2) by simp
  have "card S > 0" using assms(2,3) by (auto simp: card_gt_0_iff)
  then have "(card S - 1 + 1) mod 2 ^ 32 = card (insert (part ! node) S) - 1" using assms(4) unfolding new by simp
  then show ?thesis using False by (simp only: assign_loop.simps if_True not_sym [OF False] simp_thms)
qed

lemma assign_loop_spec:
  assumes "fresh_runs prev S (map (\<lambda>n. part ! n) rest)" "finite S" "prev \<in> S"
    "card (S \<union> (\<lambda>n. part ! n) ` set rest) \<le> 2 ^ 32" "distinct rest" "\<forall>n \<in> set rest. n < length ids"
  shows "fst (assign_loop ld part l rest prev (card S - 1) ids) = card (S \<union> (\<lambda>n. part ! n) ` set rest) - 1 \<and>
    length (snd (assign_loop ld part l rest prev (card S - 1) ids)) = length ids \<and>
    (\<forall>i < length rest. snd (assign_loop ld part l rest prev (card S - 1) ids) ! (rest ! i) =
       set_cell ld l (card (S \<union> set (take (Suc i) (map (\<lambda>n. part ! n) rest))) - 1) (ids ! (rest ! i))) \<and>
    (\<forall>n. n \<notin> set rest \<longrightarrow> snd (assign_loop ld part l rest prev (card S - 1) ids) ! n = ids ! n)"
  using assms
proof (induction rest arbitrary: prev S ids)
  case (Cons node nodes)
  define S' where "S' = insert (part ! node) S"
  define ids1 where "ids1 = SetCellID ld l node (card S' - 1) ids"
  have un: "S' \<union> X = S \<union> insert (part ! node) X" for X by (auto simp: S'_def)
  have un2: "S \<union> (\<lambda>n. part ! n) ` set (node # nodes) = S' \<union> (\<lambda>n. part ! n) ` set nodes" by (auto simp: S'_def)
  have fin: "finite S'" using Cons.prems(2) by (simp add: S'_def)
  have "card S' \<le> card (S' \<union> (\<lambda>n. part ! n) ` set nodes)" using fin by (intro card_mono) auto
  then have c: "card S' \<le> 2 ^ 32" using Cons.prems(4) unfolding un2 by linarith
  have step: "assign_loop ld part l (node # nodes) prev (card S - 1) ids = assign_loop ld part l nodes (part ! node) (card S' - 1) ids1"
    unfolding S'_def ids1_def using Cons.prems(1-3) c unfolding S'_def by (intro assign_loop_Cons) auto
  have IH: "fst (assign_loop ld part l nodes (part ! node) (card S' - 1) ids1) = card (S' \<union> (\<lambda>n. part ! n) ` set nodes) - 1 \<and>
    length (snd (assign_loop ld part l nodes (part ! node) (card S' - 1) ids1)) = length ids1 \<and>
    (\<forall>i < length nodes. snd (assign_loop ld part l nodes (part ! node) (card S' - 1) ids1) ! (nodes ! i) =
       set_cell ld l (card (S' \<union> set (take (Suc i) (map (\<lambda>n. part ! n) nodes))) - 1) (ids1 ! (nodes ! i))) \<and>
    (\<forall>n. n \<notin> set nodes \<longrightarrow> snd (assign_loop ld part l nodes (part ! node) (card S' - 1) ids1) ! n = ids1 ! n)"
    using Cons.prems fin unfolding un2 by (intro Cons.IH) (auto simp: S'_def ids1_def SetCellID_def)
  have ids1: "length ids1 = length ids" "ids1 ! node = set_cell ld l (card S' - 1) (ids ! node)"
    "n \<noteq> node \<Longrightarrow> ids1 ! n = ids ! n" for n
    using Cons.prems(6) by (simp_all add: ids1_def SetCellID_def)
  show ?case unfolding step un2
  proof (intro conjI allI impI)
    fix i assume i: "i < length (node # nodes)"
    show "snd (assign_loop ld part l nodes (part ! node) (card S' - 1) ids1) ! ((node # nodes) ! i) =
        set_cell ld l (card (S \<union> set (take (Suc i) (map (\<lambda>n. part ! n) (node # nodes)))) - 1) (ids ! ((node # nodes) ! i))"
    proof (cases i)
      case 0
      then show ?thesis using IH Cons.prems(5) ids1(2) by (simp add: S'_def)
    next
      case (Suc j)
      then have j: "j < length nodes" using i by simp
      then have "nodes ! j \<noteq> node" using Cons.prems(5) nth_mem by fastforce
      then have "ids1 ! (nodes ! j) = ids ! (nodes ! j)" by (rule ids1(3))
      then show ?thesis using IH j Suc un by simp
    qed
  qed (use IH ids1 in auto)
qed simp

definition assigned :: "LevelData \<Rightarrow> nat list \<Rightarrow> nat list \<Rightarrow> nat \<Rightarrow> 64 word list \<Rightarrow> bool" where
  "assigned ld part perm l ids \<longleftrightarrow>
     (\<forall>i < length perm. cell_of ld l (ids ! (perm ! i)) = run_number (map (\<lambda>n. part ! n) perm) i) \<and>
     cell_of ld l (ids ! length perm) = card ((\<lambda>n. part ! n) ` set perm)"

lemma run_number_less: "i < length ks \<Longrightarrow> run_number ks i < card (set ks)"
proof -
  assume i: "i < length ks"
  then have "card (set (take (Suc i) ks)) > 0" by (auto simp: card_gt_0_iff)
  moreover have "card (set (take (Suc i) ks)) \<le> card (set ks)" by (intro card_mono) (auto dest: in_set_takeD)
  ultimately show ?thesis by (simp add: run_number_def)
qed

lemma assign_level_words:
  assumes ok: "level_data_ok nums ld" and l: "1 \<le> l" "l \<le> length nums"
    and perm: "perm \<noteq> []" "distinct perm" "set perm = {0..<length perm}" and len: "length ids = length perm + 1"
    and g: "grouped (map (\<lambda>n. part ! n) perm)" and cells: "card ((\<lambda>n. part ! n) ` set perm) \<le> nums ! (l - 1)"
  shows "length (assign_level ld part l perm (length perm) ids) = length ids \<and>
    (\<forall>u < length ids. \<exists>x. assign_level ld part l perm (length perm) ids ! u = set_cell ld l x (ids ! u) \<and>
      x \<le> card ((\<lambda>n. part ! n) ` set perm) \<and> (u = length perm \<longrightarrow> x = card ((\<lambda>n. part ! n) ` set perm)) \<and>
      (\<forall>i < length perm. u = perm ! i \<longrightarrow> x = run_number (map (\<lambda>n. part ! n) perm) i))"
proof -
  let ?k = "\<lambda>n. part ! n" and ?ks = "map (\<lambda>n. part ! n) perm" and ?C = "card ((\<lambda>n. part ! n) ` set perm)"
  obtain c ids1 where loop: "assign_loop ld part l perm (?k (hd perm)) 0 ids = (c, ids1)" by fastforce
  define ids' where "ids' = SetCellID ld l (length perm) ((c + 1) mod 2 ^ 32) ids1"
  have res: "assign_level ld part l perm (length perm) ids = ids'" using loop by (simp add: assign_level_def ids'_def)
  have bits: "nums ! (l - 1) < 2 ^ (lidx_to_offset ld ! l - lidx_to_offset ld ! (l - 1))" by (rule level_dataD(4) [OF ok l])
  have "(2::nat) ^ (lidx_to_offset ld ! l - lidx_to_offset ld ! (l - 1)) \<le> 2 ^ 32"
    using level_dataD(3) [OF ok l] by (intro power_increasing) auto
  then have small: "?C < 2 ^ 32" using bits cells by linarith
  have hd: "hd ?ks = ?k (hd perm)" "?ks \<noteq> []" using perm(1) by (auto simp: hd_map)
  have ins: "{?k (hd perm)} \<union> set (take (Suc i) ?ks) = set (take (Suc i) ?ks)" for i
    using perm(1) by (cases perm) auto
  have ins': "{?k (hd perm)} \<union> ?k ` set perm = ?k ` set perm" using perm(1) by auto
  have fr: "fresh_runs (?k (hd perm)) {?k (hd perm)} ?ks" using grouped_runs [OF g hd(2)] hd(1) by simp
  note spec = assign_loop_spec [OF fr, of ids ld l, unfolded ins ins', simplified card_1_singleton_iff]
  have spec: "c = ?C - 1" "length ids1 = length ids"
    "i < length perm \<Longrightarrow> ids1 ! (perm ! i) = set_cell ld l (run_number ?ks i) (ids ! (perm ! i))"
    "n \<notin> set perm \<Longrightarrow> ids1 ! n = ids ! n" for i n
    using spec loop small perm len by (auto simp: run_number_def)
  have "?C > 0" using perm(1) by (auto simp: card_gt_0_iff)
  then have c1: "(c + 1) mod 2 ^ 32 = ?C" using small spec(1) by simp
  have in_perm: "perm ! i < length perm" if "i < length perm" for i using nth_mem [OF that] perm(3) by simp
  have new: "\<exists>x. ids' ! u = set_cell ld l x (ids ! u) \<and> x \<le> ?C \<and> (u = length perm \<longrightarrow> x = ?C) \<and>
      (\<forall>i < length perm. u = perm ! i \<longrightarrow> x = run_number ?ks i)" if u: "u < length ids" for u
  proof (cases "u = length perm")
    case True
    then have "ids' ! u = set_cell ld l ?C (ids ! u)"
      using spec(2) spec(4) [of u] perm(3) len c1 by (simp add: ids'_def SetCellID_def)
    then show ?thesis using True in_perm by (intro exI [of _ ?C]) fastforce
  next
    case False
    then have "u \<in> set perm" using u len perm(3) by simp
    then obtain i where i: "i < length perm" "perm ! i = u" by (auto simp: in_set_conv_nth)
    have "ids' ! u = set_cell ld l (run_number ?ks i) (ids ! u)"
      using spec(3) [OF i(1)] i(2) False by (simp add: ids'_def SetCellID_def)
    moreover have "run_number ?ks i < ?C" using run_number_less [of i ?ks] i(1) by simp
    ultimately show ?thesis
      using False i perm(2) by (intro exI [of _ "run_number ?ks i"]) (auto simp: nth_eq_iff_index_eq)
  qed
  have "length ids' = length ids" using spec(2) by (simp add: ids'_def SetCellID_def)
  then show ?thesis unfolding res using new by (intro conjI allI impI)
qed

lemma assign_level_spec:
  assumes ok: "level_data_ok nums ld" and l: "1 \<le> l" "l \<le> length nums"
    and perm: "perm \<noteq> []" "distinct perm" "set perm = {0..<length perm}" and len: "length ids = length perm + 1"
    and g: "grouped (map (\<lambda>n. part ! n) perm)" and cells: "card ((\<lambda>n. part ! n) ` set perm) \<le> nums ! (l - 1)"
    and packed: "\<forall>p \<in> set ids. packed nums ld p"
  shows "length (assign_level ld part l perm (length perm) ids) = length ids \<and>
    assigned ld part perm l (assign_level ld part l perm (length perm) ids) \<and>
    (\<forall>p \<in> set (assign_level ld part l perm (length perm) ids). packed nums ld p) \<and>
    (\<forall>l' u. 1 \<le> l' \<and> l' \<le> length nums \<and> l' \<noteq> l \<and> u < length ids \<longrightarrow>
       cell_of ld l' (assign_level ld part l perm (length perm) ids ! u) = cell_of ld l' (ids ! u))"
proof -
  let ?ks = "map (\<lambda>n. part ! n) perm" and ?C = "card ((\<lambda>n. part ! n) ` set perm)"
  define ids' where "ids' = assign_level ld part l perm (length perm) ids"
  note words = assign_level_words [OF ok l perm len g cells, folded ids'_def]
  have len': "length ids' = length ids" using words by (rule conjunct1)
  have new: "\<exists>x. ids' ! u = set_cell ld l x (ids ! u) \<and> x \<le> ?C \<and> (u = length perm \<longrightarrow> x = ?C) \<and>
      (\<forall>i < length perm. u = perm ! i \<longrightarrow> x = run_number ?ks i)" if u: "u < length ids" for u
    using conjunct2 [OF words] u by (elim allE [of _ u] impE)
  have in_perm: "perm ! i < length perm" if "i < length perm" for i using nth_mem [OF that] perm(3) by simp
  have fits: "x \<le> ?C \<Longrightarrow> x < 2 ^ (lidx_to_offset ld ! l - lidx_to_offset ld ! (l - 1))" for x
    using cells level_dataD(4) [OF ok l] by linarith
  have "assigned ld part perm l ids'"
    unfolding assigned_def
  proof (intro conjI allI impI)
    fix i assume i: "i < length perm"
    then show "cell_of ld l (ids' ! (perm ! i)) = run_number ?ks i"
      using new [of "perm ! i"] in_perm [OF i] len fits cell_of_set_cell [OF ok l l] by fastforce
  next
    show "cell_of ld l (ids' ! length perm) = ?C"
      using new [of "length perm"] len fits cell_of_set_cell [OF ok l l] by fastforce
  qed
  moreover have "packed nums ld p" if "p \<in> set ids'" for p
  proof -
    obtain u where u: "u < length ids" "p = ids' ! u" using \<open>p \<in> set ids'\<close> len' by (metis in_set_conv_nth)
    then obtain x where "p = set_cell ld l x (ids ! u)" "x \<le> ?C" using new by blast
    then show ?thesis using packed_set_cell [OF ok l _ fits] packed u(1) by simp
  qed
  moreover have "cell_of ld l' (ids' ! u) = cell_of ld l' (ids ! u)"
    if "1 \<le> l'" "l' \<le> length nums" "l' \<noteq> l" "u < length ids" for l' u
  proof -
    obtain x where "ids' ! u = set_cell ld l x (ids ! u)" "x \<le> ?C" using new [OF \<open>u < length ids\<close>] by blast
    then show ?thesis using cell_of_set_cell [OF ok l that(1,2) fits] that(3) by simp
  qed
  ultimately show ?thesis unfolding ids'_def [symmetric] using len' by blast
qed

text \<open>All levels, top down.\<close>

definition cells_fit :: "nat list \<Rightarrow> nat list list \<Rightarrow> nat list \<Rightarrow> bool" where
  "cells_fit nums ps perm \<longleftrightarrow> length ps \<le> length nums \<and>
     (\<forall>m < length ps. grouped (map (\<lambda>n. ps ! m ! n) perm) \<and> card ((\<lambda>n. ps ! m ! n) ` set perm) \<le> nums ! m)"

lemma assigned_cong:
  assumes "assigned ld part perm l ids" "set perm = {0..<length perm}"
    "\<And>u. u \<le> length perm \<Longrightarrow> cell_of ld l (ids' ! u) = cell_of ld l (ids ! u)"
  shows "assigned ld part perm l ids'"
proof -
  have "perm ! i \<le> length perm" if "i < length perm" for i using nth_mem [OF that] assms(2) by simp
  then show ?thesis using assms(1,3) by (simp add: assigned_def)
qed

lemma assign_levels_spec:
  assumes ok: "level_data_ok nums ld" and perm: "perm \<noteq> []" "distinct perm" "set perm = {0..<length perm}"
    and fit: "cells_fit nums ps perm"
  shows "k \<le> length ps \<Longrightarrow> length ids = length perm + 1 \<Longrightarrow> \<forall>p \<in> set ids. packed nums ld p \<Longrightarrow>
    (let ids' = assign_levels ld (rev (take k ps)) k perm (length perm) ids in
     length ids' = length ids \<and> (\<forall>l. 1 \<le> l \<and> l \<le> k \<longrightarrow> assigned ld (ps ! (l - 1)) perm l ids') \<and>
     (\<forall>p \<in> set ids'. packed nums ld p) \<and>
     (\<forall>l u. k < l \<and> l \<le> length nums \<and> u < length ids \<longrightarrow> cell_of ld l (ids' ! u) = cell_of ld l (ids ! u)))"
proof (induction k arbitrary: ids)
  case (Suc k)
  have k: "k < length ps" "Suc k \<le> length nums" using Suc.prems(1) fit by (auto simp: cells_fit_def)
  define ids1 where "ids1 = assign_level ld (ps ! k) (Suc k) perm (length perm) ids"
  define ids' where "ids' = assign_levels ld (rev (take k ps)) k perm (length perm) ids1"
  have res: "assign_levels ld (rev (take (Suc k) ps)) (Suc k) perm (length perm) ids = ids'"
    using k(1) by (simp add: take_Suc_conv_app_nth ids1_def ids'_def)
  have "1 \<le> Suc k" by simp
  note lvl = assign_level_spec [OF ok this k(2) perm Suc.prems(2) _ _ Suc.prems(3), of "ps ! k", folded ids1_def]
  have lvl: "length ids1 = length ids" "assigned ld (ps ! k) perm (Suc k) ids1" "\<forall>p \<in> set ids1. packed nums ld p"
    "\<And>l' u. 1 \<le> l' \<Longrightarrow> l' \<le> length nums \<Longrightarrow> l' \<noteq> Suc k \<Longrightarrow> u < length ids \<Longrightarrow> cell_of ld l' (ids1 ! u) = cell_of ld l' (ids ! u)"
    using lvl fit k unfolding cells_fit_def by simp_all
  have IH: "length ids' = length ids1" "\<And>l. 1 \<le> l \<Longrightarrow> l \<le> k \<Longrightarrow> assigned ld (ps ! (l - 1)) perm l ids'"
    "\<forall>p \<in> set ids'. packed nums ld p"
    "\<And>l u. k < l \<Longrightarrow> l \<le> length nums \<Longrightarrow> u < length ids1 \<Longrightarrow> cell_of ld l (ids' ! u) = cell_of ld l (ids1 ! u)"
    using Suc.IH [of ids1] k lvl(1,3) Suc.prems(2) unfolding ids'_def Let_def by simp_all
  have top: "assigned ld (ps ! k) perm (Suc k) ids'"
    using IH(4) k(2) lvl(1) Suc.prems(2) by (intro assigned_cong [OF lvl(2) perm(3)]) simp
  show ?case unfolding res Let_def
  proof (intro conjI allI impI)
    fix l assume "1 \<le> l \<and> l \<le> Suc k"
    then show "assigned ld (ps ! (l - 1)) perm l ids'" using IH(2) top by (cases "l = Suc k") simp_all
  qed (use IH lvl in auto)
qed simp

section \<open>Children\<close>

text \<open>The positions where a run starts; their number up to a position numbers the runs.\<close>

definition run_starts :: "'a list \<Rightarrow> nat \<Rightarrow> nat list" where
  "run_starts ks n = filter (\<lambda>j. j = 0 \<or> ks ! j \<noteq> ks ! (j - 1)) [0..<n]"

lemma run_starts_split:
  assumes "m \<le> n" obtains zs where "run_starts ks n = run_starts ks m @ zs" "\<forall>y \<in> set zs. m \<le> y \<and> y < n"
proof -
  have "[0..<n] = [0..<m] @ [m..<n]" using upt_add_eq_append [of 0 m "n - m"] assms by simp
  then show thesis using that by (simp add: run_starts_def)
qed

lemma grouped_seen:
  assumes "grouped ks" "Suc i < length ks"
  shows "ks ! Suc i \<in> set (take (Suc i) ks) \<longleftrightarrow> ks ! Suc i = ks ! i"
proof
  assume "ks ! Suc i \<in> set (take (Suc i) ks)"
  then obtain j where "j < length (take (Suc i) ks)" "take (Suc i) ks ! j = ks ! Suc i" unfolding in_set_conv_nth by blast
  then have j: "j \<le> i" "ks ! j = ks ! Suc i" by simp_all
  show "ks ! Suc i = ks ! i"
  proof (cases "j = i")
    case False
    then have "j < i" using j(1) by simp
    then have "ks ! i = ks ! j" using assms j(2) unfolding grouped_def by blast
    then show ?thesis using j(2) by simp
  qed (use j in simp)
next
  assume "ks ! Suc i = ks ! i"
  then show "ks ! Suc i \<in> set (take (Suc i) ks)" using assms(2) by (auto simp: in_set_conv_nth intro!: exI [of _ i])
qed

lemma run_starts_card:
  assumes "grouped ks"
  shows "i < length ks \<Longrightarrow> length (run_starts ks (Suc i)) = card (set (take (Suc i) ks))"
proof (induction i)
  case 0
  then show ?case by (cases ks) (simp_all add: run_starts_def)
next
  case (Suc i)
  have "set (take (Suc (Suc i)) ks) = insert (ks ! Suc i) (set (take (Suc i) ks))"
    using Suc.prems by (subst take_Suc_conv_app_nth) auto
  moreover have "run_starts ks (Suc (Suc i)) = run_starts ks (Suc i) @ (if ks ! Suc i \<noteq> ks ! i then [Suc i] else [])"
    by (simp add: run_starts_def)
  moreover have "length (run_starts ks (Suc i)) = card (set (take (Suc i) ks))" using Suc by simp
  ultimately show ?case
    using grouped_seen [OF assms Suc.prems] by (cases "ks ! Suc i = ks ! i") (simp_all add: insert_absorb)
qed

lemma run_starts_number:
  assumes "grouped ks" "i < length ks"
  shows "length (run_starts ks (Suc i)) = Suc (run_number ks i)"
proof -
  have "card (set (take (Suc i) ks)) > 0" using assms(2) by (auto simp: card_gt_0_iff)
  then show ?thesis using run_starts_card [OF assms] by (simp add: run_number_def)
qed

lemma run_starts_around:
  assumes "grouped ks" "i < length ks"
  shows "run_starts ks (length ks) ! run_number ks i \<le> i"
    and "Suc (run_number ks i) < length (run_starts ks (length ks)) \<Longrightarrow>
      i < run_starts ks (length ks) ! Suc (run_number ks i) \<and>
      run_starts ks (length ks) ! Suc (run_number ks i) < length ks \<and>
      ks ! (run_starts ks (length ks) ! Suc (run_number ks i)) \<noteq> ks ! i"
proof -
  note len = run_starts_number [OF assms]
  obtain zs where zs: "run_starts ks (length ks) = run_starts ks (Suc i) @ zs" "\<forall>y \<in> set zs. Suc i \<le> y \<and> y < length ks"
    using run_starts_split [of "Suc i" "length ks" ks] assms(2) by auto
  have "run_starts ks (Suc i) ! run_number ks i \<in> set (run_starts ks (Suc i))" using len by (intro nth_mem) simp
  then show "run_starts ks (length ks) ! run_number ks i \<le> i" using zs(1) len by (auto simp: nth_append run_starts_def)
  assume "Suc (run_number ks i) < length (run_starts ks (length ks))"
  then have "zs \<noteq> []" using zs(1) len by auto
  then have y: "run_starts ks (length ks) ! Suc (run_number ks i) = hd zs" "hd zs \<in> set zs"
    using zs(1) len by (simp_all add: nth_append hd_conv_nth)
  let ?y = "hd zs"
  have yl: "Suc i \<le> ?y" "?y < length ks" using zs(2) y(2) by auto
  have "?y \<in> set (run_starts ks (length ks))" using zs(1) y(2) by simp
  then have "?y = 0 \<or> ks ! ?y \<noteq> ks ! (?y - 1)" by (simp add: run_starts_def)
  then have "run_starts ks (Suc ?y) = run_starts ks ?y @ [?y]" using yl by (auto simp: run_starts_def)
  moreover obtain ws where "run_starts ks ?y = run_starts ks (Suc i) @ ws" using run_starts_split [OF yl(1)] by metis
  ultimately have "run_number ks i \<noteq> run_number ks ?y"
    using len run_starts_number [OF assms(1) yl(2)] by auto
  then have "ks ! ?y \<noteq> ks ! i" using run_number_eq [OF assms(1) assms(2) yl(2)] by auto
  then show "i < run_starts ks (length ks) ! Suc (run_number ks i) \<and>
      run_starts ks (length ks) ! Suc (run_number ks i) < length ks \<and>
      ks ! (run_starts ks (length ks) ! Suc (run_number ks i)) \<noteq> ks ! i"
    unfolding y(1) using yl by simp
qed

text \<open>The entries of one level are the cells at the starts of the runs of the parents.\<close>

lemma children_loop_starts:
  "children_loop mlp part l nodes prev = map (\<lambda>j. GetCell mlp l (nodes ! j))
     (filter (\<lambda>j. part ! (nodes ! j) \<noteq> (if j = 0 then prev else part ! (nodes ! (j - 1)))) [0..<length nodes])"
proof (induction nodes arbitrary: prev)
  case (Cons node nodes)
  have "[0..<length (node # nodes)] = 0 # map Suc [0..<length nodes]" by (simp add: upt_conv_Cons map_Suc_upt del: upt_Suc)
  moreover have "(\<lambda>j. part ! (nodes ! j) \<noteq> part ! ((node # nodes) ! j)) =
      (\<lambda>j. part ! (nodes ! j) \<noteq> (if j = 0 then part ! node else part ! (nodes ! (j - 1))))"
    by (auto simp: fun_eq_iff nth_Cons')
  ultimately show ?case by (auto simp: Cons.IH filter_map o_def simp del: upt_Suc)
qed simp

lemma children_starts:
  assumes "perm \<noteq> []"
  shows "GetCell mlp l (hd perm) # children_loop mlp part l perm (part ! hd perm) =
    map (\<lambda>j. GetCell mlp l (perm ! j)) (run_starts (map (\<lambda>n. part ! n) perm) (length perm))"
proof -
  obtain n where n: "length perm = Suc n" using assms by (cases perm) auto
  have "[0..<length perm] = 0 # map Suc [0..<n]" unfolding n by (simp add: upt_conv_Cons map_Suc_upt del: upt_Suc)
  moreover have "filter (\<lambda>x. part ! (perm ! Suc x) \<noteq> part ! (perm ! x)) [0..<n] =
      filter (\<lambda>x. map ((!) part) perm ! Suc x \<noteq> map ((!) part) perm ! x) [0..<n]"
    using n by (intro filter_cong) simp_all
  ultimately show ?thesis using assms n
    by (simp add: children_loop_starts run_starts_def filter_map o_def hd_conv_nth del: upt_Suc)
qed

text \<open>The entries all levels add.\<close>

definition child_entries :: "MultiLevelPartition \<Rightarrow> nat list list \<Rightarrow> nat list \<Rightarrow> nat \<Rightarrow> nat list" where
  "child_entries mlp ps perm idx =
     map (\<lambda>j. GetCell mlp (idx + 1) (perm ! j)) (run_starts (map (\<lambda>n. ps ! (idx + 1) ! n) perm) (length perm))
     @ [(GetCell mlp (idx + 1) (last perm) + 1) mod 2 ^ 32]"

definition same_cells :: "MultiLevelPartition \<Rightarrow> MultiLevelPartition \<Rightarrow> bool" where
  "same_cells mlp mlp' \<longleftrightarrow> partition_ids mlp' = partition_ids mlp \<and>
     (level_data mlp')\<lparr>lidx_to_children_offsets := []\<rparr> = (level_data mlp)\<lparr>lidx_to_children_offsets := []\<rparr>"

lemma same_cellsD:
  assumes "same_cells mlp mlp'"
  shows "partition_ids mlp' = partition_ids mlp" "num_level (level_data mlp') = num_level (level_data mlp)"
    "lidx_to_offset (level_data mlp') = lidx_to_offset (level_data mlp)"
    "lidx_to_mask (level_data mlp') = lidx_to_mask (level_data mlp)"
    "bit_to_level (level_data mlp') = bit_to_level (level_data mlp)"
    "GetCell mlp' = GetCell mlp" "child_entries mlp' = child_entries mlp"
proof -
  show ids: "partition_ids mlp' = partition_ids mlp" using assms by (simp add: same_cells_def)
  have ld: "(level_data mlp')\<lparr>lidx_to_children_offsets := []\<rparr> = (level_data mlp)\<lparr>lidx_to_children_offsets := []\<rparr>"
    using assms by (simp add: same_cells_def)
  show "num_level (level_data mlp') = num_level (level_data mlp)" using arg_cong [OF ld, of num_level] by simp
  show off: "lidx_to_offset (level_data mlp') = lidx_to_offset (level_data mlp)" using arg_cong [OF ld, of lidx_to_offset] by simp
  show mask: "lidx_to_mask (level_data mlp') = lidx_to_mask (level_data mlp)" using arg_cong [OF ld, of lidx_to_mask] by simp
  show "bit_to_level (level_data mlp') = bit_to_level (level_data mlp)" using arg_cong [OF ld, of bit_to_level] by simp
  show cell: "GetCell mlp' = GetCell mlp" by (intro ext) (simp add: GetCell_def cell_of_def ids off mask)
  show "child_entries mlp' = child_entries mlp" by (intro ext) (simp add: child_entries_def cell)
qed

lemma children_level_spec:
  assumes "perm \<noteq> []"
  shows "same_cells mlp (children_level ps perm idx mlp)"
    and "cell_to_children (children_level ps perm idx mlp) = cell_to_children mlp @ child_entries mlp ps perm idx"
    and "lidx_to_children_offsets (level_data (children_level ps perm idx mlp)) =
      (lidx_to_children_offsets (level_data mlp))[idx + 1 := length (cell_to_children mlp)]"
  using children_starts [OF assms, of mlp "idx + 1" "ps ! (idx + 1)"]
  by (simp_all add: children_level_def same_cells_def child_entries_def Let_def)

lemma children_levels_spec:
  assumes "perm \<noteq> []" "length (lidx_to_children_offsets (level_data mlp)) = 15"
  shows "m < 15 \<Longrightarrow> (let mlp' = fold (children_level ps perm) [0..<m] mlp in
     same_cells mlp mlp' \<and> length (lidx_to_children_offsets (level_data mlp')) = 15 \<and>
     (\<forall>idx < m. \<forall>c < length (child_entries mlp ps perm idx).
        lidx_to_children_offsets (level_data mlp') ! (idx + 1) + c < length (cell_to_children mlp') \<and>
        cell_to_children mlp' ! (lidx_to_children_offsets (level_data mlp') ! (idx + 1) + c) = child_entries mlp ps perm idx ! c))"
proof (induction m)
  case 0
  then show ?case using assms(2) by (simp add: same_cells_def)
next
  case (Suc m)
  define M where "M = fold (children_level ps perm) [0..<m] mlp"
  define M' where "M' = children_level ps perm m M"
  have M: "same_cells mlp M" "length (lidx_to_children_offsets (level_data M)) = 15"
    "\<And>idx c. idx < m \<Longrightarrow> c < length (child_entries mlp ps perm idx) \<Longrightarrow>
       lidx_to_children_offsets (level_data M) ! (idx + 1) + c < length (cell_to_children M) \<and>
       cell_to_children M ! (lidx_to_children_offsets (level_data M) ! (idx + 1) + c) = child_entries mlp ps perm idx ! c"
    using Suc by (auto simp: M_def Let_def)
  note step = children_level_spec [OF assms(1), where mlp = M and ps = ps and idx = m, folded M'_def]
  have "same_cells mlp M'" using M(1) step(1) by (simp add: same_cells_def)
  moreover have "lidx_to_children_offsets (level_data M') ! (idx + 1) + c < length (cell_to_children M') \<and>
      cell_to_children M' ! (lidx_to_children_offsets (level_data M') ! (idx + 1) + c) = child_entries mlp ps perm idx ! c"
    if "idx < Suc m" "c < length (child_entries mlp ps perm idx)" for idx c
  proof (cases "idx = m")
    case True
    then show ?thesis using step(2,3) M(2) Suc.prems that(2) same_cellsD(7) [OF M(1)] by (simp add: nth_append)
  next
    case False
    then show ?thesis using step(2,3) M(3) [of idx c] that by (simp add: nth_append)
  qed
  ultimately show ?case using step(3) M(2) by (simp add: M_def [symmetric] M'_def [symmetric] Let_def)
qed

section \<open>The whole construction\<close>

text \<open>
  The input of the partitioner: every level gives a cell to every node, a cell lies in one cell of the
  next level, and the announced numbers of cells are enough.
\<close>

definition valid_partitions :: "nat list list \<Rightarrow> nat list \<Rightarrow> bool" where
  "valid_partitions ps nums \<longleftrightarrow> ps \<noteq> [] \<and> hd ps \<noteq> [] \<and> length ps = length nums \<and>
     (\<forall>p \<in> set ps. length p = length (hd ps)) \<and> nested (length (hd ps)) ps \<and>
     (\<forall>m < length ps. card (set (ps ! m)) \<le> nums ! m) \<and> (\<forall>n \<in> set nums. n < 2 ^ 32)"

lemma image_nth_perm: "set perm = {0..<length p} \<Longrightarrow> (\<lambda>n. p ! n) ` set perm = set p"
  by (auto simp: set_conv_nth)

lemma validD:
  assumes "valid_partitions ps nums"
  shows "ps \<noteq> []" "hd ps \<noteq> []" "length ps = length nums" "m < length ps \<Longrightarrow> length (ps ! m) = length (hd ps)"
    "nested (length (hd ps)) ps" "m < length ps \<Longrightarrow> card (set (ps ! m)) \<le> nums ! m" "\<forall>n \<in> set nums. n < 2 ^ 32"
  using assms unfolding valid_partitions_def by (blast intro: nth_mem)+

lemma level_data_ok_children:
  "level_data_ok nums (ld\<lparr>lidx_to_children_offsets := xs\<rparr>) = level_data_ok nums ld"
  "packed nums (ld\<lparr>lidx_to_children_offsets := xs\<rparr>) = packed nums ld"
  "cell_of (ld\<lparr>lidx_to_children_offsets := xs\<rparr>) = cell_of ld"
  "assigned (ld\<lparr>lidx_to_children_offsets := xs\<rparr>) = assigned ld"
  by (simp_all add: level_data_ok_def packed_def cell_of_def assigned_def fun_eq_iff)

lemma valid_fit:
  assumes "valid_partitions ps nums"
  defines "perm \<equiv> sort_nodes ps [0..<length (hd ps)]"
  shows "perm \<noteq> []" "distinct perm" "set perm = {0..<length perm}" "length perm = length (hd ps)" "cells_fit nums ps perm"
proof -
  have perm: "set perm = {0..<length (hd ps)}" "distinct perm" "length perm = length (hd ps)"
    using sort_nodes_set [of ps "[0..<length (hd ps)]"] by (simp_all add: perm_def)
  show "distinct perm" "length perm = length (hd ps)" by (fact perm)+
  show "perm \<noteq> []" "set perm = {0..<length perm}" using perm validD(2) [OF assms(1)] by auto
  have "card ((\<lambda>n. ps ! m ! n) ` set perm) \<le> nums ! m" if "m < length ps" for m
    using validD(4,6) [OF assms(1) that] perm(1) image_nth_perm [of perm "ps ! m"] by simp
  then show "cells_fit nums ps perm"
    using validD(3) [OF assms(1)] sort_nodes_grouped [OF validD(5) [OF assms(1)]]
    by (simp add: cells_fit_def perm_def)
qed

lemma same_cells_level_data:
  assumes "same_cells mlp mlp'"
  shows "level_data_ok nums (level_data mlp') = level_data_ok nums (level_data mlp)"
    "packed nums (level_data mlp') = packed nums (level_data mlp)" "cell_of (level_data mlp') = cell_of (level_data mlp)"
  using same_cellsD [OF assms] by (simp_all add: level_data_ok_def packed_def cell_of_def fun_eq_iff)

text \<open>What construction gives, in terms of the order of the nodes.\<close>

lemma construction:
  assumes "valid_partitions ps nums" "MultiLevelPartition_make ps nums = Inr mlp"
  defines "perm \<equiv> sort_nodes ps [0..<length (hd ps)]"
  shows "level_data_ok nums (level_data mlp) \<and> length (partition_ids mlp) = length perm + 1 \<and>
    (\<forall>p \<in> set (partition_ids mlp). packed nums (level_data mlp) p) \<and>
    (\<forall>l. 1 \<le> l \<and> l \<le> length ps \<longrightarrow> assigned (level_data mlp) (ps ! (l - 1)) perm l (partition_ids mlp)) \<and>
    (\<forall>idx < length ps - 1. \<forall>c < length (child_entries mlp ps perm idx).
        cell_to_children mlp ! (lidx_to_children_offsets (level_data mlp) ! (idx + 1) + c) = child_entries mlp ps perm idx ! c)"
proof -
  note fit = valid_fit [OF assms(1), folded perm_def]
  obtain ld where ld: "MakeLevelData nums = Inr ld" and init: "InitializePartitionIDs ld ps = Inr mlp"
    using assms(2) by (auto simp: MultiLevelPartition_make_def split: sum.splits)
  have ok: "level_data_ok nums ld" using MakeLevelData_ok [OF ld validD(7) [OF assms(1)]] .
  define ids where "ids = assign_levels ld (rev ps) (length ps) perm (length perm) (replicate (length perm + 1) 0)"
  define mlp0 where "mlp0 = \<lparr>level_data = ld\<lparr>lidx_to_children_offsets := (lidx_to_children_offsets ld)[0 := 0]\<rparr>,
    partition_ids = ids, cell_to_children = []\<rparr>"
  have mlp: "mlp = fold (children_level ps perm) [0..<length ps - 1] mlp0"
    using init fit(4) by (auto simp: InitializePartitionIDs_def Let_def mlp0_def ids_def perm_def split: if_splits)
  have "lidx_to_children_offsets ld = replicate 15 0"
    using ld by (auto simp: MakeLevelData_def Let_def split: sum.splits)
  then have "length (lidx_to_children_offsets (level_data mlp0)) = 15" by (simp add: mlp0_def)
  note ch = children_levels_spec [OF fit(1) this, of "length ps - 1" ps, folded mlp, unfolded Let_def]
  have "length nums < 15" using ok unfolding level_data_ok_def by blast
  then have "length ps - 1 < 15" using validD(3) [OF assms(1)] by simp
  note ch = ch [OF this]
  have "same_cells mlp0 mlp" using ch by blast
  note same = same_cells_level_data [OF this] same_cellsD [OF this]
  have zero: "\<forall>p \<in> set (replicate (length perm + 1) 0). packed nums ld p" by (simp add: packed_def)
  note lv = assign_levels_spec [OF ok fit(1,2,3,5) order_refl _ zero, simplified, folded ids_def, unfolded Let_def]
  have lv: "length ids = length perm + 1" "\<forall>p \<in> set ids. packed nums ld p"
    "\<forall>l. 1 \<le> l \<and> l \<le> length ps \<longrightarrow> assigned ld (ps ! (l - 1)) perm l ids"
    using lv by (simp_all add: ids_def)
  have "level_data_ok nums (level_data mlp0) = level_data_ok nums ld" "packed nums (level_data mlp0) = packed nums ld"
    "cell_of (level_data mlp0) = cell_of ld" "partition_ids mlp0 = ids"
    by (simp_all add: mlp0_def level_data_ok_children)
  then show ?thesis using ok lv ch same by (simp add: assigned_def)
qed

text \<open>Reading the construction at a node and at the sentinel.\<close>

lemma construction_cells:
  assumes "valid_partitions ps nums" "MultiLevelPartition_make ps nums = Inr mlp" "1 \<le> l" "l \<le> length ps"
  defines "perm \<equiv> sort_nodes ps [0..<length (hd ps)]"
  shows "i < length perm \<Longrightarrow> GetCell mlp l (perm ! i) = run_number (map (\<lambda>n. ps ! (l - 1) ! n) perm) i"
    and "GetNumberOfCells mlp l = card (set (ps ! (l - 1)))"
    and "grouped (map (\<lambda>n. ps ! (l - 1) ! n) perm)"
    and "u < length (hd ps) \<Longrightarrow> \<exists>i < length perm. perm ! i = u"
    and "set (map (\<lambda>n. ps ! (l - 1) ! n) perm) = set (ps ! (l - 1))"
proof -
  note fit = valid_fit [OF assms(1), folded perm_def]
  note con = construction [OF assms(1,2), folded perm_def]
  have a: "assigned (level_data mlp) (ps ! (l - 1)) perm l (partition_ids mlp)" using con assms(3,4) by blast
  have len: "length (partition_ids mlp) = length perm + 1" using con by blast
  have set_eq: "(\<lambda>n. ps ! (l - 1) ! n) ` set perm = set (ps ! (l - 1))"
    using fit(3,4) validD(4) [OF assms(1), of "l - 1"] assms(3,4) by (intro image_nth_perm) simp
  show "i < length perm \<Longrightarrow> GetCell mlp l (perm ! i) = run_number (map (\<lambda>n. ps ! (l - 1) ! n) perm) i"
    using a by (simp add: assigned_def GetCell_def)
  show "GetNumberOfCells mlp l = card (set (ps ! (l - 1)))"
    using a len set_eq by (simp add: assigned_def GetCell_def GetNumberOfCells_def GetSentinelNode_def)
  show "grouped (map (\<lambda>n. ps ! (l - 1) ! n) perm)" using fit(5) assms(3,4) by (simp add: cells_fit_def)
  show "u < length (hd ps) \<Longrightarrow> \<exists>i < length perm. perm ! i = u"
    using fit(3,4) by (metis atLeast0LessThan in_set_conv_nth lessThan_iff)
  show "set (map (\<lambda>n. ps ! (l - 1) ! n) perm) = set (ps ! (l - 1))" using set_eq by simp
qed

lemma run_number_surj:
  assumes "grouped ks" "r < card (set ks)"
  shows "\<exists>i < length ks. run_number ks i = r"
proof -
  let ?I = "{..<length ks}"
  define g where "g = (\<lambda>k. run_number ks (SOME i. i < length ks \<and> ks ! i = k))"
  have g: "g (ks ! i) = run_number ks i" if "i < length ks" for i
  proof -
    have "(SOME j. j < length ks \<and> ks ! j = ks ! i) < length ks \<and> ks ! (SOME j. j < length ks \<and> ks ! j = ks ! i) = ks ! i"
      by (rule someI [of _ i]) (use that in simp)
    then show ?thesis using run_number_eq [OF assms(1) _ that] by (simp add: g_def)
  qed
  have "inj_on g (set ks)"
    using g run_number_eq [OF assms(1)] by (auto simp: inj_on_def in_set_conv_nth)
  then have "card (g ` set ks) = card (set ks)" by (rule card_image)
  moreover have "g ` set ks \<subseteq> {..<card (set ks)}"
    using g run_number_less by (auto simp: in_set_conv_nth)
  ultimately have "g ` set ks = {..<card (set ks)}" by (intro card_subset_eq) auto
  then have "r \<in> g ` set ks" using assms(2) by auto
  then obtain i where "i < length ks" "r = g (ks ! i)" by (auto simp: in_set_conv_nth)
  then show ?thesis using g by (intro exI [of _ i]) simp
qed

text \<open>
  Numbering the runs of two grouped lists, the second coarser than the first: the fine numbers of one
  coarse run lie between the fine number at its start and the one at the next start.
\<close>

lemma run_bounds:
  assumes "grouped ks" "grouped cs" "length cs = length ks" "i < length ks" "card (set cs) < 2 ^ 32"
    "\<And>x y. x < length ks \<Longrightarrow> y < length ks \<Longrightarrow> cs ! x = cs ! y \<Longrightarrow> ks ! x = ks ! y"
  defines "E \<equiv> map (run_number cs) (run_starts ks (length ks)) @ [(run_number cs (length ks - 1) + 1) mod 2 ^ 32]"
  shows "E ! run_number ks i \<le> run_number cs i \<and> run_number cs i < E ! Suc (run_number ks i)
    \<and> Suc (run_number ks i) < length E"
proof -
  let ?st = "run_starts ks (length ks)" and ?r = "run_number ks i"
  have pos: "0 < length ks" using assms(4) by linarith
  have "length ?st = card (set ks)" using run_starts_card [OF assms(1), of "length ks - 1"] pos by simp
  then have r: "?r < length ?st" using run_number_less [OF assms(4)] by simp
  have "E ! ?r \<le> run_number cs i"
    using r run_starts_around(1) [OF assms(1,4)] by (simp add: E_def nth_append run_number_mono)
  moreover have "run_number cs i < E ! Suc ?r"
  proof (cases "Suc ?r < length ?st")
    case True
    let ?y = "?st ! Suc ?r"
    have y: "i < ?y" "?y < length ks" "ks ! ?y \<noteq> ks ! i" using run_starts_around(2) [OF assms(1,4) True] by simp_all
    then have "run_number cs i \<noteq> run_number cs ?y" using run_number_eq [OF assms(2)] assms(3,4,6) by metis
    then have "run_number cs i < run_number cs ?y" using run_number_mono [of i ?y cs] y(1) by simp
    then show ?thesis using True by (simp add: E_def nth_append)
  next
    case False
    then have final: "Suc ?r = length ?st" using r by simp
    have "run_number cs (length ks - 1) < card (set cs)" using pos assms(3) by (intro run_number_less) simp
    moreover have "run_number cs i \<le> run_number cs (length ks - 1)" using assms(4) by (intro run_number_mono) simp
    moreover have "E ! Suc ?r = (run_number cs (length ks - 1) + 1) mod 2 ^ 32" using final by (simp add: E_def nth_append)
    ultimately show ?thesis using assms(5) by simp
  qed
  ultimately show ?thesis using r by (simp add: E_def)
qed

text \<open>A node's cell lies among the children of its parent cell.\<close>

lemma children_around:
  assumes "valid_partitions ps nums" "MultiLevelPartition_make ps nums = Inr mlp" "1 < l" "l \<le> length ps" "u < length (hd ps)"
  shows "BeginChildren mlp l (GetCell mlp l u) \<le> GetCell mlp (l - 1) u \<and>
    GetCell mlp (l - 1) u < EndChildren mlp l (GetCell mlp l u)"
proof -
  define perm where "perm = sort_nodes ps [0..<length (hd ps)]"
  define ks where "ks = map (\<lambda>n. ps ! (l - 1) ! n) perm"
  define cs where "cs = map (\<lambda>n. ps ! (l - 2) ! n) perm"
  have l: "1 \<le> l" "1 \<le> l - 1" "l - 1 \<le> length ps" "l - 1 - 1 = l - 2" "l - 2 + 1 = l - 1" "l - 2 < length ps - 1"
    "l - 1 < length ps" "l - 2 < length ps" "l - 2 \<le> l - 1"
    using assms(3,4) by auto
  note fit = valid_fit [OF assms(1), folded perm_def]
  note P = construction_cells [OF assms(1,2) l(1) assms(4), folded perm_def, folded ks_def]
  note Q = construction_cells [OF assms(1,2) l(2,3), folded perm_def, unfolded l(4), folded cs_def]
  have len: "length ks = length perm" "length cs = length ks" by (simp_all add: ks_def cs_def)
  obtain i where i: "i < length perm" "perm ! i = u" using P(4) [OF assms(5)] by blast
  have range: "perm ! x < length (hd ps)" if "x < length perm" for x using nth_mem [OF that] fit(3,4) by simp
  have fine: "ks ! x = ks ! y" if "x < length ks" "y < length ks" "cs ! x = cs ! y" for x y
    using nested_above [OF validD(5) [OF assms(1)] range range _ l(9,7), of x y] that len by (simp add: ks_def cs_def)
  have "card (set cs) \<le> nums ! (l - 2)" "nums ! (l - 2) \<in> set nums"
    using validD(3) [OF assms(1)] validD(6) [OF assms(1) l(8)] Q(5) l(8) by simp_all
  then have small: "card (set cs) < 2 ^ 32" using validD(7) [OF assms(1)] by fastforce
  define E where "E = child_entries mlp ps perm (l - 2)"
  have cells: "map (\<lambda>j. GetCell mlp (l - 1) (perm ! j)) (run_starts ks (length perm)) = map (run_number cs) (run_starts ks (length perm))"
    by (rule map_cong [OF refl], rule Q(1)) (simp add: run_starts_def)
  have "last perm = perm ! (length perm - 1)" "length perm - 1 < length perm" using fit(1) by (simp_all add: last_conv_nth)
  then have E: "E = map (run_number cs) (run_starts ks (length ks)) @ [(run_number cs (length ks - 1) + 1) mod 2 ^ 32]"
    using cells Q(1) len(1) unfolding E_def child_entries_def l(5) ks_def [symmetric] by (simp del: One_nat_def)
  have "i < length ks" using i(1) len(1) by simp
  then have bounds: "E ! run_number ks i \<le> run_number cs i \<and> run_number cs i < E ! Suc (run_number ks i)
      \<and> Suc (run_number ks i) < length E"
    unfolding E by (rule run_bounds [OF P(3) Q(3) len(2) _ small fine])
  have read: "cell_to_children mlp ! (lidx_to_children_offsets (level_data mlp) ! (l - 1) + c) = E ! c" if "c < length E" for c
    using construction [OF assms(1,2), folded perm_def] that l(5,6) unfolding E_def by metis
  have cell: "GetCell mlp l u = run_number ks i" "GetCell mlp (l - 1) u = run_number cs i"
    using P(1) [OF i(1)] Q(1) [OF i(1)] i(2) by simp_all
  have "run_number ks i < length E" "Suc (run_number ks i) < length E" using bounds by auto
  then have "BeginChildren mlp l (run_number ks i) = E ! run_number ks i"
    "EndChildren mlp l (run_number ks i) = E ! Suc (run_number ks i)"
    using read [of "run_number ks i"] read [of "Suc (run_number ks i)"] l(1)
    by (simp_all add: BeginChildren_def EndChildren_def LevelIDToIndex_def)
  then show ?thesis using bounds unfolding cell by simp
qed

text \<open>The ranges of the children of different cells do not overlap.\<close>

lemma children_ordered:
  assumes "valid_partitions ps nums" "MultiLevelPartition_make ps nums = Inr mlp" "1 < l" "l \<le> length ps"
  shows "c < d \<Longrightarrow> d < GetNumberOfCells mlp l \<Longrightarrow> EndChildren mlp l c \<le> BeginChildren mlp l d"
proof (induction d)
  case (Suc d)
  have next_eq: "EndChildren mlp l d = BeginChildren mlp l (Suc d)" by (simp add: BeginChildren_def EndChildren_def)
  show ?case
  proof (cases "c = d")
    case False
    have l: "1 \<le> l" using assms(3) by simp
    note P = construction_cells [OF assms(1,2) l assms(4)]
    define perm where "perm = sort_nodes ps [0..<length (hd ps)]"
    have "d < card (set (map (\<lambda>n. ps ! (l - 1) ! n) perm))" using Suc.prems P(2,5) by (simp add: perm_def)
    then obtain i where i: "i < length perm" "run_number (map (\<lambda>n. ps ! (l - 1) ! n) perm) i = d"
      using run_number_surj [OF P(3)] by (auto simp: perm_def)
    have "perm ! i < length (hd ps)" using nth_mem [OF i(1)] valid_fit(3,4) [OF assms(1)] by (simp add: perm_def)
    moreover have "GetCell mlp l (perm ! i) = d" using P(1) i by (simp add: perm_def)
    ultimately have "BeginChildren mlp l d < EndChildren mlp l d" using children_around [OF assms] by force
    then show ?thesis using Suc False next_eq by simp
  qed (simp add: next_eq)
qed simp

lemma make_length:
  assumes "valid_partitions ps nums" "MultiLevelPartition_make ps nums = Inr mlp" "u < length (hd ps)"
  shows "u < length (partition_ids mlp)"
  using construction [OF assms(1,2)] valid_fit(4) [OF assms(1)] assms(3) by simp

section \<open>Properties\<close>

text \<open>
  C5.  The packed partition represents its input.  On every level two nodes have the same cell id
  exactly when the input puts them into the same cell, the ids are below the number of cells, and that
  number, read from the sentinel, is the number of cells of the input.
\<close>

theorem MultiLevelPartition_cells:
  assumes "valid_partitions ps nums" "MultiLevelPartition_make ps nums = Inr mlp" "1 \<le> l" "l \<le> length ps"
    and "u < length (hd ps)" "v < length (hd ps)"
  shows "(GetCell mlp l u = GetCell mlp l v \<longleftrightarrow> ps ! (l - 1) ! u = ps ! (l - 1) ! v) \<and>
    GetCell mlp l u < GetNumberOfCells mlp l \<and> GetNumberOfCells mlp l = card (set (ps ! (l - 1)))"
proof -
  define perm where "perm = sort_nodes ps [0..<length (hd ps)]"
  note P = construction_cells [OF assms(1-4), folded perm_def]
  obtain i j where "i < length perm" "perm ! i = u" "j < length perm" "perm ! j = v"
    using P(4) [OF assms(5)] P(4) [OF assms(6)] by blast
  then show ?thesis
    using P(1) [of i] P(1) [of j] P(2,5) run_number_eq [OF P(3), of i j]
      run_number_less [of i "map (\<lambda>n. ps ! (l - 1) ! n) perm"] by auto
qed

definition example_partitions :: "nat list list" where
  "example_partitions = [[2, 1, 3, 4, 3, 4], [2, 2, 0, 1, 0, 1]]"

lemma example_nested: "nested 6 example_partitions"
  unfolding nested_def example_partitions_def by (simp add: less_Suc_eq numeral_eq_Suc)

lemma example_valid: "valid_partitions example_partitions [4, 3]"
proof -
  have "length (hd example_partitions) = 6" by (simp add: example_partitions_def)
  then show ?thesis using example_nested unfolding valid_partitions_def
    by (simp only:) (simp add: example_partitions_def less_Suc_eq insert_commute)
qed

lemma example_ceillog2: "ceillog2 5 = 3" "ceillog2 4 = 2"
  using ceillog2_eqI [of 5 3] ceillog2_eqI [of 4 2] by simp_all

lemma example_make: "\<exists>mlp. MultiLevelPartition_make example_partitions [4, 3] = Inr mlp"
  by (simp add: MultiLevelPartition_make_def MakeLevelData_def MakeLevelOffsets_def example_ceillog2
      InitializePartitionIDs_def example_partitions_def Let_def)

theorem MultiLevelPartition_cells_witness:
  "\<exists>mlp. MultiLevelPartition_make example_partitions [4, 3] = Inr mlp \<and>
     GetCell mlp 1 2 = GetCell mlp 1 4 \<and> GetCell mlp 1 0 \<noteq> GetCell mlp 1 1 \<and>
     GetCell mlp 2 0 = GetCell mlp 2 1 \<and> GetNumberOfCells mlp 2 = 3"
proof -
  obtain mlp where m: "MultiLevelPartition_make example_partitions [4, 3] = Inr mlp" using example_make by blast
  note cells = MultiLevelPartition_cells [OF example_valid m]
  show ?thesis
    using cells [of 1 2 4] cells [of 1 0 1] cells [of 2 0 1] m
    by (intro exI [of _ mlp]) (simp add: example_partitions_def insert_commute)
qed

text \<open>
  C32.  The children of a cell are a range of ids of the level below: a node's cell is in the range of a
  cell of the level above exactly when the node is in that cell.
\<close>

theorem MultiLevelPartition_children:
  assumes "valid_partitions ps nums" "MultiLevelPartition_make ps nums = Inr mlp" "1 < l" "l \<le> length ps"
    and "u < length (hd ps)" "c < GetNumberOfCells mlp l"
  shows "BeginChildren mlp l c \<le> GetCell mlp (l - 1) u \<and> GetCell mlp (l - 1) u < EndChildren mlp l c
    \<longleftrightarrow> GetCell mlp l u = c"
proof -
  have l: "1 \<le> l" using assms(3) by simp
  define perm where "perm = sort_nodes ps [0..<length (hd ps)]"
  note P = construction_cells [OF assms(1,2) l assms(4), folded perm_def]
  obtain i where i: "i < length perm" "perm ! i = u" using P(4) [OF assms(5)] by blast
  then have "GetCell mlp l u < GetNumberOfCells mlp l"
    using P(1) [of i] P(2,5) run_number_less [of i "map (\<lambda>n. ps ! (l - 1) ! n) perm"] by auto
  then show ?thesis
    using children_around [OF assms(1-5)] children_ordered [OF assms(1-4), of c "GetCell mlp l u"]
      children_ordered [OF assms(1-4), of "GetCell mlp l u" c] assms(6) by (metis linorder_neqE_nat not_le order_trans)
qed

theorem MultiLevelPartition_children_witness:
  "\<exists>mlp. MultiLevelPartition_make example_partitions [4, 3] = Inr mlp \<and>
     BeginChildren mlp 2 (GetCell mlp 2 0) \<le> GetCell mlp 1 1 \<and> GetCell mlp 1 1 < EndChildren mlp 2 (GetCell mlp 2 0)"
proof -
  obtain mlp where m: "MultiLevelPartition_make example_partitions [4, 3] = Inr mlp" using example_make by blast
  define perm where "perm = sort_nodes example_partitions [0..<length (hd example_partitions)]"
  have l: "1 \<le> (2::nat)" "2 \<le> length example_partitions" by (simp_all add: example_partitions_def)
  note P = construction_cells [OF example_valid m l, folded perm_def]
  have "0 < length (hd example_partitions)" "1 < length (hd example_partitions)" by (simp_all add: example_partitions_def)
  then obtain i j where ij: "i < length perm" "perm ! i = 0" "j < length perm" "perm ! j = 1" using P(4) by metis
  have "GetCell mlp 2 1 = GetCell mlp 2 0"
    using P(1) [OF ij(1)] P(1) [OF ij(3)] run_number_eq [OF P(3), of j i] ij by (simp add: example_partitions_def)
  moreover have "GetCell mlp 2 0 < GetNumberOfCells mlp 2"
    using P(1) [OF ij(1)] P(2,5) run_number_less [of i "map (\<lambda>n. example_partitions ! (2 - 1) ! n) perm"] ij by auto
  ultimately show ?thesis
    using MultiLevelPartition_children [OF example_valid m, of 2 1 "GetCell mlp 2 0"] m
    by (intro exI [of _ mlp]) (simp add: example_partitions_def)
qed

text \<open>
  C33.  The level of a query: the level computed from the most significant differing bit is the highest
  level on which the two nodes lie in different cells, and 0 when they share all cells.
\<close>

theorem GetHighestDifferentLevel_spec:
  assumes "valid_partitions ps nums" "MultiLevelPartition_make ps nums = Inr mlp"
    and "u < length (hd ps)" "v < length (hd ps)" "h = GetHighestDifferentLevel mlp u v"
  shows "h \<le> length ps \<and> (h = 0 \<or> GetCell mlp h u \<noteq> GetCell mlp h v) \<and>
    (\<forall>l. h < l \<and> l \<le> length ps \<longrightarrow> GetCell mlp l u = GetCell mlp l v)"
proof (cases "partition_ids mlp ! u = partition_ids mlp ! v")
  case True
  then show ?thesis using assms(5) by (simp add: GetHighestDifferentLevel_def GetCell_def)
next
  case False
  note con = construction [OF assms(1,2)]
  have ok: "level_data_ok nums (level_data mlp)" and "packed nums (level_data mlp) (partition_ids mlp ! u)"
    "packed nums (level_data mlp) (partition_ids mlp ! v)"
    using con make_length [OF assms(1,2) assms(3)] make_length [OF assms(1,2) assms(4)] by simp_all
  from highest_level [OF this False] show ?thesis
    using False assms(5) validD(3) [OF assms(1)] by (auto simp: GetHighestDifferentLevel_def GetCell_def)
qed

theorem GetHighestDifferentLevel_spec_witness:
  "\<exists>mlp. MultiLevelPartition_make example_partitions [4, 3] = Inr mlp \<and> GetHighestDifferentLevel mlp 0 1 \<le> 2"
proof -
  obtain mlp where m: "MultiLevelPartition_make example_partitions [4, 3] = Inr mlp" using example_make by blast
  show ?thesis using GetHighestDifferentLevel_spec [OF example_valid m, of 0 1] m
    by (intro exI [of _ mlp]) (simp add: example_partitions_def)
qed

text \<open>
  Packing: for level data made for given numbers of cells, a cell id (or the number of cells itself)
  written for one level is read back, and the other levels of the word are untouched.
\<close>

lemma SetCellID_GetCell:
  assumes "MakeLevelData nums = Inr ld" "\<forall>n \<in> set nums. n < 2 ^ 32"
    and "1 \<le> l" "l \<le> length nums" "1 \<le> l'" "l' \<le> length nums" "cell_id \<le> nums ! (l - 1)"
    and "node < length ids"
  shows "cell_of ld l' (SetCellID ld l node cell_id ids ! node) = (if l' = l then cell_id else cell_of ld l' (ids ! node))"
proof -
  note ok = MakeLevelData_ok [OF assms(1,2)]
  have "cell_id < 2 ^ (lidx_to_offset ld ! l - lidx_to_offset ld ! (l - 1))"
    using level_dataD(4) [OF ok assms(3,4)] assms(7) by linarith
  from cell_of_set_cell [OF ok assms(3-6) this] show ?thesis using assms(8) by (simp add: SetCellID_def)
qed

text \<open>
  The generic bit scanning loop terminates with the same answer as the overload that uses the
  compiler's leading zero count, for every word but zero.
\<close>

lemma msb_loop_agrees:
  assumes "v \<noteq> 0"
  shows "msb_loop v 0 = msb_u64 v \<and> bit v (msb_u64 v) \<and> (\<forall>i. bit v i \<longrightarrow> i \<le> msb_u64 v)"
  using msb_loop_u64 [OF assms, of 0] msb_u64_bit [OF assms] not_le by auto

end
