(* ===== verification/Permutation.thy ===== *)
theory Permutation
  imports Osrm_Prelude
begin

text \<open>
  \<^verbatim>\<open>include/util/permutation.hpp\<close>: applying a permutation in place by following its cycles, and
  inverting an ordering.  The inner loop of \<^verbatim>\<open>inplacePermutation\<close> ends only when the cycle returns
  to its start; it is a partial function, and that it returns is part of what is proved.
\<close>

section \<open>Definitions\<close>

text \<open>The walk along one cycle: the buffer carries the value that belongs to the next position.\<close>

partial_function (option) cycle_loop ::
  "nat list \<Rightarrow> nat \<Rightarrow> 'a \<Rightarrow> nat \<Rightarrow> nat \<Rightarrow> 'a list \<Rightarrow> bool list \<Rightarrow> ('a \<times> nat \<times> 'a list \<times> bool list) option" where
  "cycle_loop old_to_new index buffer old_index new_index xs was_replaced =
     (if new_index \<noteq> index
      then cycle_loop old_to_new index (xs ! new_index) new_index (old_to_new ! new_index)
             (xs[new_index := buffer]) (was_replaced[old_index := True])
      else Some (buffer, old_index, xs, was_replaced))"

fun permutation_loop :: "nat list \<Rightarrow> nat list \<Rightarrow> 'a list \<Rightarrow> bool list \<Rightarrow> 'a list option" where
  "permutation_loop old_to_new [] xs was_replaced = Some xs"
| "permutation_loop old_to_new (index # rest) xs was_replaced =
     (if was_replaced ! index then permutation_loop old_to_new rest xs was_replaced
      else if old_to_new ! index = index
      then permutation_loop old_to_new rest xs (was_replaced[index := True])
      else case cycle_loop old_to_new index (xs ! index) index (old_to_new ! index) xs was_replaced of
        None \<Rightarrow> None
      | Some (buffer, old_index, xs', was_replaced') \<Rightarrow>
          permutation_loop old_to_new rest (xs'[index := buffer]) (was_replaced'[old_index := True]))"

definition inplacePermutation :: "'a list \<Rightarrow> nat list \<Rightarrow> 'a list option" where
  "inplacePermutation xs old_to_new =
     permutation_loop old_to_new [0..<length xs] xs (replicate (length xs) False)"

definition orderingToPermutation :: "nat list \<Rightarrow> nat list" where
  "orderingToPermutation order =
     fold (\<lambda>index permutation. permutation[order ! index := index]) [0..<length order]
       (replicate (length order) 0)"

section \<open>Permutations of positions\<close>

definition is_permutation :: "nat list \<Rightarrow> bool" where
  "is_permutation p \<longleftrightarrow> distinct p \<and> set p = {0..<length p}"

lemma is_permutation_nth:
  assumes "is_permutation p" "i < length p" shows "p ! i < length p"
  using nth_mem [OF assms(2)] assms(1) by (simp add: is_permutation_def)

lemma is_permutation_inj:
  assumes "is_permutation p" "i < length p" "j < length p" shows "p ! i = p ! j \<longleftrightarrow> i = j"
  using assms by (simp add: is_permutation_def nth_eq_iff_index_eq)

text \<open>
  The state between two cycles: the set \<open>R\<close> of finished positions is closed, the finished values have
  moved to their new positions, the others are untouched.
\<close>

definition moved :: "nat list \<Rightarrow> 'a list \<Rightarrow> nat set \<Rightarrow> 'a list \<Rightarrow> bool list \<Rightarrow> bool" where
  "moved p xs R ys was_replaced \<longleftrightarrow>
     length ys = length p \<and> length was_replaced = length p \<and> R \<subseteq> {0..<length p} \<and>
     (\<lambda>j. p ! j) ` R = R \<and> (\<forall>j < length p. was_replaced ! j \<longleftrightarrow> j \<in> R) \<and>
     (\<forall>j \<in> R. ys ! (p ! j) = xs ! j) \<and> (\<forall>j < length p. j \<notin> R \<longrightarrow> ys ! j = xs ! j)"

text \<open>
  The state inside a cycle: \<open>V\<close> are the positions visited so far, from the start to the old index,
  whose value is in the buffer.
\<close>

definition in_cycle :: "nat list \<Rightarrow> 'a list \<Rightarrow> nat set \<Rightarrow> nat \<Rightarrow> nat set \<Rightarrow> 'a \<Rightarrow> nat \<Rightarrow> 'a list \<Rightarrow> bool list \<Rightarrow> bool" where
  "in_cycle p xs R index V buffer old ys was_replaced \<longleftrightarrow>
     length ys = length p \<and> length was_replaced = length p \<and> V \<subseteq> {0..<length p} \<and> R \<subseteq> {0..<length p} \<and> V \<inter> R = {} \<and>
     index \<in> V \<and> old \<in> V \<and> (\<lambda>j. p ! j) ` R = R \<and> (\<lambda>j. p ! j) ` (V - {old}) = V - {index} \<and> buffer = xs ! old \<and>
     (\<forall>j < length p. was_replaced ! j \<longleftrightarrow> j \<in> R \<union> (V - {old})) \<and>
     (\<forall>j \<in> R \<union> (V - {old}). ys ! (p ! j) = xs ! j) \<and>
     (\<forall>j < length p. j \<notin> R \<union> (V - {index}) \<longrightarrow> ys ! j = xs ! j)"

lemma in_cycle_start:
  assumes "moved p xs R ys wr" "index < length p" "index \<notin> R"
  shows "in_cycle p xs R index {index} (ys ! index) index ys wr"
  using assms unfolding moved_def in_cycle_def by auto

text \<open>The next position of a cycle that is not closed has not been visited.\<close>

lemma in_cycle_new:
  assumes "is_permutation p" "in_cycle p xs R index V buffer old ys wr" "p ! old \<noteq> index"
  shows "p ! old < length p" "p ! old \<notin> V" "p ! old \<notin> R"
proof -
  have old: "old < length p" "old \<in> V" "old \<notin> R" using assms(2) unfolding in_cycle_def by auto
  then show "p ! old < length p" using is_permutation_nth assms(1) by blast
  have outside: "p ! old \<notin> (\<lambda>j. p ! j) ` A" if "A \<subseteq> {0..<length p}" "old \<notin> A" for A
    using is_permutation_inj [OF assms(1) old(1)] that by fastforce
  have "p ! old \<notin> (\<lambda>j. p ! j) ` (V - {old})" using assms(2) unfolding in_cycle_def by (intro outside) auto
  then show "p ! old \<notin> V" using assms(2,3) unfolding in_cycle_def by auto
  have "p ! old \<notin> (\<lambda>j. p ! j) ` R" using assms(2) old(3) unfolding in_cycle_def by (intro outside) auto
  then show "p ! old \<notin> R" using assms(2) unfolding in_cycle_def by simp
qed

lemma in_cycle_step:
  assumes "is_permutation p" "in_cycle p xs R index V buffer old ys wr" "p ! old \<noteq> index"
  shows "in_cycle p xs R index (insert (p ! old) V) (ys ! (p ! old)) (p ! old) (ys[p ! old := buffer]) (wr[old := True])"
proof -
  let ?n = "p ! old"
  note new = in_cycle_new [OF assms]
  have old: "old < length p" "old \<in> V" "old \<notin> R" "old \<noteq> ?n" using assms(2) new(2) unfolding in_cycle_def by auto
  have V: "insert ?n V - {?n} = V" using new(2) by auto
  have image: "(\<lambda>j. p ! j) ` V = insert ?n V - {index}"
  proof -
    have "(\<lambda>j. p ! j) ` V = insert ?n ((\<lambda>j. p ! j) ` (V - {old}))" using old(2) by auto
    also have "\<dots> = insert ?n V - {index}" using assms(2,3) unfolding in_cycle_def by auto
    finally show ?thesis .
  qed
  have "ys[?n := buffer] ! (p ! j) = xs ! j" if "j \<in> R \<union> V" for j
  proof (cases "j = old")
    case True
    then show ?thesis using assms(2) new(1) unfolding in_cycle_def by simp
  next
    case False
    then have "j < length p" using that assms(2) unfolding in_cycle_def by auto
    then have "p ! j \<noteq> ?n" using is_permutation_inj [OF assms(1) _ old(1)] False by simp
    then show ?thesis using that False assms(2) unfolding in_cycle_def by simp
  qed
  moreover have "ys[?n := buffer] ! j = xs ! j" if "j < length p" "j \<notin> R \<union> (insert ?n V - {index})" for j
    using that assms(2,3) unfolding in_cycle_def by (cases "j = ?n") auto
  moreover have "ys ! ?n = xs ! ?n" using assms(2) new unfolding in_cycle_def by auto
  moreover have "wr[old := True] ! j \<longleftrightarrow> j \<in> R \<union> V" if "j < length p" for j
    using that assms(2) old unfolding in_cycle_def by (cases "j = old") auto
  ultimately show ?thesis using assms(2) new unfolding in_cycle_def V image by auto
qed

lemma cycle_loop_returns:
  assumes "is_permutation p"
  shows "in_cycle p xs R index V buffer old ys wr \<Longrightarrow>
    \<exists>buffer' old' ys' wr' V'. cycle_loop p index buffer old (p ! old) ys wr = Some (buffer', old', ys', wr') \<and>
      in_cycle p xs R index V' buffer' old' ys' wr' \<and> p ! old' = index"
proof (induction "length p - card V" arbitrary: V buffer old ys wr rule: less_induct)
  case less
  show ?case
  proof (cases "p ! old = index")
    case True
    then have "cycle_loop p index buffer old (p ! old) ys wr = Some (buffer, old, ys, wr)"
      by (subst cycle_loop.simps) simp
    then show ?thesis using less.prems True by blast
  next
    case False
    note new = in_cycle_new [OF assms less.prems False]
    have V: "V \<subseteq> {0..<length p}" using less.prems by (simp add: in_cycle_def)
    then have fin: "finite V" by (rule finite_subset) simp
    have "insert (p ! old) V \<subseteq> {0..<length p}" using V new(1) by auto
    then have "card (insert (p ! old) V) \<le> card {0..<length p}" by (intro card_mono) simp_all
    moreover have "card (insert (p ! old) V) = Suc (card V)" using fin new(2) by (rule card_insert_disjoint)
    ultimately have "length p - card (insert (p ! old) V) < length p - card V"
      by (simp only: card_atLeastLessThan)
    note IH = less.hyps [OF this in_cycle_step [OF assms less.prems False]]
    have "cycle_loop p index buffer old (p ! old) ys wr = cycle_loop p index (ys ! (p ! old)) (p ! old)
        (p ! (p ! old)) (ys[p ! old := buffer]) (wr[old := True])"
      by (subst cycle_loop.simps) (use False in simp)
    then show ?thesis using IH by (simp only:)
  qed
qed

lemma in_cycle_close:
  assumes "is_permutation p" "in_cycle p xs R index V buffer old ys wr" "p ! old = index"
  shows "moved p xs (R \<union> V) (ys[index := buffer]) (wr[old := True])"
proof -
  have old: "old < length p" "old \<in> V" "index \<in> V" "index < length p" using assms(2) unfolding in_cycle_def by auto
  have "(\<lambda>j. p ! j) ` V = insert index ((\<lambda>j. p ! j) ` (V - {old}))" using old(2) assms(3) by auto
  also have "\<dots> = V" using assms(2) old(3) unfolding in_cycle_def by auto
  finally have image: "(\<lambda>j. p ! j) ` (R \<union> V) = R \<union> V" using assms(2) unfolding in_cycle_def by (simp add: image_Un)
  have "ys[index := buffer] ! (p ! j) = xs ! j" if "j \<in> R \<union> V" for j
  proof (cases "j = old")
    case True
    then show ?thesis using assms(2,3) old unfolding in_cycle_def by simp
  next
    case False
    then have "j < length p" using that assms(2) unfolding in_cycle_def by auto
    then have "p ! j \<noteq> index" using is_permutation_inj [OF assms(1) _ old(1)] False assms(3) by simp
    then show ?thesis using that False assms(2) unfolding in_cycle_def by simp
  qed
  moreover have "ys[index := buffer] ! j = xs ! j" if "j < length p" "j \<notin> R \<union> V" for j
    using that assms(2) old unfolding in_cycle_def by (cases "j = index") auto
  moreover have "wr[old := True] ! j \<longleftrightarrow> j \<in> R \<union> V" if "j < length p" for j
    using that assms(2) old unfolding in_cycle_def by (cases "j = old") auto
  ultimately show ?thesis using assms(2) image unfolding moved_def in_cycle_def by simp
qed

lemma moved_fixpoint:
  assumes "moved p xs R ys wr" "index < length p" "p ! index = index"
  shows "moved p xs (insert index R) ys (wr[index := True])"
proof -
  have "ys ! index = xs ! index" using assms unfolding moved_def by (cases "index \<in> R") auto
  then show ?thesis using assms unfolding moved_def by (auto simp: nth_list_update)
qed

lemma permutation_loop_spec:
  assumes "is_permutation p"
  shows "moved p xs R ys wr \<Longrightarrow> \<forall>i \<in> set is. i < length p \<Longrightarrow> {0..<length p} \<subseteq> R \<union> set is \<Longrightarrow>
    \<exists>zs wr'. permutation_loop p is ys wr = Some zs \<and> moved p xs {0..<length p} zs wr'"
proof (induction "is" arbitrary: R ys wr)
  case Nil
  then have "R = {0..<length p}" unfolding moved_def by auto
  then show ?case using Nil by auto
next
  case (Cons i "is")
  have i: "i < length p" using Cons.prems by simp
  have wr: "wr ! i \<longleftrightarrow> i \<in> R" using Cons.prems(1) i unfolding moved_def by blast
  consider (finished) "i \<in> R" | (fixed) "i \<notin> R" "p ! i = i" | (cycle) "i \<notin> R" "p ! i \<noteq> i" by blast
  then show ?case
  proof cases
    case finished
    then have "{0..<length p} \<subseteq> R \<union> set is" using Cons.prems(3) by auto
    with Cons.IH [OF Cons.prems(1)] Cons.prems(2) finished wr show ?thesis by simp
  next
    case fixed
    have "{0..<length p} \<subseteq> insert i R \<union> set is" using Cons.prems(3) by auto
    with Cons.IH [OF moved_fixpoint [OF Cons.prems(1) i fixed(2)]] Cons.prems(2) fixed wr show ?thesis by simp
  next
    case cycle
    obtain b old ys' wr' V where loop: "cycle_loop p i (ys ! i) i (p ! i) ys wr = Some (b, old, ys', wr')"
      and cyc: "in_cycle p xs R i V b old ys' wr'" "p ! old = i"
      using cycle_loop_returns [OF assms in_cycle_start [OF Cons.prems(1) i cycle(1)]] by blast
    have "i \<in> V" using cyc(1) by (simp add: in_cycle_def)
    then have "{0..<length p} \<subseteq> R \<union> V \<union> set is" using Cons.prems(3) by auto
    with Cons.IH [OF in_cycle_close [OF assms cyc]] Cons.prems(2) show ?thesis
      using loop cycle wr by simp
  qed
qed

text \<open>In-place permutation, for clients.\<close>

lemma inplacePermutation_moves:
  assumes "is_permutation p" "length xs = length p"
  obtains ys where "inplacePermutation xs p = Some ys" "length ys = length xs" "\<And>i. i < length xs \<Longrightarrow> ys ! (p ! i) = xs ! i"
proof -
  have "moved p xs {} xs (replicate (length xs) False)" using assms(2) by (simp add: moved_def)
  from permutation_loop_spec [OF assms(1) this, of "[0..<length xs]"] obtain ys wr where
    ys: "inplacePermutation xs p = Some ys" "moved p xs {0..<length p} ys wr"
    using assms(2) by (auto simp: inplacePermutation_def)
  then have "length ys = length xs" "\<And>i. i < length xs \<Longrightarrow> ys ! (p ! i) = xs ! i"
    using assms(2) by (auto simp: moved_def)
  then show thesis using that ys(1) by blast
qed

text \<open>An ordering and its permutation are inverse.\<close>

lemma orderingToPermutation_inverse:
  assumes "is_permutation order" "i < length order"
  shows "orderingToPermutation order ! (order ! i) = i"
proof -
  let ?f = "\<lambda>m. fold (\<lambda>index p. p[order ! index := index]) [0..<m] (replicate (length order) 0)"
  have "m \<le> length order \<Longrightarrow> length (?f m) = length order \<and> (\<forall>j < m. ?f m ! (order ! j) = j)" for m
    using is_permutation_inj [OF assms(1)] is_permutation_nth [OF assms(1)]
    by (induction m) (auto simp: nth_list_update less_Suc_eq)
  then show ?thesis using assms(2) by (simp add: orderingToPermutation_def)
qed

section \<open>Properties\<close>

text \<open>
  C31.  Following the cycles terminates and applies the permutation: for every permutation of the
  positions the loop returns, and each element ends at its new position.
\<close>

theorem inplacePermutation_spec:
  assumes "is_permutation p" "length xs = length p"
  shows "\<exists>ys. inplacePermutation xs p = Some ys \<and> length ys = length xs \<and> (\<forall>i < length xs. ys ! (p ! i) = xs ! i)"
  using inplacePermutation_moves [OF assms] by metis

theorem inplacePermutation_spec_witness:
  "\<exists>ys. inplacePermutation ''abcd'' [2, 0, 1, 3] = Some ys \<and> ys ! 2 = CHR ''a''"
proof -
  have "is_permutation [2, 0, 1, 3]" unfolding is_permutation_def by code_simp
  from inplacePermutation_spec [OF this, of "''abcd''"] show ?thesis by force
qed

end
