(* ===== verification/Dynamic_Graph.thy ===== *)
theory Dynamic_Graph
  imports Permutation
begin

text \<open>
  \<^verbatim>\<open>include/util/dynamic_graph.hpp\<close>: an adjacency array whose nodes own ranges of one edge list.
  Slots that no node owns may be marked as dummies by the largest node id; insertion reuses dummies
  next to a range or moves the range to the end.  Edge iterators are 32-bit: growing the list beyond
  them is the value \<^term>\<open>None\<close>.  The contents of slots the vector adds are unspecified, so they are a
  parameter \<open>fresh\<close> of the operations that grow the list.
\<close>

section \<open>Data\<close>

record DynamicNode =
  first_edge :: nat
  edges :: nat

record 'd DynamicEdge =
  target :: nat
  data :: 'd

record 'd DynamicGraph =
  number_of_nodes :: nat
  number_of_edges :: nat
  node_array :: "DynamicNode list"
  edge_list :: "'d DynamicEdge list"

record 'd InputEdge =
  in_source :: nat
  in_target :: nat
  in_data :: 'd

definition SPECIAL_NODEID :: nat where
  "SPECIAL_NODEID = 4294967295"

definition SPECIAL_EDGEID :: nat where
  "SPECIAL_EDGEID = 4294967295"

definition InputEdge_less :: "'d InputEdge \<Rightarrow> 'd InputEdge \<Rightarrow> bool" where
  "InputEdge_less lhs rhs \<longleftrightarrow> in_source lhs < in_source rhs \<or>
     in_source lhs = in_source rhs \<and> in_target lhs < in_target rhs"

section \<open>Construction\<close>

definition resize :: "(nat \<Rightarrow> 'a) \<Rightarrow> nat \<Rightarrow> 'a list \<Rightarrow> 'a list" where
  "resize fresh n xs = take n xs @ map fresh [length xs..<n]"

definition DynamicGraph_empty :: "(nat \<Rightarrow> 'd DynamicEdge) \<Rightarrow> nat \<Rightarrow> 'd DynamicGraph" where
  "DynamicGraph_empty fresh nodes = \<lparr>number_of_nodes = nodes, number_of_edges = 0,
     node_array = replicate nodes \<lparr>first_edge = 0, edges = 0\<rparr>, edge_list = resize fresh nodes []\<rparr>"

text \<open>The number of edges of a node, read off the sorted input, and the first edge of every node.\<close>

fun count_source :: "nat \<Rightarrow> 'd InputEdge list \<Rightarrow> nat" where
  "count_source node [] = 0"
| "count_source node (e # es) = (if in_source e = node then Suc (count_source node es) else 0)"

fun make_nodes :: "nat list \<Rightarrow> 'd InputEdge list \<Rightarrow> nat \<Rightarrow> DynamicNode list" where
  "make_nodes [] graph position = []"
| "make_nodes (node # nodes) graph position =
     (let n = count_source node graph
      in \<lparr>first_edge = position, edges = n\<rparr> # make_nodes nodes (drop n graph) (position + n))"

text \<open>The edges are copied node by node; the input edges beyond the last position are dropped.\<close>

definition DynamicGraph_make :: "nat \<Rightarrow> 'd InputEdge list \<Rightarrow> 'd DynamicGraph" where
  "DynamicGraph_make nodes graph =
     (let node_arr = make_nodes [0..<nodes] graph 0; position = sum_list (map edges node_arr)
      in \<lparr>number_of_nodes = nodes, number_of_edges = length graph, node_array = node_arr,
          edge_list = map (\<lambda>e. \<lparr>target = in_target e, data = in_data e\<rparr>) (take position graph)\<rparr>)"

section \<open>Queries\<close>

definition BeginEdges :: "'d DynamicGraph \<Rightarrow> nat \<Rightarrow> nat" where
  "BeginEdges g n = first_edge (node_array g ! n)"

definition EndEdges :: "'d DynamicGraph \<Rightarrow> nat \<Rightarrow> nat" where
  "EndEdges g n = first_edge (node_array g ! n) + edges (node_array g ! n)"

definition GetAdjacentEdgeRange :: "'d DynamicGraph \<Rightarrow> nat \<Rightarrow> nat list" where
  "GetAdjacentEdgeRange g n = [BeginEdges g n..<EndEdges g n]"

definition GetOutDegree :: "'d DynamicGraph \<Rightarrow> nat \<Rightarrow> nat" where
  "GetOutDegree g n = edges (node_array g ! n)"

definition GetTarget :: "'d DynamicGraph \<Rightarrow> nat \<Rightarrow> nat" where
  "GetTarget g e = target (edge_list g ! e)"

definition GetEdgeData :: "'d DynamicGraph \<Rightarrow> nat \<Rightarrow> 'd" where
  "GetEdgeData g e = data (edge_list g ! e)"

definition GetDirectedOutDegree :: "('d \<Rightarrow> bool) \<Rightarrow> 'd DynamicGraph \<Rightarrow> nat \<Rightarrow> nat" where
  "GetDirectedOutDegree reversed g n =
     fold (\<lambda>edge degree. if \<not> reversed (GetEdgeData g edge) then degree + 1 else degree) [BeginEdges g n..<EndEdges g n] 0"

fun find_edge :: "'d DynamicGraph \<Rightarrow> nat \<Rightarrow> nat list \<Rightarrow> nat" where
  "find_edge g to [] = SPECIAL_EDGEID"
| "find_edge g to (i # is) = (if to = target (edge_list g ! i) then i else find_edge g to is)"

definition FindEdge :: "'d DynamicGraph \<Rightarrow> nat \<Rightarrow> nat \<Rightarrow> nat" where
  "FindEdge g from to = find_edge g to [BeginEdges g from..<EndEdges g from]"

definition FindSmallestEdge :: "('d \<Rightarrow> int) \<Rightarrow> int \<Rightarrow> 'd DynamicGraph \<Rightarrow> nat \<Rightarrow> nat \<Rightarrow> nat" where
  "FindSmallestEdge distance INVALID_EDGE_WEIGHT g from to =
     fst (fold (\<lambda>edge (smallest_edge, smallest_weight).
         if GetTarget g edge = to \<and> distance (GetEdgeData g edge) < smallest_weight
         then (edge, distance (GetEdgeData g edge)) else (smallest_edge, smallest_weight))
       (GetAdjacentEdgeRange g from) (SPECIAL_EDGEID, INVALID_EDGE_WEIGHT))"

definition FindEdgeInEitherDirection :: "'d DynamicGraph \<Rightarrow> nat \<Rightarrow> nat \<Rightarrow> nat" where
  "FindEdgeInEitherDirection g from to =
     (let tmp = FindEdge g from to in if SPECIAL_NODEID \<noteq> tmp then tmp else FindEdge g to from)"

text \<open>The reference parameter \<^verbatim>\<open>result\<close> is passed in and returned.\<close>

definition FindEdgeIndicateIfReverse :: "'d DynamicGraph \<Rightarrow> nat \<Rightarrow> nat \<Rightarrow> bool \<Rightarrow> nat \<times> bool" where
  "FindEdgeIndicateIfReverse g from to result =
     (let current = FindEdge g from to in
      if SPECIAL_NODEID = current
      then let current = FindEdge g to from in (current, if SPECIAL_NODEID \<noteq> current then True else result)
      else (current, result))"

section \<open>Updates\<close>

definition isDummy :: "'d DynamicEdge list \<Rightarrow> nat \<Rightarrow> bool" where
  "isDummy es e \<longleftrightarrow> target (es ! e) = SPECIAL_NODEID"

definition makeDummy :: "nat \<Rightarrow> 'd DynamicEdge list \<Rightarrow> 'd DynamicEdge list" where
  "makeDummy e es = es[e := (es ! e)\<lparr>target := SPECIAL_NODEID\<rparr>]"

definition SetTarget :: "nat \<Rightarrow> nat \<Rightarrow> 'd DynamicGraph \<Rightarrow> 'd DynamicGraph" where
  "SetTarget e n g = g\<lparr>edge_list := (edge_list g)[e := (edge_list g ! e)\<lparr>target := n\<rparr>]\<rparr>"

text \<open>\<^verbatim>\<open>node_array.back()\<close> of an empty array is undefined.\<close>

definition InsertNode :: "'d DynamicGraph \<Rightarrow> (nat \<times> 'd DynamicGraph) option" where
  "InsertNode g = (if node_array g = [] then None
     else Some (number_of_nodes g + 1, g\<lparr>node_array := node_array g @ [last (node_array g)],
        number_of_nodes := number_of_nodes g + 1\<rparr>))"

text \<open>Moving the edges of a node to the end, and room for more.\<close>

definition move_edges :: "(nat \<Rightarrow> 'd DynamicEdge) \<Rightarrow> DynamicNode \<Rightarrow> 'd DynamicEdge list \<Rightarrow> 'd DynamicEdge list" where
  "move_edges fresh node es =
     (let newFirstEdge = length es; newSize = edges node * 11 div 10 + 2;
          es1 = resize fresh (length es + newSize) es;
          es2 = fold (\<lambda>i es. makeDummy (first_edge node + i) (es[newFirstEdge + i := es ! (first_edge node + i)]))
                  [0..<edges node] es1
      in fold (\<lambda>i es. makeDummy (newFirstEdge + i) es) [edges node + 1..<newSize] es2)"

text \<open>Where the edges of the node go: behind is a free slot, before is one, or to the end.\<close>

definition insert_place :: "(nat \<Rightarrow> 'd DynamicEdge) \<Rightarrow> DynamicNode \<Rightarrow> 'd DynamicEdge list \<Rightarrow> (nat \<times> 'd DynamicEdge list) option" where
  "insert_place fresh node es =
     (let one_beyond_last_of_node = edges node + first_edge node in
      if one_beyond_last_of_node = length es \<or> \<not> isDummy es one_beyond_last_of_node
      then if first_edge node \<noteq> 0 \<and> isDummy es (first_edge node - 1)
           then Some (first_edge node - 1, es[first_edge node - 1 := es ! (first_edge node - 1 + edges node)])
           else if length es + (edges node * 11 div 10 + 2) \<ge> 2 ^ 32 then None
           else Some (length es, move_edges fresh node es)
      else Some (first_edge node, es))"

definition InsertEdge :: "(nat \<Rightarrow> 'd DynamicEdge) \<Rightarrow> nat \<Rightarrow> nat \<Rightarrow> 'd \<Rightarrow> 'd DynamicGraph \<Rightarrow> (nat \<times> 'd DynamicGraph) option" where
  "InsertEdge fresh from to d g =
     (let node = node_array g ! from in
      case insert_place fresh node (edge_list g) of None \<Rightarrow> None
      | Some (first, es) \<Rightarrow>
          Some (first + (edges node + 1),
            g\<lparr>edge_list := es[first + edges node := \<lparr>target = to, data = d\<rparr>],
              number_of_edges := number_of_edges g + 1,
              node_array := (node_array g)[from := \<lparr>first_edge = first, edges = edges node + 1\<rparr>]\<rparr>))"

definition DeleteEdge :: "nat \<Rightarrow> nat \<Rightarrow> 'd DynamicGraph \<Rightarrow> 'd DynamicGraph" where
  "DeleteEdge source e g =
     (let node = node_array g ! source;
          node' = node\<lparr>edges := edges node - 1\<rparr>;
          last_edge = first_edge node' + edges node'
      in g\<lparr>number_of_edges := number_of_edges g - 1, node_array := (node_array g)[source := node'],
           edge_list := makeDummy last_edge ((edge_list g)[e := edge_list g ! last_edge])\<rparr>)"

text \<open>The inner and the outer loop of \<^verbatim>\<open>DeleteEdgesTo\<close>; the bounds \<open>i\<close> and \<open>iend - deleted\<close> approach each other.\<close>

function delete_run :: "nat \<Rightarrow> nat \<Rightarrow> nat \<Rightarrow> nat \<Rightarrow> 'd DynamicEdge list \<Rightarrow> nat \<times> 'd DynamicEdge list" where
  "delete_run t i iend deleted es =
     (let deleted' = deleted + 1;
          es' = makeDummy (iend - deleted') (es[i := es ! (iend - deleted')])
      in if i < iend - deleted' \<and> target (es' ! i) = t then delete_run t i iend deleted' es' else (deleted', es'))"
  by auto
termination by (relation "measure (\<lambda>(t, i, iend, deleted, es). iend - deleted)") auto

declare delete_run.simps [simp del]

function delete_loop :: "nat \<Rightarrow> nat \<Rightarrow> nat \<Rightarrow> nat \<Rightarrow> 'd DynamicEdge list \<Rightarrow> nat \<times> 'd DynamicEdge list" where
  "delete_loop t i iend deleted es =
     (if i < iend - deleted
      then case (if target (es ! i) = t then delete_run t i iend deleted es else (deleted, es)) of
             (deleted', es') \<Rightarrow> delete_loop t (i + 1) iend deleted' es'
      else (deleted, es))"
  by auto
termination by (relation "measure (\<lambda>(t, i, iend, deleted, es). iend - i)") auto

declare delete_loop.simps [simp del]

definition DeleteEdgesTo :: "nat \<Rightarrow> nat \<Rightarrow> 'd DynamicGraph \<Rightarrow> nat \<times> 'd DynamicGraph" where
  "DeleteEdgesTo source t g =
     (case delete_loop t (BeginEdges g source) (EndEdges g source) 0 (edge_list g) of (deleted, es) \<Rightarrow>
        (deleted, g\<lparr>edge_list := es, number_of_edges := number_of_edges g - deleted,
           node_array := (node_array g)[source :=
             (node_array g ! source)\<lparr>edges := edges (node_array g ! source) - deleted\<rparr>]\<rparr>))"

text \<open>\<^verbatim>\<open>Filter\<close>: the kept edges of the kept nodes, in order; the number of edges is copied.\<close>

fun filter_nodes :: "(nat \<Rightarrow> bool) \<Rightarrow> 'd DynamicEdge list \<Rightarrow> nat \<Rightarrow> DynamicNode list \<Rightarrow> 'd DynamicEdge list
    \<Rightarrow> DynamicNode list \<times> 'd DynamicEdge list" where
  "filter_nodes f es node_id [] out = ([], out)"
| "filter_nodes f es node_id (node # nodes) out =
     (let kept = (if f node_id then filter (\<lambda>edge. f (target edge)) (take (edges node) (drop (first_edge node) es)) else [])
      in case filter_nodes f es (node_id + 1) nodes (out @ kept) of (rest, out') \<Rightarrow>
           (\<lparr>first_edge = length out, edges = length kept\<rparr> # rest, out'))"

definition Filter :: "(nat \<Rightarrow> bool) \<Rightarrow> 'd DynamicGraph \<Rightarrow> 'd DynamicGraph" where
  "Filter f g = (case filter_nodes f (edge_list g) 0 (node_array g) [] of (nodes, out) \<Rightarrow>
     \<lparr>number_of_nodes = number_of_nodes g, number_of_edges = number_of_edges g, node_array = nodes, edge_list = out\<rparr>)"

text \<open>\<^verbatim>\<open>Renumber\<close>: an exception for too many edges; not returning would be a cycle that never closes.\<close>

datatype 'a outcome = Done 'a | Throws string | Diverges

record 'd renumbering =
  rn_new_edge_index :: nat
  rn_old_to_new_edge :: "nat list"
  rn_edge_list :: "'d DynamicEdge list"

definition renumber_edge :: "nat list \<Rightarrow> nat \<Rightarrow> 'd renumbering \<Rightarrow> 'd renumbering" where
  "renumber_edge old_to_new_node edge r =
     \<lparr>rn_new_edge_index = rn_new_edge_index r + 1,
      rn_old_to_new_edge = (rn_old_to_new_edge r)[edge := rn_new_edge_index r],
      rn_edge_list = (rn_edge_list r)[edge :=
        (rn_edge_list r ! edge)\<lparr>target := old_to_new_node ! target (rn_edge_list r ! edge)\<rparr>]\<rparr>"

fun renumber_nodes :: "nat list \<Rightarrow> DynamicNode list \<Rightarrow> 'd renumbering \<Rightarrow> DynamicNode list \<times> 'd renumbering" where
  "renumber_nodes old_to_new_node [] r = ([], r)"
| "renumber_nodes old_to_new_node (node # nodes) r =
     (case renumber_nodes old_to_new_node nodes
        (fold (renumber_edge old_to_new_node) [first_edge node..<first_edge node + edges node] r) of
        (nodes', r') \<Rightarrow> (node\<lparr>first_edge := rn_new_edge_index r\<rparr> # nodes', r'))"

definition renumber_dummies :: "nat list \<times> nat \<Rightarrow> nat list" where
  "renumber_dummies = (\<lambda>(old_to_new_edge, new_edge_index).
     fst (fold (\<lambda>edge (o2n, i). if o2n ! edge = SPECIAL_EDGEID then (o2n[edge := i], i + 1) else (o2n, i))
       [0..<length old_to_new_edge] (old_to_new_edge, new_edge_index)))"

definition Renumber :: "nat list \<Rightarrow> 'd DynamicGraph \<Rightarrow> 'd DynamicGraph outcome" where
  "Renumber old_to_new_node g =
     (case inplacePermutation (node_array g) old_to_new_node of None \<Rightarrow> Diverges
      | Some nodes \<Rightarrow>
        if length (edge_list g) \<ge> SPECIAL_EDGEID
        then Throws ''There are too many edges, OSRM only supports 2^32''
        else case renumber_nodes old_to_new_node nodes \<lparr>rn_new_edge_index = 0,
               rn_old_to_new_edge = replicate (length (edge_list g)) SPECIAL_EDGEID, rn_edge_list = edge_list g\<rparr> of
             (nodes', r) \<Rightarrow>
               case inplacePermutation (rn_edge_list r)
                      (renumber_dummies (rn_old_to_new_edge r, rn_new_edge_index r)) of None \<Rightarrow> Diverges
               | Some es \<Rightarrow> Done \<lparr>number_of_nodes = number_of_nodes g, number_of_edges = rn_new_edge_index r,
                   node_array = nodes', edge_list = take (rn_new_edge_index r) es\<rparr>)"

section \<open>Invariant and abstraction\<close>

lemma node_edges_update [simp]: "(x :: DynamicNode)\<lparr>edges := k\<rparr> = \<lparr>first_edge = first_edge x, edges = k\<rparr>"
  by (cases x) simp

text \<open>The slots a node owns, and its edges, in order and as a multiset.\<close>

definition owned :: "'d DynamicGraph \<Rightarrow> nat \<Rightarrow> nat set" where
  "owned g n = {BeginEdges g n..<EndEdges g n}"

definition adj_list :: "'d DynamicGraph \<Rightarrow> nat \<Rightarrow> 'd DynamicEdge list" where
  "adj_list g n = map (\<lambda>e. edge_list g ! e) [BeginEdges g n..<EndEdges g n]"

definition adj :: "'d DynamicGraph \<Rightarrow> nat \<Rightarrow> 'd DynamicEdge multiset" where
  "adj g n = mset (adj_list g n)"

definition dg_inv :: "'d DynamicGraph \<Rightarrow> bool" where
  "dg_inv g \<longleftrightarrow> length (node_array g) = number_of_nodes g \<and> number_of_nodes g \<le> SPECIAL_NODEID \<and>
     (\<forall>n < number_of_nodes g. EndEdges g n \<le> length (edge_list g) \<and>
        (\<forall>x \<in># adj g n. target x < number_of_nodes g) \<and>
        (\<forall>m < number_of_nodes g. m \<noteq> n \<longrightarrow> owned g n \<inter> owned g m = {})) \<and>
     number_of_edges g = sum_list (map edges (node_array g))"

lemma dg_invD:
  assumes "dg_inv g"
  shows "length (node_array g) = number_of_nodes g" "number_of_nodes g \<le> SPECIAL_NODEID"
    "n < number_of_nodes g \<Longrightarrow> EndEdges g n \<le> length (edge_list g)"
    "n < number_of_nodes g \<Longrightarrow> x \<in># adj g n \<Longrightarrow> target x < number_of_nodes g"
    "n < number_of_nodes g \<Longrightarrow> m < number_of_nodes g \<Longrightarrow> m \<noteq> n \<Longrightarrow> owned g n \<inter> owned g m = {}"
    "number_of_edges g = sum_list (map edges (node_array g))"
  using assms by (simp_all add: dg_inv_def)

lemma adj_nth: "e \<in> owned g n \<Longrightarrow> edge_list g ! e \<in># adj g n"
  by (simp add: adj_def adj_list_def owned_def)

lemma dummy_unowned:
  assumes "dg_inv g" "n < number_of_nodes g" "isDummy (edge_list g) e"
  shows "e \<notin> owned g n"
proof
  assume "e \<in> owned g n"
  from dg_invD(4) [OF assms(1,2) adj_nth [OF this]] show False
    using dg_invD(2) [OF assms(1)] assms(3) by (simp add: isDummy_def)
qed

text \<open>The graph the structure represents.\<close>

definition graph_of :: "'d DynamicGraph \<Rightarrow> nat \<Rightarrow> 'd DynamicEdge multiset" where
  "graph_of g n = (if n < number_of_nodes g then adj g n else {#})"

text \<open>
  Changing the range of one node and the slots outside the other ranges: the frame rule of all
  updates.
\<close>

lemma update_node:
  assumes "dg_inv g" "n < number_of_nodes g" "f + k \<le> length es"
    and "\<And>m e. m < number_of_nodes g \<Longrightarrow> m \<noteq> n \<Longrightarrow> e \<in> owned g m \<Longrightarrow> e < length es \<and> es ! e = edge_list g ! e \<and> \<not> (f \<le> e \<and> e < f + k)"
    and "\<And>x. x \<in># M \<Longrightarrow> target x < number_of_nodes g" "M = mset (map (\<lambda>e. es ! e) [f..<f + k])"
    and "length (edge_list g) \<le> length es"
    and "cnt + edges (node_array g ! n) = number_of_edges g + k"
  defines "g' \<equiv> g\<lparr>edge_list := es, number_of_edges := cnt, node_array := (node_array g)[n := \<lparr>first_edge = f, edges = k\<rparr>]\<rparr>"
  shows "dg_inv g' \<and> graph_of g' = (graph_of g)(n := M)"
proof -
  have len: "length (node_array g) = number_of_nodes g" by (rule dg_invD(1) [OF assms(1)])
  have at_n: "BeginEdges g' n = f" "EndEdges g' n = f + k" using assms(2) len by (simp_all add: g'_def BeginEdges_def EndEdges_def)
  have at_m: "BeginEdges g' m = BeginEdges g m" "EndEdges g' m = EndEdges g m" if "m \<noteq> n" for m
    using that by (simp_all add: g'_def BeginEdges_def EndEdges_def)
  have own: "owned g' n = {f..<f + k}" "m \<noteq> n \<Longrightarrow> owned g' m = owned g m" for m
    using at_n at_m by (simp_all add: owned_def)
  have adj_m: "adj g' m = adj g m" if "m < number_of_nodes g" "m \<noteq> n" for m
  proof -
    have "adj_list g' m = adj_list g m"
      unfolding adj_list_def at_m [OF that(2)]
      by (rule map_cong) (use assms(4) [OF that] in \<open>auto simp: owned_def g'_def\<close>)
    then show ?thesis by (simp add: adj_def)
  qed
  have adj_n: "adj g' n = M" using at_n assms(6) by (simp add: adj_def adj_list_def g'_def)
  have "EndEdges g' m \<le> length (edge_list g')" if "m < number_of_nodes g" for m
    using dg_invD(3) [OF assms(1) that] at_n at_m [of m] assms(3,7) by (cases "m = n") (simp_all add: g'_def)
  moreover have "target x < number_of_nodes g" if "m < number_of_nodes g" "x \<in># adj g' m" for m x
    using that dg_invD(4) [OF assms(1) that(1)] adj_m [of m] adj_n assms(5) by (cases "m = n") simp_all
  moreover have "owned g' a \<inter> owned g' b = {}" if "a < number_of_nodes g" "b < number_of_nodes g" "b \<noteq> a" for a b
    using dg_invD(5) [OF assms(1) that] own assms(4) [of a] assms(4) [of b] that
    by (cases "a = n"; cases "b = n") fastforce+
  moreover have "cnt = sum_list (map edges ((node_array g)[n := \<lparr>first_edge = f, edges = k\<rparr>]))"
  proof -
    have "sum_list ((map edges (node_array g))[n := k]) + edges (node_array g ! n) = sum_list (map edges (node_array g)) + k"
      using assms(2) len member_le_sum_list [of "edges (node_array g ! n)" "map edges (node_array g)"]
      by (simp add: sum_list_update)
    then show ?thesis using assms(8) dg_invD(6) [OF assms(1)] by (simp add: map_update)
  qed
  ultimately have "dg_inv g'" using dg_invD(1,2) [OF assms(1)] unfolding dg_inv_def by (simp add: g'_def)
  moreover have "graph_of g' = (graph_of g)(n := M)"
    using adj_m adj_n assms(2) by (auto simp: graph_of_def fun_eq_iff) (simp_all add: g'_def)
  ultimately show ?thesis ..
qed

section \<open>Deletion\<close>

text \<open>Overwriting an edge by the last one of its range and shortening the range removes it.\<close>

lemma makeDummy_length [simp]: "length (makeDummy e es) = length es"
  by (simp add: makeDummy_def)

lemma makeDummy_other: "j \<noteq> e \<Longrightarrow> makeDummy e es ! j = es ! j"
  by (simp add: makeDummy_def)

lemma map_nth_update:
  "f \<le> i \<Longrightarrow> i < k \<Longrightarrow> k \<le> length es \<Longrightarrow>
   map (\<lambda>e. es[i := x] ! e) [f..<k] = (map (\<lambda>e. es ! e) [f..<k])[i - f := x]"
  by (rule nth_equalityI) (auto simp: nth_list_update)

lemma swap_delete:
  assumes "f \<le> i" "i < k" "k \<le> length es"
  shows "mset (map (\<lambda>e. makeDummy (k - 1) (es[i := es ! (k - 1)]) ! e) [f..<k - 1]) =
    mset (map (\<lambda>e. es ! e) [f..<k]) - {#es ! i#}"
proof -
  have k: "k = Suc (k - 1)" "f \<le> k - 1" using assms(1,2) by auto
  define k' where "k' = k - 1"
  note k = k [folded k'_def]
  have dummy: "map (\<lambda>e. makeDummy k' (es[i := es ! k']) ! e) [f..<k'] = map (\<lambda>e. es[i := es ! k'] ! e) [f..<k']"
    by (auto simp: makeDummy_other)
  show ?thesis
  proof (cases "i = k'")
    case True
    then have "map (\<lambda>e. makeDummy k' (es[i := es ! k']) ! e) [f..<k'] = map (\<lambda>e. es ! e) [f..<k']"
      using dummy by (simp only: list_update_id)
    moreover have "map (\<lambda>e. es ! e) [f..<k] = map (\<lambda>e. es ! e) [f..<k'] @ [es ! i]" using True k by (subst k(1)) simp
    ultimately show ?thesis by (simp only: k'_def mset_append) simp
  next
    case False
    then have i: "i < k'" using assms(2) k by simp
    have "map (\<lambda>e. es[i := es ! k'] ! e) [f..<k'] = (map (\<lambda>e. es ! e) [f..<k'])[i - f := es ! k']"
      using assms k i by (intro map_nth_update) auto
    moreover have "map (\<lambda>e. es ! e) [f..<k'] ! (i - f) = es ! i" using assms(1) i by simp
    ultimately show ?thesis using k dummy i assms(1)
      by (simp add: mset_update del: mset_map)
  qed
qed

lemma owned_disjoint:
  assumes "dg_inv g" "n < number_of_nodes g" "m < number_of_nodes g" "m \<noteq> n" "e \<in> owned g m"
  shows "e \<notin> owned g n" "e < length (edge_list g)"
  using dg_invD(5) [OF assms(1-4)] dg_invD(3) [OF assms(1,3)] assms(5) by (auto simp: owned_def)

lemma DeleteEdge_spec:
  assumes "dg_inv g" "n < number_of_nodes g" "e \<in> owned g n"
  shows "dg_inv (DeleteEdge n e g) \<and>
    graph_of (DeleteEdge n e g) = (graph_of g)(n := graph_of g n - {#edge_list g ! e#})"
proof -
  let ?f = "BeginEdges g n" and ?k = "EndEdges g n" and ?es = "edge_list g"
  let ?es' = "makeDummy (?k - 1) (?es[e := ?es ! (?k - 1)])"
  define k where "k = edges (node_array g ! n) - 1"
  have e: "?f \<le> e" "e < ?k" using assms(3) by (auto simp: owned_def)
  have k: "?f + k = ?k - 1" "edges (node_array g ! n) = Suc k" "first_edge (node_array g ! n) = ?f"
    using e by (auto simp: k_def BeginEdges_def EndEdges_def)
  have kl: "?k \<le> length ?es" by (rule dg_invD(3) [OF assms(1,2)])
  have M: "mset (map (\<lambda>x. ?es' ! x) [?f..<?f + k]) = adj g n - {#?es ! e#}"
    using swap_delete [OF e kl] unfolding k(1) by (simp add: adj_def adj_list_def)
  have res: "DeleteEdge n e g = g\<lparr>edge_list := ?es', number_of_edges := number_of_edges g - 1,
      node_array := (node_array g)[n := \<lparr>first_edge = ?f, edges = k\<rparr>]\<rparr>"
    using k by (simp add: DeleteEdge_def Let_def)
  have "edges (node_array g ! n) \<le> number_of_edges g"
    using dg_invD(1,6) [OF assms(1)] assms(2) by (simp add: member_le_sum_list)
  then have cnt: "number_of_edges g - 1 + edges (node_array g ! n) = number_of_edges g + k" using k(2) by simp
  have frame: "x < length ?es' \<and> ?es' ! x = ?es ! x \<and> \<not> (?f \<le> x \<and> x < ?f + k)"
    if "m < number_of_nodes g" "m \<noteq> n" "x \<in> owned g m" for m x
  proof -
    have "x \<notin> owned g n" "x < length ?es" using owned_disjoint [OF assms(1,2) that] .
    then show ?thesis using e k(1) assms(3) by (auto simp: owned_def makeDummy_other)
  qed
  have "dg_inv (DeleteEdge n e g) \<and> graph_of (DeleteEdge n e g) = (graph_of g)(n := adj g n - {#?es ! e#})"
    unfolding res
  proof (rule update_node [OF assms(1,2) _ frame _ M [symmetric] _ cnt])
    show "?f + k \<le> length ?es'" using k(1) kl by simp
    show "target x < number_of_nodes g" if "x \<in># adj g n - {#?es ! e#}" for x
      using dg_invD(4) [OF assms(1,2) in_diffD [OF that]] .
  qed simp_all
  then show ?thesis using assms(2) by (simp add: graph_of_def)
qed

text \<open>The loops that delete all edges to a target: what is removed has that target.\<close>

definition removes :: "nat \<Rightarrow> nat \<Rightarrow> nat \<Rightarrow> 'd DynamicEdge list \<Rightarrow> nat \<Rightarrow> 'd DynamicEdge list \<Rightarrow> nat \<Rightarrow> bool" where
  "removes t f i es k es' k' \<longleftrightarrow> length es' = length es \<and> k' \<le> k \<and>
     (\<forall>j. j < i \<or> k \<le> j \<longrightarrow> es' ! j = es ! j) \<and>
     (\<exists>R. (\<forall>x \<in># R. target x = t) \<and> size R = k - k' \<and>
        mset (map (\<lambda>e. es ! e) [f..<k]) = mset (map (\<lambda>e. es' ! e) [f..<k']) + R)"

lemma removes_refl: "removes t f i es k es k"
  unfolding removes_def by (auto intro: exI [of _ "{#}"])

lemma removes_trans:
  assumes "removes t f i es k es1 k1" "removes t f j es1 k1 es2 k2" "i \<le> j"
  shows "removes t f i es k es2 k2"
proof -
  obtain R1 R2 where "\<forall>x \<in># R1. target x = t" "size R1 = k - k1" "\<forall>x \<in># R2. target x = t" "size R2 = k1 - k2"
    "mset (map (\<lambda>e. es ! e) [f..<k]) = mset (map (\<lambda>e. es1 ! e) [f..<k1]) + R1"
    "mset (map (\<lambda>e. es1 ! e) [f..<k1]) = mset (map (\<lambda>e. es2 ! e) [f..<k2]) + R2"
    using assms(1,2) unfolding removes_def by blast
  moreover have "k1 \<le> k" "k2 \<le> k1" "length es2 = length es" using assms(1,2) unfolding removes_def by auto
  moreover have "\<forall>x. x < i \<or> k \<le> x \<longrightarrow> es2 ! x = es ! x"
    using assms unfolding removes_def by (metis le_trans less_le_trans)
  ultimately show ?thesis unfolding removes_def by (intro conjI exI [of _ "R1 + R2"]) (auto simp: union_commute union_assoc)
qed

lemma removes_step:
  assumes "f \<le> i" "i < k" "k \<le> length es" "target (es ! i) = t"
  shows "removes t f i es k (makeDummy (k - 1) (es[i := es ! (k - 1)])) (k - 1)"
proof -
  have "es ! i \<in># mset (map (\<lambda>e. es ! e) [f..<k])" using assms(1,2) by simp
  then have "mset (map (\<lambda>e. es ! e) [f..<k]) =
      mset (map (\<lambda>e. makeDummy (k - 1) (es[i := es ! (k - 1)]) ! e) [f..<k - 1]) + {#es ! i#}"
    unfolding swap_delete [OF assms(1-3)] by (simp del: mset_map)
  then show ?thesis using assms unfolding removes_def
    by (intro conjI exI [of _ "{#es ! i#}"]) (auto simp: makeDummy_other)
qed

lemma delete_run_spec:
  "f \<le> i \<Longrightarrow> i < iend - deleted \<Longrightarrow> iend \<le> length es \<Longrightarrow> target (es ! i) = t \<Longrightarrow>
   case delete_run t i iend deleted es of (d', es') \<Rightarrow>
     removes t f i es (iend - deleted) es' (iend - d') \<and> deleted < d' \<and> d' \<le> iend \<and> i \<le> iend - d' \<and>
     (i < iend - d' \<longrightarrow> target (es' ! i) \<noteq> t)"
proof (induction t i iend deleted es rule: delete_run.induct)
  case (1 t i iend deleted es)
  define d1 where "d1 = deleted + 1"
  define es1 where "es1 = makeDummy (iend - d1) (es[i := es ! (iend - d1)])"
  have step: "removes t f i es (iend - deleted) es1 (iend - d1)"
    using removes_step [of f i "iend - deleted" es t] "1.prems" by (simp add: d1_def es1_def)
  have unfold: "delete_run t i iend deleted es =
      (if i < iend - d1 \<and> target (es1 ! i) = t then delete_run t i iend d1 es1 else (d1, es1))"
    by (subst delete_run.simps) (simp only: d1_def es1_def Let_def)
  show ?case
  proof (cases "i < iend - d1 \<and> target (es1 ! i) = t")
    case True
    have "length es1 = length es" using step by (simp add: removes_def)
    then have IH: "case delete_run t i iend d1 es1 of (d', es') \<Rightarrow>
        removes t f i es1 (iend - d1) es' (iend - d') \<and> d1 < d' \<and> d' \<le> iend \<and> i \<le> iend - d' \<and>
        (i < iend - d' \<longrightarrow> target (es' ! i) \<noteq> t)"
      using "1.IH" [OF d1_def es1_def True] "1.prems" True by simp
    have "delete_run t i iend deleted es = delete_run t i iend d1 es1"
      unfolding unfold using True by (rule if_P)
    then show ?thesis using IH removes_trans [OF step _ order_refl] by (auto simp: d1_def split: prod.splits)
  next
    case False
    then have "delete_run t i iend deleted es = (d1, es1)" unfolding unfold by (rule if_not_P)
    then show ?thesis using step False "1.prems" by (auto simp: d1_def)
  qed
qed

lemma delete_loop_spec:
  "f \<le> i \<Longrightarrow> iend \<le> length es \<Longrightarrow> deleted \<le> iend \<Longrightarrow> \<forall>j. f \<le> j \<and> j < i \<and> j < iend - deleted \<longrightarrow> target (es ! j) \<noteq> t \<Longrightarrow>
   case delete_loop t i iend deleted es of (d', es') \<Rightarrow>
     removes t f f es (iend - deleted) es' (iend - d') \<and> deleted \<le> d' \<and> d' \<le> iend \<and>
     (\<forall>j. f \<le> j \<and> j < iend - d' \<longrightarrow> target (es' ! j) \<noteq> t)"
proof (induction t i iend deleted es rule: delete_loop.induct)
  case (1 t i iend deleted es)
  show ?case
  proof (cases "i < iend - deleted")
    case False
    then have "delete_loop t i iend deleted es = (deleted, es)" by (simp add: delete_loop.simps [of t i])
    then show ?thesis using "1.prems" False by (simp add: removes_refl)
  next
    case True
    obtain d1 es1 where one: "(if target (es ! i) = t then delete_run t i iend deleted es else (deleted, es)) = (d1, es1)"
      by fastforce
    have step: "removes t f i es (iend - deleted) es1 (iend - d1)" "deleted \<le> d1" "d1 \<le> iend"
      "i < iend - d1 \<longrightarrow> target (es1 ! i) \<noteq> t"
      using one delete_run_spec [of f i iend deleted es t] "1.prems" True
      by (auto simp: removes_refl split: if_splits prod.splits)
    have len: "length es1 = length es" and same: "\<And>j. j < i \<Longrightarrow> es1 ! j = es ! j" using step(1) by (simp_all add: removes_def)
    have clean: "\<forall>j. f \<le> j \<and> j < i + 1 \<and> j < iend - d1 \<longrightarrow> target (es1 ! j) \<noteq> t"
    proof (intro allI impI, elim conjE)
      fix j assume j: "f \<le> j" "j < i + 1" "j < iend - d1"
      show "target (es1 ! j) \<noteq> t"
      proof (cases "j = i")
        case False
        then show ?thesis using j same "1.prems"(4) step(2) by simp
      qed (use j step(4) in simp)
    qed
    have IH: "case delete_loop t (i + 1) iend d1 es1 of (d', es') \<Rightarrow>
        removes t f f es1 (iend - d1) es' (iend - d') \<and> d1 \<le> d' \<and> d' \<le> iend \<and>
        (\<forall>j. f \<le> j \<and> j < iend - d' \<longrightarrow> target (es' ! j) \<noteq> t)"
      using "1.prems"(1,2) len by (intro "1.IH" [OF True one [symmetric] _ _ step(3) clean]) simp_all
    obtain d2 es2 where res: "delete_loop t (i + 1) iend d1 es1 = (d2, es2)" by fastforce
    have "removes t f f es (iend - deleted) es1 (iend - d1)" using step(1) "1.prems"(1) unfolding removes_def by auto
    then have "removes t f f es (iend - deleted) es2 (iend - d2)"
      by (rule removes_trans [OF _ _ order_refl]) (use IH res in simp)
    moreover have "delete_loop t i iend deleted es = delete_loop t (i + 1) iend d1 es1"
      using True one by (simp add: delete_loop.simps [of t i])
    ultimately show ?thesis using IH step(2) res by simp
  qed
qed

lemma removes_filter:
  assumes "removes t f i es k es' k'" "\<forall>j. f \<le> j \<and> j < k' \<longrightarrow> target (es' ! j) \<noteq> t"
  shows "mset (map (\<lambda>e. es' ! e) [f..<k']) = filter_mset (\<lambda>x. target x \<noteq> t) (mset (map (\<lambda>e. es ! e) [f..<k]))"
proof -
  obtain R where R: "\<forall>x \<in># R. target x = t" "mset (map (\<lambda>e. es ! e) [f..<k]) = mset (map (\<lambda>e. es' ! e) [f..<k']) + R"
    using assms(1) unfolding removes_def by blast
  have "filter_mset (\<lambda>x. target x \<noteq> t) R = {#}" using R(1) by (simp add: filter_mset_eq_conv)
  moreover have "filter_mset (\<lambda>x. target x \<noteq> t) (mset (map (\<lambda>e. es' ! e) [f..<k'])) = mset (map (\<lambda>e. es' ! e) [f..<k'])"
    using assms(2) by (auto simp: filter_mset_eq_conv simp del: mset_map)
  ultimately show ?thesis unfolding R(2) by (simp del: mset_map)
qed

lemma DeleteEdgesTo_spec:
  assumes "dg_inv g" "n < number_of_nodes g"
  shows "dg_inv (snd (DeleteEdgesTo n t g)) \<and>
    graph_of (snd (DeleteEdgesTo n t g)) = (graph_of g)(n := filter_mset (\<lambda>x. target x \<noteq> t) (graph_of g n)) \<and>
    fst (DeleteEdgesTo n t g) = size (filter_mset (\<lambda>x. target x = t) (graph_of g n))"
proof -
  let ?f = "BeginEdges g n" and ?k = "EndEdges g n"
  obtain d es where loop: "delete_loop t ?f ?k 0 (edge_list g) = (d, es)" by fastforce
  have kl: "?k \<le> length (edge_list g)" by (rule dg_invD(3) [OF assms])
  have spec: "removes t ?f ?f (edge_list g) ?k es (?k - d)" "d \<le> ?k" "\<forall>j. ?f \<le> j \<and> j < ?k - d \<longrightarrow> target (es ! j) \<noteq> t"
    using delete_loop_spec [of ?f ?f ?k "edge_list g" 0 t] kl loop by auto
  define k where "k = edges (node_array g ! n) - d"
  have e: "?k = ?f + edges (node_array g ! n)" "first_edge (node_array g ! n) = ?f" by (simp_all add: BeginEdges_def EndEdges_def)
  have M: "mset (map (\<lambda>x. es ! x) [?f..<?k - d]) = filter_mset (\<lambda>x. target x \<noteq> t) (adj g n)"
    using removes_filter [OF spec(1,3)] by (simp only: adj_def adj_list_def)
  obtain R where R: "size R = ?k - (?k - d)" "adj g n = mset (map (\<lambda>x. es ! x) [?f..<?k - d]) + R"
    using spec(1) unfolding removes_def adj_def adj_list_def by blast
  have "size (adj g n) = edges (node_array g ! n)" by (simp add: adj_def adj_list_def e(1))
  moreover have "size (adj g n) = (?k - d - ?f) + d" using R spec(2) by simp
  ultimately have d: "d \<le> edges (node_array g ! n)" by simp
  then have k: "?f + k = ?k - d" unfolding k_def e(1) by simp
  have le: "edges (node_array g ! n) \<le> number_of_edges g"
    using dg_invD(1,6) [OF assms(1)] assms(2) by (simp add: member_le_sum_list)
  have res: "DeleteEdgesTo n t g = (d, g\<lparr>edge_list := es, number_of_edges := number_of_edges g - d,
      node_array := (node_array g)[n := \<lparr>first_edge = ?f, edges = k\<rparr>]\<rparr>)"
    using loop by (simp add: DeleteEdgesTo_def k_def e(2))
  have frame: "x < length es \<and> es ! x = edge_list g ! x \<and> \<not> (?f \<le> x \<and> x < ?f + k)"
    if "m < number_of_nodes g" "m \<noteq> n" "x \<in> owned g m" for m x
  proof -
    have "x \<notin> owned g n" "x < length (edge_list g)" using owned_disjoint [OF assms that] .
    then show ?thesis using spec(1) k unfolding removes_def owned_def by auto
  qed
  have "dg_inv (snd (DeleteEdgesTo n t g)) \<and>
      graph_of (snd (DeleteEdgesTo n t g)) = (graph_of g)(n := filter_mset (\<lambda>x. target x \<noteq> t) (adj g n))"
    unfolding res snd_conv
  proof (rule update_node [OF assms _ frame _ _ _ ])
    show "?f + k \<le> length es" using k kl spec(1) by (simp add: removes_def)
    show "target x < number_of_nodes g" if "x \<in># filter_mset (\<lambda>x. target x \<noteq> t) (adj g n)" for x
      using dg_invD(4) [OF assms] that by simp
    show "filter_mset (\<lambda>x. target x \<noteq> t) (adj g n) = mset (map (\<lambda>e. es ! e) [?f..<?f + k])" using M k by (simp only:)
    show "length (edge_list g) \<le> length es" using spec(1) by (simp add: removes_def)
    show "number_of_edges g - d + edges (node_array g ! n) = number_of_edges g + k" using d le by (simp add: k_def)
  qed
  moreover have "size (filter_mset (\<lambda>x. target x = t) (adj g n)) = d"
  proof -
    have "size (adj g n) = size (filter_mset (\<lambda>x. target x \<noteq> t) (adj g n)) + d"
      unfolding M [symmetric] using arg_cong [OF R(2), of size] R(1) spec(2) by simp
    moreover have "size (adj g n) = size (filter_mset (\<lambda>x. target x = t) (adj g n)) + size (filter_mset (\<lambda>x. target x \<noteq> t) (adj g n))"
      using arg_cong [OF multiset_partition [of "adj g n" "\<lambda>x. target x = t"], of size] by (simp only: size_union)
    ultimately show ?thesis by linarith
  qed
  ultimately show ?thesis using assms(2) res by (simp add: graph_of_def)
qed

section \<open>Insertion\<close>

lemma move_fold:
  assumes "f + k \<le> n" "length es = n + s" "k \<le> s"
  shows "j \<le> k \<Longrightarrow> (let es' = fold (\<lambda>i es. makeDummy (f + i) (es[n + i := es ! (f + i)])) [0..<j] es in
    length es' = length es \<and> (\<forall>i < j. es' ! (n + i) = es ! (f + i)) \<and>
    (\<forall>e < n. \<not> (f \<le> e \<and> e < f + j) \<longrightarrow> es' ! e = es ! e))"
proof (induction j)
  case (Suc j)
  let ?es = "fold (\<lambda>i es. makeDummy (f + i) (es[n + i := es ! (f + i)])) [0..<j] es"
  have IH: "length ?es = length es" "\<And>i. i < j \<Longrightarrow> ?es ! (n + i) = es ! (f + i)"
    "\<And>e. e < n \<Longrightarrow> \<not> (f \<le> e \<and> e < f + j) \<Longrightarrow> ?es ! e = es ! e"
    using Suc by (simp_all add: Let_def)
  have "?es ! (f + j) = es ! (f + j)" using IH(3) [of "f + j"] assms(1) Suc.prems by simp
  then show ?case using IH assms Suc.prems by (auto simp: Let_def makeDummy_def nth_list_update less_Suc_eq)
qed simp

lemma dummy_fold:
  "length (fold (\<lambda>i es. makeDummy (n + i) es) is es) = length es \<and>
   (\<forall>e. e \<notin> (\<lambda>i. n + i) ` set is \<longrightarrow> fold (\<lambda>i es. makeDummy (n + i) es) is es ! e = es ! e)"
  by (induction "is" arbitrary: es) (auto simp: makeDummy_other)

lemma move_edges_spec:
  assumes "first_edge node + edges node \<le> length es"
  shows "length (move_edges fresh node es) = length es + (edges node * 11 div 10 + 2)"
    and "i < edges node \<Longrightarrow> move_edges fresh node es ! (length es + i) = es ! (first_edge node + i)"
    and "e < length es \<Longrightarrow> \<not> (first_edge node \<le> e \<and> e < first_edge node + edges node) \<Longrightarrow> move_edges fresh node es ! e = es ! e"
proof -
  let ?s = "edges node * 11 div 10 + 2" and ?n = "length es" and ?f = "first_edge node" and ?k = "edges node"
  define es1 where "es1 = resize fresh (?n + ?s) es"
  define es2 where "es2 = fold (\<lambda>i es. makeDummy (?f + i) (es[?n + i := es ! (?f + i)])) [0..<?k] es1"
  have es1: "length es1 = ?n + ?s" "\<And>e. e < ?n \<Longrightarrow> es1 ! e = es ! e" by (simp_all add: es1_def resize_def nth_append)
  have "?k \<le> ?s" by simp
  note m = move_fold [OF assms es1(1) this order_refl, folded es2_def, unfolded Let_def]
  have res: "move_edges fresh node es = fold (\<lambda>i es. makeDummy (?n + i) es) [?k + 1..<?s] es2"
    by (simp only: move_edges_def Let_def es1_def es2_def)
  have es3: "length (move_edges fresh node es) = length es2"
    "e \<notin> (\<lambda>i. ?n + i) ` {?k + 1..<?s} \<Longrightarrow> move_edges fresh node es ! e = es2 ! e" for e
    using dummy_fold [of ?n "[?k + 1..<?s]" es2] unfolding res set_upt by blast+
  show "length (move_edges fresh node es) = ?n + ?s" using es3(1) m es1(1) by simp
  show "move_edges fresh node es ! (?n + i) = es ! (?f + i)" if "i < ?k"
    using es3(2) [of "?n + i"] m es1(2) [of "?f + i"] that assms by auto
  show "move_edges fresh node es ! e = es ! e" if "e < ?n" "\<not> (?f \<le> e \<and> e < ?f + ?k)"
    using es3(2) [of e] m es1(2) [of e] that by auto
qed

text \<open>
  The place of a new edge: a range for the old edges of the node with a free slot behind it, away from
  the ranges of the other nodes.
\<close>

definition good_place :: "'d DynamicGraph \<Rightarrow> nat \<Rightarrow> nat \<Rightarrow> 'd DynamicEdge list \<Rightarrow> bool" where
  "good_place g n f es \<longleftrightarrow> f + edges (node_array g ! n) < length es \<and> length (edge_list g) \<le> length es \<and>
     mset (map (\<lambda>e. es ! e) [f..<f + edges (node_array g ! n)]) = adj g n \<and>
     (\<forall>m < number_of_nodes g. \<forall>e \<in> owned g m. m \<noteq> n \<longrightarrow>
        es ! e = edge_list g ! e \<and> \<not> (f \<le> e \<and> e \<le> f + edges (node_array g ! n)))"

lemma good_place_behind:
  assumes "dg_inv g" "n < number_of_nodes g" "EndEdges g n \<noteq> length (edge_list g)" "isDummy (edge_list g) (EndEdges g n)"
  shows "good_place g n (BeginEdges g n) (edge_list g)"
proof -
  have k: "EndEdges g n = BeginEdges g n + edges (node_array g ! n)" by (simp add: BeginEdges_def EndEdges_def)
  have "\<not> (BeginEdges g n \<le> e \<and> e \<le> BeginEdges g n + edges (node_array g ! n))"
    if "m < number_of_nodes g" "e \<in> owned g m" "m \<noteq> n" for m e
  proof -
    have "e \<noteq> EndEdges g n" using dummy_unowned [OF assms(1) that(1) assms(4)] that(2) by blast
    moreover have "\<not> (BeginEdges g n \<le> e \<and> e < EndEdges g n)"
      using owned_disjoint(1) [OF assms(1,2) that(1,3,2)] by (simp add: owned_def)
    ultimately show ?thesis using k by linarith
  qed
  moreover have "BeginEdges g n + edges (node_array g ! n) < length (edge_list g)"
    using dg_invD(3) [OF assms(1,2)] assms(3) k by simp
  moreover have "mset (map (\<lambda>e. edge_list g ! e) [BeginEdges g n..<BeginEdges g n + edges (node_array g ! n)]) = adj g n"
    by (simp only: adj_def adj_list_def k)
  ultimately show ?thesis unfolding good_place_def by blast
qed

lemma good_place_before:
  assumes "dg_inv g" "n < number_of_nodes g" "BeginEdges g n \<noteq> 0" "isDummy (edge_list g) (BeginEdges g n - 1)"
    "EndEdges g n = length (edge_list g) \<or> \<not> isDummy (edge_list g) (EndEdges g n)"
  shows "good_place g n (BeginEdges g n - 1)
    ((edge_list g)[BeginEdges g n - 1 := edge_list g ! (BeginEdges g n - 1 + edges (node_array g ! n))])"
proof -
  define f where "f = BeginEdges g n - 1"
  define k where "k = edges (node_array g ! n)"
  let ?es = "edge_list g" and ?es' = "(edge_list g)[f := edge_list g ! (f + k)]"
  have B: "BeginEdges g n = Suc f" "EndEdges g n = Suc f + k" using assms(3) by (simp_all add: f_def k_def BeginEdges_def EndEdges_def)
  have len: "Suc f + k \<le> length ?es" using dg_invD(3) [OF assms(1,2)] B by simp
  have "mset (map (\<lambda>e. ?es' ! e) [f..<f + k]) = mset (map (\<lambda>e. ?es ! e) [Suc f..<Suc f + k])"
  proof (cases k)
    case (Suc k')
    have "[f..<f + k] = f # [Suc f..<f + k]" using Suc by (simp add: upt_conv_Cons del: upt_Suc)
    then have "map (\<lambda>e. ?es' ! e) [f..<f + k] = ?es ! (f + k) # map (\<lambda>e. ?es ! e) [Suc f..<f + k]"
      using len by (simp del: upt_Suc)
    moreover have "map (\<lambda>e. ?es ! e) [Suc f..<Suc f + k] = map (\<lambda>e. ?es ! e) [Suc f..<f + k] @ [?es ! (f + k)]"
      using Suc by simp
    ultimately show ?thesis by (simp del: mset_map)
  qed simp
  then have "mset (map (\<lambda>e. ?es' ! e) [f..<f + k]) = adj g n" by (simp only: adj_def adj_list_def B)
  moreover have "?es' ! e = ?es ! e \<and> \<not> (f \<le> e \<and> e \<le> f + k)" if "m < number_of_nodes g" "e \<in> owned g m" "m \<noteq> n" for m e
  proof -
    have "e \<noteq> f" using dummy_unowned [OF assms(1) that(1) assms(4)] that(2) by (auto simp: f_def)
    then show ?thesis using owned_disjoint(1) [OF assms(1,2) that(1,3,2)] B by (auto simp: owned_def)
  qed
  ultimately show ?thesis using len unfolding good_place_def f_def [symmetric] k_def [symmetric] by simp
qed

lemma good_place_moved:
  assumes "dg_inv g" "n < number_of_nodes g"
  shows "good_place g n (length (edge_list g)) (move_edges fresh (node_array g ! n) (edge_list g))"
proof -
  let ?node = "node_array g ! n" and ?es = "edge_list g"
  have B: "BeginEdges g n = first_edge ?node" "EndEdges g n = first_edge ?node + edges ?node" by (simp_all add: BeginEdges_def EndEdges_def)
  have "first_edge ?node + edges ?node \<le> length ?es" using dg_invD(3) [OF assms] B by simp
  note mv = move_edges_spec [OF this, where fresh = fresh]
  have "map (\<lambda>e. move_edges fresh ?node ?es ! e) [length ?es..<length ?es + edges ?node] = adj_list g n"
    using mv(2) by (intro nth_equalityI) (simp_all add: adj_list_def B)
  moreover have "move_edges fresh ?node ?es ! e = ?es ! e \<and> \<not> (length ?es \<le> e \<and> e \<le> length ?es + edges ?node)"
    if "m < number_of_nodes g" "e \<in> owned g m" "m \<noteq> n" for m e
    using owned_disjoint [OF assms that(1,3,2)] mv(3) [of e] B by (auto simp: owned_def)
  moreover have "length ?es + edges ?node < length (move_edges fresh ?node ?es)" unfolding mv(1) by simp
  ultimately show ?thesis unfolding good_place_def by (simp add: adj_def mv(1))
qed

lemma insert_place_good:
  assumes "dg_inv g" "n < number_of_nodes g" "insert_place fresh (node_array g ! n) (edge_list g) = Some (f, es)"
  shows "good_place g n f es"
proof -
  have B: "first_edge (node_array g ! n) = BeginEdges g n" "edges (node_array g ! n) + BeginEdges g n = EndEdges g n"
    by (simp_all add: BeginEdges_def EndEdges_def)
  note place = assms(3) [unfolded insert_place_def Let_def B]
  show ?thesis
  proof (cases "EndEdges g n = length (edge_list g) \<or> \<not> isDummy (edge_list g) (EndEdges g n)")
    case full: True
    show ?thesis
    proof (cases "BeginEdges g n \<noteq> 0 \<and> isDummy (edge_list g) (BeginEdges g n - 1)")
      case True
      have "f = BeginEdges g n - 1"
        "es = (edge_list g)[BeginEdges g n - 1 := edge_list g ! (BeginEdges g n - 1 + edges (node_array g ! n))]"
        using place unfolding if_P [OF full] if_P [OF True] by blast+
      then show ?thesis using good_place_before [OF assms(1,2) conjunct1 [OF True] conjunct2 [OF True] full] by (simp only:)
    next
      case False
      then show ?thesis using place full good_place_moved [OF assms(1,2), of fresh] by (auto split: if_splits)
    qed
  next
    case False
    then show ?thesis using place good_place_behind [OF assms(1,2)] by simp
  qed
qed

lemma InsertEdge_spec:
  assumes "dg_inv g" "n < number_of_nodes g" "to < number_of_nodes g" "InsertEdge fresh n to d g = Some (e, g')"
  shows "dg_inv g' \<and> graph_of g' = (graph_of g)(n := add_mset \<lparr>target = to, data = d\<rparr> (graph_of g n)) \<and>
    e = EndEdges g' n \<and> edge_list g' ! (e - 1) = \<lparr>target = to, data = d\<rparr>"
proof -
  let ?k = "edges (node_array g ! n)" and ?x = "\<lparr>target = to, data = d\<rparr>"
  obtain f es where place: "insert_place fresh (node_array g ! n) (edge_list g) = Some (f, es)"
    and e: "e = f + (?k + 1)" and g': "g' = g\<lparr>edge_list := es[f + ?k := ?x], number_of_edges := number_of_edges g + 1,
      node_array := (node_array g)[n := \<lparr>first_edge = f, edges = ?k + 1\<rparr>]\<rparr>"
    using assms(4) unfolding InsertEdge_def Let_def by (auto split: option.splits)
  note good = insert_place_good [OF assms(1,2) place, unfolded good_place_def]
  let ?es = "es[f + ?k := ?x]"
  have old: "mset (map (\<lambda>e. es ! e) [f..<f + ?k]) = adj g n" using good by blast
  have "map (\<lambda>e. ?es ! e) [f..<f + (?k + 1)] = map (\<lambda>e. es ! e) [f..<f + ?k] @ [?x]" using good by simp
  then have M: "add_mset ?x (adj g n) = mset (map (\<lambda>e. ?es ! e) [f..<f + (?k + 1)])"
    by (simp only: old mset_append) simp
  have "dg_inv g' \<and> graph_of g' = (graph_of g)(n := add_mset ?x (adj g n))"
    unfolding g'
  proof (rule update_node [OF assms(1,2) _ _ _ M])
    show "f + (?k + 1) \<le> length ?es" "length (edge_list g) \<le> length ?es" using good by auto
    show "target x < number_of_nodes g" if "x \<in># add_mset ?x (adj g n)" for x
      using that assms(3) dg_invD(4) [OF assms(1,2)] by auto
    show "x < length ?es \<and> ?es ! x = edge_list g ! x \<and> \<not> (f \<le> x \<and> x < f + (?k + 1))"
      if "m < number_of_nodes g" "m \<noteq> n" "x \<in> owned g m" for m x
      using good owned_disjoint(2) [OF assms(1,2) that] that by fastforce
  qed simp
  moreover have "EndEdges g' n = e" "edge_list g' ! (e - 1) = ?x"
    using assms(2) dg_invD(1) [OF assms(1)] good by (simp_all add: g' e EndEdges_def)
  ultimately show ?thesis using assms(2) by (simp add: graph_of_def)
qed

section \<open>Graphs without gaps\<close>

text \<open>Construction, filtering and renumbering lay the edges out node by node.\<close>

fun contiguous :: "nat \<Rightarrow> DynamicNode list \<Rightarrow> bool" where
  "contiguous pos [] = True"
| "contiguous pos (x # xs) = (first_edge x = pos \<and> contiguous (pos + edges x) xs)"

definition compact :: "'d DynamicGraph \<Rightarrow> 'd DynamicEdge list list \<Rightarrow> bool" where
  "compact g L \<longleftrightarrow> contiguous 0 (node_array g) \<and> map edges (node_array g) = map length L \<and> edge_list g = concat L"

lemma contiguous_first:
  "contiguous pos xs \<Longrightarrow> i < length xs \<Longrightarrow> first_edge (xs ! i) = pos + sum_list (map edges (take i xs))"
proof (induction xs arbitrary: pos i)
  case (Cons x xs)
  show ?case
  proof (cases i)
    case (Suc j)
    then show ?thesis using Cons.IH [of "pos + edges x" j] Cons.prems by simp
  qed (use Cons.prems in simp)
qed simp

lemma concat_slice:
  "i < length L \<Longrightarrow> map (\<lambda>e. concat L ! e) [sum_list (map length (take i L))..<sum_list (map length (take i L)) + length (L ! i)] = L ! i"
proof (induction L arbitrary: i)
  case (Cons l L)
  show ?case
  proof (cases i)
    case 0
    then show ?thesis by (intro nth_equalityI) (simp_all add: nth_append)
  next
    case (Suc j)
    let ?a = "sum_list (map length (take j L))"
    have "map (\<lambda>e. concat (l # L) ! e) [length l + ?a..<length l + ?a + length (L ! j)] =
        map (\<lambda>e. concat L ! e) [?a..<?a + length (L ! j)]"
      by (intro nth_equalityI) (simp_all add: nth_append add.assoc)
    then show ?thesis using Cons Suc by simp
  qed
qed simp

lemma compact_range:
  assumes "compact g L" "n < length L"
  shows "BeginEdges g n = sum_list (map length (take n L))" "EndEdges g n = BeginEdges g n + length (L ! n)"
    "length (node_array g) = length L"
proof -
  show len: "length (node_array g) = length L"
    using arg_cong [of _ _ length] assms(1) unfolding compact_def by (metis length_map)
  have "map edges (take n (node_array g)) = map length (take n L)"
    using assms(1) unfolding compact_def by (metis take_map)
  then show "BeginEdges g n = sum_list (map length (take n L))"
    using assms len contiguous_first [of 0 "node_array g" n] by (simp add: BeginEdges_def compact_def)
  have "edges (node_array g ! n) = length (L ! n)"
    using assms len unfolding compact_def by (metis nth_map)
  then show "EndEdges g n = BeginEdges g n + length (L ! n)" by (simp add: BeginEdges_def EndEdges_def)
qed

lemma compact_adj_list:
  assumes "compact g L" "n < length L" shows "adj_list g n = L ! n"
  using concat_slice [OF assms(2)] compact_range [OF assms] assms(1) by (simp add: adj_list_def compact_def)

lemma sum_list_take_le:
  fixes xs :: "nat list"
  shows "i \<le> j \<Longrightarrow> sum_list (take i xs) \<le> sum_list (take j xs)"
proof -
  assume "i \<le> j"
  then have "take j xs = take i xs @ take (j - i) (drop i xs)" by (metis le_add_diff_inverse take_add)
  then show ?thesis by simp
qed

lemma compact_ordered:
  assumes "compact g L" "n < m" "m < length L" shows "EndEdges g n \<le> BeginEdges g m"
proof -
  have "EndEdges g n = sum_list (take (Suc n) (map length L))"
    using compact_range [OF assms(1), of n] assms(2,3) by (simp add: take_Suc_conv_app_nth take_map)
  also have "\<dots> \<le> sum_list (take m (map length L))" using assms(2) by (intro sum_list_take_le) simp
  finally show ?thesis using compact_range(1) [OF assms(1,3)] by (simp add: take_map)
qed

lemma compact_end:
  assumes "compact g L" "n < length L" shows "EndEdges g n \<le> length (edge_list g)"
proof -
  have "EndEdges g n = sum_list (take (Suc n) (map length L))"
    using compact_range [OF assms] assms(2) by (simp add: take_Suc_conv_app_nth take_map)
  also have "\<dots> \<le> sum_list (take (length L) (map length L))" using assms(2) by (intro sum_list_take_le) simp
  finally show ?thesis using assms(1) by (simp add: compact_def length_concat)
qed

lemma compact_inv:
  assumes "compact g L" "length L = number_of_nodes g" "number_of_nodes g \<le> SPECIAL_NODEID"
    "\<And>n x. n < number_of_nodes g \<Longrightarrow> x \<in> set (L ! n) \<Longrightarrow> target x < number_of_nodes g"
    "number_of_edges g = length (edge_list g)"
  shows "dg_inv g"
proof -
  have "owned g n \<inter> owned g m = {}" if "n < number_of_nodes g" "m < number_of_nodes g" "m \<noteq> n" for n m
  proof (cases "n < m")
    case True
    then show ?thesis using compact_ordered [OF assms(1), of n m] that assms(2) by (auto simp: owned_def)
  next
    case False
    then show ?thesis using compact_ordered [OF assms(1), of m n] that assms(2) by (auto simp: owned_def)
  qed
  moreover have "sum_list (map edges (node_array g)) = length (edge_list g)"
    using assms(1) by (simp add: compact_def length_concat)
  moreover have "length (node_array g) = number_of_nodes g"
    using assms(1,2) unfolding compact_def by (metis length_map)
  ultimately show ?thesis
    using assms compact_end [OF assms(1)] compact_adj_list [OF assms(1)] unfolding dg_inv_def adj_def by simp
qed

section \<open>Construction from sorted edges\<close>

lemma count_source_prefix:
  "count_source n graph = length (takeWhile (\<lambda>e. in_source e = n) graph)"
  by (induction graph) simp_all

lemma sorted_head:
  "sorted (map in_source graph) \<Longrightarrow> \<forall>e \<in> set graph. n \<le> in_source e \<Longrightarrow>
   takeWhile (\<lambda>e. in_source e = n) graph = filter (\<lambda>e. in_source e = n) graph \<and>
   dropWhile (\<lambda>e. in_source e = n) graph = filter (\<lambda>e. n < in_source e) graph"
proof (induction graph)
  case (Cons a graph)
  show ?case
  proof (cases "in_source a = n")
    case False
    then have gt: "\<forall>e \<in> set graph. n < in_source e" "n < in_source a" using Cons.prems by fastforce+
    have "filter (\<lambda>e. in_source e = n) graph = []" using gt(1) by (auto simp: filter_empty_conv)
    moreover have "filter (\<lambda>e. n < in_source e) graph = graph" using gt(1) by (rule filter_True)
    ultimately show ?thesis using gt(2) by simp
  qed (use Cons in simp)
qed simp

lemma make_nodes_spec:
  "sorted (map in_source graph) \<Longrightarrow> \<forall>e \<in> set graph. lo \<le> in_source e \<Longrightarrow> lo \<le> hi \<Longrightarrow>
   contiguous pos (make_nodes [lo..<hi] graph pos) \<and>
   map edges (make_nodes [lo..<hi] graph pos) = map (\<lambda>n. length (filter (\<lambda>e. in_source e = n) graph)) [lo..<hi] \<and>
   concat (map (\<lambda>n. filter (\<lambda>e. in_source e = n) graph) [lo..<hi]) = filter (\<lambda>e. in_source e < hi) graph \<and>
   filter (\<lambda>e. in_source e < hi) graph = take (sum_list (map edges (make_nodes [lo..<hi] graph pos))) graph"
proof (induction "hi - lo" arbitrary: lo graph pos)
  case 0
  then have "filter (\<lambda>e. in_source e < hi) graph = []" by (auto simp: filter_empty_conv)
  then show ?case using 0 by simp
next
  case (Suc k)
  define t where "t = filter (\<lambda>e. in_source e = lo) graph"
  define d where "d = filter (\<lambda>e. lo < in_source e) graph"
  have upt: "[lo..<hi] = lo # [Suc lo..<hi]" using Suc.hyps(2) by (simp add: upt_conv_Cons)
  note head = sorted_head [OF Suc.prems(1,2), folded t_def d_def]
  have split: "graph = t @ d" using takeWhile_dropWhile_id [of "\<lambda>e. in_source e = lo" graph] head by simp
  have count: "count_source lo graph = length t" unfolding count_source_prefix using head by simp
  have drop: "drop (length t) graph = d" unfolding split by simp
  have nodes: "make_nodes [lo..<hi] graph pos =
      \<lparr>first_edge = pos, edges = length t\<rparr> # make_nodes [Suc lo..<hi] d (pos + length t)"
    unfolding upt by (simp add: Let_def count drop)
  have IH: "contiguous (pos + length t) (make_nodes [Suc lo..<hi] d (pos + length t)) \<and>
     map edges (make_nodes [Suc lo..<hi] d (pos + length t)) = map (\<lambda>n. length (filter (\<lambda>e. in_source e = n) d)) [Suc lo..<hi] \<and>
     concat (map (\<lambda>n. filter (\<lambda>e. in_source e = n) d) [Suc lo..<hi]) = filter (\<lambda>e. in_source e < hi) d \<and>
     filter (\<lambda>e. in_source e < hi) d = take (sum_list (map edges (make_nodes [Suc lo..<hi] d (pos + length t)))) d"
    using Suc.hyps(2) Suc.prems(1,3) by (intro Suc.hyps(1)) (auto simp: d_def intro: sorted_filter)
  have same: "filter (\<lambda>e. in_source e = n) d = filter (\<lambda>e. in_source e = n) graph" if "n \<in> set [Suc lo..<hi]" for n
    using that unfolding d_def filter_filter by (intro filter_cong) auto
  have "lo < hi" using Suc.hyps(2) by linarith
  then have "\<forall>e \<in> set t. in_source e < hi" by (simp add: t_def)
  then have lt: "filter (\<lambda>e. in_source e < hi) graph = t @ filter (\<lambda>e. in_source e < hi) d"
    unfolding split filter_append by (simp add: filter_True)
  have maps: "map (\<lambda>n. filter (\<lambda>e. in_source e = n) graph) [Suc lo..<hi] = map (\<lambda>n. filter (\<lambda>e. in_source e = n) d) [Suc lo..<hi]"
    using same by (intro map_cong) simp_all
  have lens: "map (\<lambda>n. length (filter (\<lambda>e. in_source e = n) graph)) [Suc lo..<hi] =
      map (\<lambda>n. length (filter (\<lambda>e. in_source e = n) d)) [Suc lo..<hi]"
    using same by (intro map_cong) simp_all
  have "take (length t + m) graph = t @ take m d" for m unfolding split by simp
  then show ?case unfolding nodes lt unfolding upt list.map(2) maps lens
    using IH by (simp add: t_def [symmetric])
qed

definition out_edge :: "'d InputEdge \<Rightarrow> 'd DynamicEdge" where
  "out_edge e = \<lparr>target = in_target e, data = in_data e\<rparr>"

lemma DynamicGraph_make_compact:
  assumes "sorted (map in_source graph)" "\<forall>e \<in> set graph. in_source e < nodes"
  shows "compact (DynamicGraph_make nodes graph) (map (\<lambda>n. map out_edge (filter (\<lambda>e. in_source e = n) graph)) [0..<nodes])"
    and "edge_list (DynamicGraph_make nodes graph) = map out_edge graph"
proof -
  note spec = make_nodes_spec [OF assms(1), of 0 nodes 0, simplified]
  have all: "filter (\<lambda>e. in_source e < nodes) graph = graph" using assms(2) by (simp add: filter_True)
  then have take: "take (sum_list (map edges (make_nodes [0..<nodes] graph 0))) graph = graph" using spec by (simp only:)
  have es: "edge_list (DynamicGraph_make nodes graph) = map out_edge graph"
    unfolding DynamicGraph_make_def Let_def DynamicGraph.select_convs take by (simp add: out_edge_def)
  then show "edge_list (DynamicGraph_make nodes graph) = map out_edge graph" .
  have cc: "concat (map (\<lambda>n. filter (\<lambda>e. in_source e = n) graph) [0..<nodes]) = graph" using spec all by simp
  have "concat (map (\<lambda>n. map out_edge (filter (\<lambda>e. in_source e = n) graph)) [0..<nodes]) =
      map out_edge (concat (map (\<lambda>n. filter (\<lambda>e. in_source e = n) graph) [0..<nodes]))"
    by (simp add: map_concat o_def)
  also have "\<dots> = edge_list (DynamicGraph_make nodes graph)" unfolding cc es ..
  finally show "compact (DynamicGraph_make nodes graph) (map (\<lambda>n. map out_edge (filter (\<lambda>e. in_source e = n) graph)) [0..<nodes])"
    using spec unfolding compact_def by (auto simp: o_def DynamicGraph_make_def Let_def)
qed

lemma DynamicGraph_make_graph:
  assumes "sorted (map in_source graph)" "\<forall>e \<in> set graph. in_source e < nodes \<and> in_target e < nodes" "nodes \<le> SPECIAL_NODEID"
  shows "dg_inv (DynamicGraph_make nodes graph) \<and>
    graph_of (DynamicGraph_make nodes graph) = (\<lambda>n. image_mset out_edge (mset (filter (\<lambda>e. in_source e = n) graph)))"
proof
  let ?g = "DynamicGraph_make nodes graph" and ?L = "map (\<lambda>n. map out_edge (filter (\<lambda>e. in_source e = n) graph)) [0..<nodes]"
  have src: "\<forall>e \<in> set graph. in_source e < nodes" using assms(2) by blast
  note c = DynamicGraph_make_compact [OF assms(1) src]
  have n: "number_of_nodes ?g = nodes" "number_of_edges ?g = length graph" by (simp_all add: DynamicGraph_make_def Let_def)
  show "dg_inv ?g" using assms(2,3) c(2) n by (intro compact_inv [OF c(1)]) (auto simp: out_edge_def)
  show "graph_of ?g = (\<lambda>n. image_mset out_edge (mset (filter (\<lambda>e. in_source e = n) graph)))"
  proof
    fix k
    show "graph_of ?g k = image_mset out_edge (mset (filter (\<lambda>e. in_source e = k) graph))"
    proof (cases "k < nodes")
      case True
      then show ?thesis using compact_adj_list [OF c(1), of k] n by (simp add: graph_of_def adj_def)
    next
      case False
      then have "filter (\<lambda>e. in_source e = k) graph = []" using src by (auto simp: filter_empty_conv)
      then show ?thesis using False n by (simp add: graph_of_def)
    qed
  qed
qed

section \<open>Filtering\<close>

lemma filter_nodes_spec:
  "case filter_nodes f es i nodes out of (nodes', out') \<Rightarrow>
     contiguous (length out) nodes' \<and>
     (let L = map (\<lambda>(j, node). if f j then filter (\<lambda>edge. f (target edge)) (take (edges node) (drop (first_edge node) es)) else [])
            (zip [i..<i + length nodes] nodes)
      in map edges nodes' = map length L \<and> out' = out @ concat L)"
proof (induction nodes arbitrary: i out)
  case (Cons node nodes)
  define kept where "kept = (if f i then filter (\<lambda>edge. f (target edge)) (take (edges node) (drop (first_edge node) es)) else [])"
  obtain nodes' out' where rec: "filter_nodes f es (i + 1) nodes (out @ kept) = (nodes', out')" by fastforce
  have res: "filter_nodes f es i (node # nodes) out = (\<lparr>first_edge = length out, edges = length kept\<rparr> # nodes', out')"
    using rec by (simp only: filter_nodes.simps Let_def kept_def [symmetric]) simp
  have "[i..<i + length (node # nodes)] = i # [i + 1..<i + 1 + length nodes]" by (simp add: upt_conv_Cons del: upt_Suc)
  then show ?case using Cons.IH [of "out @ kept" "i + 1"] unfolding res rec by (simp add: Let_def kept_def)
qed simp

lemma adj_list_slice:
  "EndEdges g n \<le> length (edge_list g) \<Longrightarrow>
   adj_list g n = take (edges (node_array g ! n)) (drop (first_edge (node_array g ! n)) (edge_list g))"
  by (intro nth_equalityI) (auto simp: adj_list_def BeginEdges_def EndEdges_def)

lemma Filter_compact:
  assumes "dg_inv g"
  shows "compact (Filter f g) (map (\<lambda>n. if f n then filter (\<lambda>edge. f (target edge)) (adj_list g n) else []) [0..<number_of_nodes g])"
proof -
  obtain nodes out where r: "filter_nodes f (edge_list g) 0 (node_array g) [] = (nodes, out)" by fastforce
  let ?L = "map (\<lambda>(j, node). if f j then filter (\<lambda>edge. f (target edge)) (take (edges node) (drop (first_edge node) (edge_list g))) else [])
      (zip [0..<length (node_array g)] (node_array g))"
  have "?L = map (\<lambda>n. if f n then filter (\<lambda>edge. f (target edge)) (adj_list g n) else []) [0..<number_of_nodes g]"
    using dg_invD(1,3) [OF assms] by (intro nth_equalityI) (simp_all add: adj_list_slice)
  then show ?thesis using filter_nodes_spec [where f = f and es = "edge_list g" and i = 0 and nodes = "node_array g" and out = "[]"] r
    by (simp add: compact_def Filter_def Let_def)
qed

lemma Filter_graph:
  assumes "dg_inv g"
  shows "graph_of (Filter f g) = (\<lambda>n. if f n then filter_mset (\<lambda>edge. f (target edge)) (graph_of g n) else {#})"
    and "number_of_edges (Filter f g) = number_of_edges g"
proof -
  have n: "number_of_nodes (Filter f g) = number_of_nodes g" "number_of_edges (Filter f g) = number_of_edges g"
    by (simp_all add: Filter_def split: prod.split)
  show "graph_of (Filter f g) = (\<lambda>n. if f n then filter_mset (\<lambda>edge. f (target edge)) (graph_of g n) else {#})"
  proof
    fix k
    show "graph_of (Filter f g) k = (if f k then filter_mset (\<lambda>edge. f (target edge)) (graph_of g k) else {#})"
      using compact_adj_list [OF Filter_compact [OF assms, of f], of k] n
      by (cases "k < number_of_nodes g") (simp_all add: graph_of_def adj_def)
  qed
  show "number_of_edges (Filter f g) = number_of_edges g" by (rule n(2))
qed

section \<open>Renumbering\<close>

definition retarget :: "nat list \<Rightarrow> 'd DynamicEdge \<Rightarrow> 'd DynamicEdge" where
  "retarget p x = x\<lparr>target := p ! target x\<rparr>"

lemma renumber_edges_spec:
  "distinct vs \<Longrightarrow> \<forall>e \<in> set vs. e < length (rn_edge_list r) \<Longrightarrow> length (rn_old_to_new_edge r) = length (rn_edge_list r) \<Longrightarrow>
   (let r' = fold (renumber_edge p) vs r in
    rn_new_edge_index r' = rn_new_edge_index r + length vs \<and>
    length (rn_edge_list r') = length (rn_edge_list r) \<and> length (rn_old_to_new_edge r') = length (rn_edge_list r) \<and>
    (\<forall>j < length vs. rn_old_to_new_edge r' ! (vs ! j) = rn_new_edge_index r + j) \<and>
    (\<forall>e. e \<notin> set vs \<longrightarrow> rn_old_to_new_edge r' ! e = rn_old_to_new_edge r ! e) \<and>
    (\<forall>e \<in> set vs. rn_edge_list r' ! e = retarget p (rn_edge_list r ! e)) \<and>
    (\<forall>e. e \<notin> set vs \<longrightarrow> rn_edge_list r' ! e = rn_edge_list r ! e))"
proof (induction vs arbitrary: r)
  case (Cons v vs)
  define r1 where "r1 = renumber_edge p v r"
  have v: "v < length (rn_edge_list r)" "v \<notin> set vs" using Cons.prems by auto
  have r1: "rn_new_edge_index r1 = Suc (rn_new_edge_index r)" "length (rn_edge_list r1) = length (rn_edge_list r)"
    "length (rn_old_to_new_edge r1) = length (rn_edge_list r)" "rn_old_to_new_edge r1 ! v = rn_new_edge_index r"
    "rn_edge_list r1 ! v = retarget p (rn_edge_list r ! v)"
    "e \<noteq> v \<Longrightarrow> rn_old_to_new_edge r1 ! e = rn_old_to_new_edge r ! e" "e \<noteq> v \<Longrightarrow> rn_edge_list r1 ! e = rn_edge_list r ! e" for e
    using v(1) Cons.prems(3) by (simp_all add: r1_def renumber_edge_def retarget_def)
  define r2 where "r2 = fold (renumber_edge p) vs r1"
  have IH: "rn_new_edge_index r2 = rn_new_edge_index r1 + length vs" "length (rn_edge_list r2) = length (rn_edge_list r1)"
    "length (rn_old_to_new_edge r2) = length (rn_edge_list r1)"
    "\<And>j. j < length vs \<Longrightarrow> rn_old_to_new_edge r2 ! (vs ! j) = rn_new_edge_index r1 + j"
    "\<And>e. e \<notin> set vs \<Longrightarrow> rn_old_to_new_edge r2 ! e = rn_old_to_new_edge r1 ! e"
    "\<And>e. e \<in> set vs \<Longrightarrow> rn_edge_list r2 ! e = retarget p (rn_edge_list r1 ! e)"
    "\<And>e. e \<notin> set vs \<Longrightarrow> rn_edge_list r2 ! e = rn_edge_list r1 ! e"
    using Cons.IH [of r1] Cons.prems r1(2,3) unfolding r2_def Let_def by auto
  have "rn_old_to_new_edge r2 ! ((v # vs) ! j) = rn_new_edge_index r + j" if "j < length (v # vs)" for j
    using that IH(4) [of "j - 1"] IH(5) [OF v(2)] r1(1,4) by (cases j) simp_all
  moreover have "rn_edge_list r2 ! e = retarget p (rn_edge_list r ! e)" if "e \<in> set (v # vs)" for e
  proof (cases "e = v")
    case False
    then show ?thesis using that IH(6) r1(7) by simp
  qed (use IH(7) [OF v(2)] r1(5) in simp)
  moreover have "rn_old_to_new_edge r2 ! e = rn_old_to_new_edge r ! e" "rn_edge_list r2 ! e = rn_edge_list r ! e"
    if "e \<notin> set (v # vs)" for e using that IH(5,7) r1(6,7) by simp_all
  ultimately show ?case using IH(1-3) r1(1-3) unfolding Let_def fold_Cons o_apply r1_def [symmetric] r2_def [symmetric] by simp
qed simp

lemma renumber_nodes_spec:
  "renumber_nodes p nodes r = (nodes', r') \<Longrightarrow>
   r' = fold (renumber_edge p) (concat (map (\<lambda>x. [first_edge x..<first_edge x + edges x]) nodes)) r \<and>
   map edges nodes' = map edges nodes \<and> contiguous (rn_new_edge_index r) nodes'"
proof (induction nodes arbitrary: r nodes')
  case (Cons x nodes)
  define r1 where "r1 = fold (renumber_edge p) [first_edge x..<first_edge x + edges x] r"
  have idx: "rn_new_edge_index (fold (renumber_edge p) vs r) = rn_new_edge_index r + length vs" for vs and r :: "'a renumbering"
    by (induction vs arbitrary: r) (simp_all add: renumber_edge_def)
  obtain ns where ns: "renumber_nodes p nodes r1 = (ns, r')" "nodes' = x\<lparr>first_edge := rn_new_edge_index r\<rparr> # ns"
    using Cons.prems by (auto simp: r1_def split: prod.splits)
  then show ?case using Cons.IH [OF ns(1)] idx [of "[first_edge x..<first_edge x + edges x]" r] by (simp add: r1_def)
qed simp

text \<open>Numbering the remaining slots.\<close>

lemma renumber_dummies_spec:
  assumes "\<forall>e < length o2n. o2n ! e = SPECIAL_EDGEID \<longleftrightarrow> e \<notin> V" "length o2n \<le> SPECIAL_EDGEID" 
  defines "ds \<equiv> filter (\<lambda>e. e \<notin> V) [0..<length o2n]"
  shows "length (renumber_dummies (o2n, i)) = length o2n"
    and "j < length ds \<Longrightarrow> renumber_dummies (o2n, i) ! (ds ! j) = i + j"
    and "e < length o2n \<Longrightarrow> e \<in> V \<Longrightarrow> renumber_dummies (o2n, i) ! e = o2n ! e"
proof -
  let ?step = "\<lambda>edge (o2n, i). if o2n ! edge = SPECIAL_EDGEID then (o2n[edge := i], i + 1) else (o2n, i)"
  let ?ds = "\<lambda>m. filter (\<lambda>e. e \<notin> V) [0..<m]"
  have main: "m \<le> length o2n \<Longrightarrow> (let (q, i') = fold ?step [0..<m] (o2n, i) in
      length q = length o2n \<and> i' = i + length (?ds m) \<and> (\<forall>j < length (?ds m). q ! (?ds m ! j) = i + j) \<and>
      (\<forall>e < length o2n. e \<in> V \<or> m \<le> e \<longrightarrow> q ! e = o2n ! e))" for m
  proof (induction m)
    case (Suc m)
    obtain q i' where q: "fold ?step [0..<m] (o2n, i) = (q, i')" by fastforce
    have IH: "length q = length o2n" "i' = i + length (?ds m)" "\<And>j. j < length (?ds m) \<Longrightarrow> q ! (?ds m ! j) = i + j"
      "\<And>e. e < length o2n \<Longrightarrow> e \<in> V \<or> m \<le> e \<Longrightarrow> q ! e = o2n ! e"
      using Suc q by (auto simp: Let_def)
    have m: "m < length o2n" "q ! m = o2n ! m" using Suc.prems IH(4) by auto
    have below: "?ds m ! j < m" if "j < length (?ds m)" for j using nth_mem [OF that] by simp
    show ?case
    proof (cases "m \<in> V")
      case True
      then have "o2n ! m \<noteq> SPECIAL_EDGEID" using assms(1) m(1) by blast
      then show ?thesis using True IH m q by (simp add: Let_def)
    next
      case False
      then have "o2n ! m = SPECIAL_EDGEID" using assms(1) m(1) by blast
      moreover have "q[m := i'] ! ((?ds m @ [m]) ! j) = i + j" if "j < Suc (length (?ds m))" for j
        using that IH(1-3) below [of j] m(1) by (cases "j < length (?ds m)") (simp_all add: nth_append)
      moreover have "q[m := i'] ! e = o2n ! e" if "e < length o2n" "e \<in> V \<or> Suc m \<le> e" for e
        using that IH(4) [of e] False by (cases "e = m") auto
      moreover have "fold ?step [0..<Suc m] (o2n, i) = (q[m := i'], i' + 1)" "?ds (Suc m) = ?ds m @ [m]"
        using q m False \<open>o2n ! m = SPECIAL_EDGEID\<close> by simp_all
      ultimately show ?thesis using IH(1,2) unfolding Let_def by (simp only: prod.case length_append length_list_update) simp
    qed
  qed simp
  show "length (renumber_dummies (o2n, i)) = length o2n"
    "j < length ds \<Longrightarrow> renumber_dummies (o2n, i) ! (ds ! j) = i + j"
    "e < length o2n \<Longrightarrow> e \<in> V \<Longrightarrow> renumber_dummies (o2n, i) ! e = o2n ! e"
    using main [OF order_refl] by (auto simp: renumber_dummies_def ds_def Let_def split: prod.splits)
qed

lemma inverse_is_permutation:
  assumes "is_permutation order" "length q = length order" "\<forall>j < length order. q ! (order ! j) = j"
  shows "is_permutation q"
proof -
  have "set q = {0..<length q}"
  proof
    show "{0..<length q} \<subseteq> set q"
    proof
      fix j assume "j \<in> {0..<length q}"
      then have "q ! (order ! j) = j" "order ! j < length q" using assms is_permutation_nth by auto
      then show "j \<in> set q" using nth_mem by metis
    qed
    show "set q \<subseteq> {0..<length q}"
    proof
      fix x assume "x \<in> set q"
      then obtain e where e: "e < length q" "q ! e = x" by (auto simp: in_set_conv_nth)
      then have "e \<in> set order" using assms(1,2) by (simp add: is_permutation_def)
      then obtain j where "j < length order" "order ! j = e" by (auto simp: in_set_conv_nth)
      then show "x \<in> {0..<length q}" using assms(2,3) e by auto
    qed
  qed
  moreover from this have "distinct q" by (intro card_distinct) simp
  ultimately show ?thesis by (simp add: is_permutation_def)
qed

lemma distinct_concat_nth:
  "\<forall>i < length L. distinct (L ! i) \<Longrightarrow> (\<And>i j. i < length L \<Longrightarrow> j < length L \<Longrightarrow> i \<noteq> j \<Longrightarrow> set (L ! i) \<inter> set (L ! j) = {}) \<Longrightarrow>
   distinct (concat L)"
proof (induction L)
  case (Cons l L)
  have "distinct (concat L)"
  proof (rule Cons.IH)
    show "\<forall>i < length L. distinct (L ! i)" using Cons.prems(1) by fastforce
    show "set (L ! i) \<inter> set (L ! j) = {}" if "i < length L" "j < length L" "i \<noteq> j" for i j
      using Cons.prems(2) [of "Suc i" "Suc j"] that by simp
  qed
  moreover have "set l \<inter> set (L ! j) = {}" if "j < length L" for j using Cons.prems(2) [of 0 "Suc j"] that by simp
  then have "set l \<inter> set (concat L) = {}" by (fastforce simp: in_set_conv_nth)
  moreover have "distinct l" using Cons.prems(1) by force
  ultimately show ?case by simp
qed simp

text \<open>The edges in the order in which they are visited.\<close>

lemma visit_order:
  assumes "dg_inv g" "length nodes = number_of_nodes g" "is_permutation p" "length p = number_of_nodes g"
    "\<And>n. n < number_of_nodes g \<Longrightarrow> nodes ! (p ! n) = node_array g ! n"
  defines "vs \<equiv> concat (map (\<lambda>x. [first_edge x..<first_edge x + edges x]) nodes)"
  shows "distinct vs" "\<forall>e \<in> set vs. e < length (edge_list g)"
proof -
  have inv: "\<exists>n < number_of_nodes g. p ! n = k" if "k < number_of_nodes g" for k
    using that assms(3,4) by (metis atLeastLessThan_iff in_set_conv_nth is_permutation_def le0)
  have range: "set [first_edge (nodes ! (p ! n))..<first_edge (nodes ! (p ! n)) + edges (nodes ! (p ! n))] = owned g n"
    if "n < number_of_nodes g" for n
    using assms(5) [OF that] by (simp add: owned_def BeginEdges_def EndEdges_def)
  have "e < length (edge_list g)" if "e \<in> set vs" for e
  proof -
    obtain k where k: "k < number_of_nodes g" "e \<in> set [first_edge (nodes ! k)..<first_edge (nodes ! k) + edges (nodes ! k)]"
    proof -
      obtain x where x: "x \<in> set nodes" "e \<in> set [first_edge x..<first_edge x + edges x]" using \<open>e \<in> set vs\<close> by (auto simp: vs_def)
      then obtain k where "k < length nodes" "nodes ! k = x" by (auto simp: in_set_conv_nth)
      then show thesis using that [of k] x(2) assms(2) by simp
    qed
    then obtain n where n: "n < number_of_nodes g" "p ! n = k" using inv by blast
    then have "e \<in> owned g n" using range k(2) by blast
    then show ?thesis using dg_invD(3) [OF assms(1) n(1)] by (auto simp: owned_def)
  qed
  then show "\<forall>e \<in> set vs. e < length (edge_list g)" by blast
  have "set [first_edge (nodes ! k)..<first_edge (nodes ! k) + edges (nodes ! k)] \<inter>
      set [first_edge (nodes ! l)..<first_edge (nodes ! l) + edges (nodes ! l)] = {}"
    if kl: "k < number_of_nodes g" "l < number_of_nodes g" "k \<noteq> l" for k l
  proof -
    obtain n m where nm: "n < number_of_nodes g" "p ! n = k" "m < number_of_nodes g" "p ! m = l"
      using inv [OF kl(1)] inv [OF kl(2)] by blast
    then have "m \<noteq> n" using kl(3) by auto
    then show ?thesis using dg_invD(5) [OF assms(1) nm(1,3)] range [OF nm(1)] range [OF nm(3)] nm(2,4) by simp
  qed
  then show "distinct vs"
    using assms(2) unfolding vs_def
    by (intro distinct_concat_nth) simp_all
qed

text \<open>The visited slots come first in the permutation of the edges.\<close>

lemma renumber_dummies_permutation:
  assumes "distinct vs" "\<forall>e \<in> set vs. e < n" "length o2n = n" "n < SPECIAL_EDGEID"
    "\<And>j. j < length vs \<Longrightarrow> o2n ! (vs ! j) = j" "\<And>e. e \<notin> set vs \<Longrightarrow> e < n \<Longrightarrow> o2n ! e = SPECIAL_EDGEID"
  defines "q \<equiv> renumber_dummies (o2n, length vs)"
  shows "is_permutation q \<and> length q = n \<and> length vs \<le> n \<and> (\<forall>j < length vs. q ! (vs ! j) = j)"
proof -
  define ds where "ds = filter (\<lambda>e. e \<notin> set vs) [0..<n]"
  have set_eq: "set (vs @ ds) = {0..<n}" using assms(2) by (auto simp: ds_def)
  have dist: "distinct (vs @ ds)" using assms(1) by (auto simp: ds_def)
  have len: "length (vs @ ds) = n" using distinct_card [OF dist] unfolding set_eq by simp
  have order: "is_permutation (vs @ ds)" unfolding is_permutation_def len using dist set_eq by blast
  have special: "\<forall>e < length o2n. o2n ! e = SPECIAL_EDGEID \<longleftrightarrow> e \<notin> set vs"
  proof (intro allI impI)
    fix e assume e: "e < length o2n"
    show "o2n ! e = SPECIAL_EDGEID \<longleftrightarrow> e \<notin> set vs"
    proof (cases "e \<in> set vs")
      case True
      then obtain j where "j < length vs" "vs ! j = e" by (auto simp: in_set_conv_nth)
      then show ?thesis using assms(5) [of j] len assms(4) True by auto
    qed (use assms(3,6) e in simp)
  qed
  have small: "length o2n \<le> SPECIAL_EDGEID" using assms(3,4) by simp
  note dm = renumber_dummies_spec [OF special small, where i = "length vs", folded q_def, unfolded assms(3), folded ds_def]
  have vis: "q ! (vs ! j) = j" if "j < length vs" for j
    using dm(3) [of "vs ! j"] assms(2) assms(5) [OF that] nth_mem [OF that] by simp
  have "q ! ((vs @ ds) ! j) = j" if "j < length (vs @ ds)" for j
    using that vis [of j] dm(2) [of "j - length vs"] by (cases "j < length vs") (simp_all add: nth_append)
  then have "is_permutation q" using inverse_is_permutation [OF order] dm(1) len by simp
  then show ?thesis using dm(1) vis len by auto
qed

lemma Renumber_compact:
  assumes "dg_inv g" "is_permutation p" "length p = number_of_nodes g" "length (edge_list g) < SPECIAL_EDGEID"
  shows "\<exists>g' L. Renumber p g = Done g' \<and> compact g' L \<and> length L = number_of_nodes g \<and>
    number_of_nodes g' = number_of_nodes g \<and> number_of_edges g' = length (edge_list g') \<and>
    (\<forall>n < number_of_nodes g. L ! (p ! n) = map (retarget p) (adj_list g n))"
proof -
  let ?es = "edge_list g" and ?N = "number_of_nodes g"
  let ?range = "\<lambda>x. [first_edge x..<first_edge x + edges x]"
  have "length (node_array g) = length p" using dg_invD(1) [OF assms(1)] assms(3) by simp
  then obtain nodes where nodes: "inplacePermutation (node_array g) p = Some nodes" "length nodes = ?N"
    "\<And>n. n < ?N \<Longrightarrow> nodes ! (p ! n) = node_array g ! n"
    using inplacePermutation_moves [OF assms(2)] assms(3) by metis
  define vs where "vs = concat (map ?range nodes)"
  note vs = visit_order [OF assms(1) nodes(2) assms(2,3) nodes(3), folded vs_def]
  define r0 where "r0 = \<lparr>rn_new_edge_index = 0, rn_old_to_new_edge = replicate (length ?es) SPECIAL_EDGEID, rn_edge_list = ?es\<rparr>"
  obtain nodes' r where ren: "renumber_nodes p nodes r0 = (nodes', r)" by fastforce
  note rn = renumber_nodes_spec [OF ren, folded vs_def]
  have r: "rn_new_edge_index r = length vs" "length (rn_edge_list r) = length ?es" "length (rn_old_to_new_edge r) = length ?es"
    "\<And>j. j < length vs \<Longrightarrow> rn_old_to_new_edge r ! (vs ! j) = j"
    "\<And>e. e \<notin> set vs \<Longrightarrow> e < length ?es \<Longrightarrow> rn_old_to_new_edge r ! e = SPECIAL_EDGEID"
    "\<And>e. e \<in> set vs \<Longrightarrow> rn_edge_list r ! e = retarget p (?es ! e)"
    using renumber_edges_spec [OF vs(1), of r0 p] vs(2) rn unfolding Let_def by (simp_all add: r0_def)
  define q where "q = renumber_dummies (rn_old_to_new_edge r, length vs)"
  note q = renumber_dummies_permutation [OF vs r(3) assms(4) r(4,5), folded q_def]
  have "length (rn_edge_list r) = length q" using q r(2) by simp
  then obtain ys where ys: "inplacePermutation (rn_edge_list r) q = Some ys" "length ys = length ?es"
    "\<And>e. e < length ?es \<Longrightarrow> ys ! (q ! e) = rn_edge_list r ! e"
    using inplacePermutation_moves [of q "rn_edge_list r"] q r(2) by metis
  have "take (length vs) ys = map (\<lambda>e. retarget p (?es ! e)) vs"
  proof (rule nth_equalityI)
    fix i assume "i < length (take (length vs) ys)"
    then have i: "i < length vs" by simp
    then have e: "vs ! i \<in> set vs" "vs ! i < length ?es" "q ! (vs ! i) = i" using vs(2) q nth_mem [OF i] by auto
    have "ys ! i = rn_edge_list r ! (vs ! i)" using ys(3) [OF e(2)] e(3) by simp
    then show "take (length vs) ys ! i = map (\<lambda>e. retarget p (?es ! e)) vs ! i" using r(6) [OF e(1)] i by simp
  qed (use q ys(2) in simp)
  then have layout: "take (length vs) ys = concat (map (\<lambda>x. map (\<lambda>e. retarget p (?es ! e)) (?range x)) nodes)"
    by (simp add: vs_def map_concat o_def)
  define L where "L = map (\<lambda>x. map (\<lambda>e. retarget p (?es ! e)) (?range x)) nodes"
  define g' where "g' = \<lparr>number_of_nodes = ?N, number_of_edges = length vs, node_array = nodes', edge_list = take (length vs) ys\<rparr>"
  have "Renumber p g = Done g'"
    using nodes(1) ren ys(1) assms(4) r(1) by (simp add: Renumber_def r0_def [symmetric] q_def g'_def)
  moreover have "compact g' L"
    using rn layout by (simp add: compact_def g'_def L_def r0_def o_def)
  moreover have "L ! (p ! n) = map (retarget p) (adj_list g n)" if "n < ?N" for n
    using nodes(2,3) that is_permutation_nth [OF assms(2), of n] assms(3)
    by (simp add: L_def adj_list_def BeginEdges_def EndEdges_def)
  ultimately show ?thesis using nodes(2) q ys(2) by (intro exI [of _ g'] exI [of _ L]) (simp add: g'_def L_def)
qed

lemma Renumber_spec:
  assumes "dg_inv g" "is_permutation p" "length p = number_of_nodes g" "length (edge_list g) < SPECIAL_EDGEID"
  shows "\<exists>g'. Renumber p g = Done g' \<and> dg_inv g' \<and> number_of_nodes g' = number_of_nodes g \<and>
    (\<forall>n < number_of_nodes g. graph_of g' (p ! n) = image_mset (retarget p) (graph_of g n))"
proof -
  obtain g' L where c: "Renumber p g = Done g'" "compact g' L" "length L = number_of_nodes g"
    "number_of_nodes g' = number_of_nodes g" "number_of_edges g' = length (edge_list g')"
    "\<And>n. n < number_of_nodes g \<Longrightarrow> L ! (p ! n) = map (retarget p) (adj_list g n)"
    using Renumber_compact [OF assms] by metis
  have inv: "\<exists>n < number_of_nodes g. p ! n = k" if "k < number_of_nodes g" for k
    using that assms(2,3) by (metis atLeastLessThan_iff in_set_conv_nth is_permutation_def le0)
  have "target x < number_of_nodes g'" if k: "k < number_of_nodes g'" "x \<in> set (L ! k)" for k x
  proof -
    obtain n where n: "n < number_of_nodes g" "p ! n = k" using inv [of k] k(1) c(4) by auto
    then obtain y where "y \<in> set (adj_list g n)" "x = retarget p y" using k(2) c(6) by auto
    then have "target y < number_of_nodes g" "target x = p ! target y"
      using dg_invD(4) [OF assms(1) n(1)] by (simp_all add: adj_def retarget_def)
    then show ?thesis using is_permutation_nth [OF assms(2)] assms(3) c(4) by simp
  qed
  then have "dg_inv g'" using c dg_invD(2) [OF assms(1)] by (intro compact_inv [OF c(2)]) auto
  moreover have "graph_of g' (p ! n) = image_mset (retarget p) (graph_of g n)" if "n < number_of_nodes g" for n
  proof -
    have "p ! n < number_of_nodes g" using is_permutation_nth [OF assms(2), of n] that assms(3) by simp
    then show ?thesis using compact_adj_list [OF c(2), of "p ! n"] c(3,4,6) that by (simp add: graph_of_def adj_def)
  qed
  ultimately show ?thesis using c(1,4) by blast
qed

section \<open>Properties\<close>

text \<open>The updates, when the code may call them, and what they mean for the graph.\<close>

datatype 'd dop = OpInsertEdge nat nat 'd | OpDeleteEdge nat nat | OpDeleteEdgesTo nat nat | OpRenumber "nat list"

primrec dg_step :: "(nat \<Rightarrow> 'd DynamicEdge) \<Rightarrow> 'd dop \<Rightarrow> 'd DynamicGraph \<Rightarrow> 'd DynamicGraph option" where
  "dg_step fresh (OpInsertEdge n to d) g = map_option snd (InsertEdge fresh n to d g)"
| "dg_step fresh (OpDeleteEdge n e) g = Some (DeleteEdge n e g)"
| "dg_step fresh (OpDeleteEdgesTo n t) g = Some (snd (DeleteEdgesTo n t g))"
| "dg_step fresh (OpRenumber p) g = (case Renumber p g of Done g' \<Rightarrow> Some g' | _ \<Rightarrow> None)"

primrec dg_enabled :: "'d dop \<Rightarrow> 'd DynamicGraph \<Rightarrow> bool" where
  "dg_enabled (OpInsertEdge n to d) g \<longleftrightarrow> n < number_of_nodes g \<and> to < number_of_nodes g"
| "dg_enabled (OpDeleteEdge n e) g \<longleftrightarrow> n < number_of_nodes g \<and> e \<in> set (GetAdjacentEdgeRange g n)"
| "dg_enabled (OpDeleteEdgesTo n t) g \<longleftrightarrow> n < number_of_nodes g"
| "dg_enabled (OpRenumber p) g \<longleftrightarrow> is_permutation p \<and> length p = number_of_nodes g"

inductive ag_step :: "(nat \<Rightarrow> 'd DynamicEdge multiset) \<Rightarrow> 'd dop \<Rightarrow> (nat \<Rightarrow> 'd DynamicEdge multiset) \<Rightarrow> bool" where
  ag_insert: "ag_step G (OpInsertEdge n to d) (G(n := add_mset \<lparr>target = to, data = d\<rparr> (G n)))"
| ag_delete: "x \<in># G n \<Longrightarrow> ag_step G (OpDeleteEdge n e) (G(n := G n - {#x#}))"
| ag_delete_to: "ag_step G (OpDeleteEdgesTo n t) (G(n := filter_mset (\<lambda>x. target x \<noteq> t) (G n)))"
| ag_renumber: "\<forall>n < length p. G' (p ! n) = image_mset (retarget p) (G n) \<Longrightarrow> \<forall>n \<ge> length p. G' n = {#} \<Longrightarrow>
    ag_step G (OpRenumber p) G'"

lemma insert_place_None:
  assumes "dg_inv g" "n < number_of_nodes g" "insert_place fresh (node_array g ! n) (edge_list g) = None"
  shows "2 ^ 32 \<le> 3 * length (edge_list g) + 2"
proof -
  have "edges (node_array g ! n) \<le> length (edge_list g)"
    using dg_invD(3) [OF assms(1,2)] by (simp add: EndEdges_def)
  moreover have "2 ^ 32 \<le> length (edge_list g) + (edges (node_array g ! n) * 11 div 10 + 2)"
    using assms(3) unfolding insert_place_def Let_def by (auto split: if_splits)
  ultimately show ?thesis by linarith
qed


definition dg_example :: "nat DynamicGraph" where
  "dg_example = DynamicGraph_make 3 [\<lparr>in_source = 0, in_target = 1, in_data = 7\<rparr>,
     \<lparr>in_source = 0, in_target = 2, in_data = 8\<rparr>, \<lparr>in_source = 2, in_target = 0, in_data = 9\<rparr>]"

lemma dg_example_inv: "dg_inv dg_example"
  unfolding dg_example_def by (rule conjunct1 [OF DynamicGraph_make_graph]) (simp_all add: SPECIAL_NODEID_def)

lemma dg_example_value:
  "dg_example = \<lparr>number_of_nodes = 3, number_of_edges = 3,
     node_array = [\<lparr>first_edge = 0, edges = 2\<rparr>, \<lparr>first_edge = 2, edges = 0\<rparr>, \<lparr>first_edge = 2, edges = 1\<rparr>],
     edge_list = [\<lparr>target = 1, data = 7\<rparr>, \<lparr>target = 2, data = 8\<rparr>, \<lparr>target = 0, data = 9\<rparr>]\<rparr>"
  by code_simp

lemma dg_example_length: "length (edge_list dg_example) = 3"
  by (simp add: dg_example_value)




text \<open>
  C30.  Filtering keeps exactly the edges between kept nodes, but copies the number of edges: as soon as
  one edge is dropped the count the filtered graph reports is too large.
\<close>

theorem Filter_count_wrong:
  assumes "dg_inv g" "n < number_of_nodes g" "x \<in># graph_of g n" "\<not> (f n \<and> f (target x))"
  shows "graph_of (Filter f g) = (\<lambda>n. if f n then filter_mset (\<lambda>edge. f (target edge)) (graph_of g n) else {#}) \<and>
    number_of_edges (Filter f g) > sum_list (map edges (node_array (Filter f g)))"
proof -
  let ?K = "\<lambda>n. if f n then filter (\<lambda>edge. f (target edge)) (adj_list g n) else []"
  have "map edges (node_array (Filter f g)) = map length (map ?K [0..<number_of_nodes g])"
    using Filter_compact [OF assms(1), of f] unfolding compact_def by blast
  moreover have "map edges (node_array g) = map (\<lambda>n. length (adj_list g n)) [0..<number_of_nodes g]"
    using dg_invD(1) [OF assms(1)] by (intro nth_equalityI) (simp_all add: adj_list_def BeginEdges_def EndEdges_def)
  moreover have "(\<Sum>n \<leftarrow> [0..<number_of_nodes g]. length (?K n)) < (\<Sum>n \<leftarrow> [0..<number_of_nodes g]. length (adj_list g n))"
  proof -
    have le: "length (?K k) \<le> length (adj_list g k)" for k by simp
    have "x \<in> set (adj_list g n)" using assms(2,3) by (simp add: graph_of_def adj_def)
    then have "length (?K n) < length (adj_list g n)"
      using assms(4) by (auto simp: length_filter_less intro: length_pos_if_in_set)
    then have "(\<Sum>n \<in> {0..<number_of_nodes g}. length (?K n)) < (\<Sum>n \<in> {0..<number_of_nodes g}. length (adj_list g n))"
      using assms(2) le by (intro sum_strict_mono_ex1 ballI bexI [of _ n]) (simp_all del: if_split)
    then show ?thesis by (simp only: interv_sum_list_conv_sum_set_nat set_upt)
  qed
  ultimately show ?thesis using Filter_graph [OF assms(1), of f] dg_invD(6) [OF assms(1)] by (simp add: o_def)
qed

theorem Filter_count_wrong_witness:
  "number_of_edges (Filter (\<lambda>n. n \<noteq> 1) dg_example) = 3 \<and> sum_list (map edges (node_array (Filter (\<lambda>n. n \<noteq> 1) dg_example))) < 3"
proof -
  have "\<lparr>target = 1, data = 7\<rparr> \<in># graph_of dg_example 0"
    by (simp add: dg_example_value graph_of_def adj_def adj_list_def BeginEdges_def EndEdges_def numeral_2_eq_2)
  then show ?thesis
    using Filter_count_wrong [OF dg_example_inv, of 0 "\<lparr>target = 1, data = 7\<rparr>" "\<lambda>n. n \<noteq> 1"] Filter_graph(2) [OF dg_example_inv]
    by (simp add: dg_example_value)
qed

end
