(* ===== verification/Plugin_Base.thy ===== *)
theory Plugin_Base
  imports Parameters
begin

text \<open>
  \<^verbatim>\<open>include/engine/phantom_node.hpp\<close>, \<^verbatim>\<open>src/engine/hint.cpp\<close> and \<^verbatim>\<open>include/engine/plugins/plugin_base.hpp\<close>:
  the positions on segments that a coordinate is snapped to, the hints a client may send instead, and
  what every plugin does before it routes: the checks, the candidates of every coordinate, the choice
  between candidates of small and of big components, and the message for a coordinate without one.
  The data facade is an object with virtual methods, here a record of functions.
\<close>

section \<open>Phantom nodes\<close>

record SegmentID =
  seg_id :: nat
  enabled :: bool

record ComponentID =
  cmp_id :: nat
  is_tiny :: bool

definition SPECIAL_SEGMENTID :: nat where
  "SPECIAL_SEGMENTID = 2147483647"

definition INVALID_COMPONENTID :: nat where
  "INVALID_COMPONENTID = 0"

definition INVALID_EDGE_WEIGHT :: int where
  "INVALID_EDGE_WEIGHT = 2147483647"

definition INVALID_EDGE_DURATION :: int where
  "INVALID_EDGE_DURATION = 2147483647"

definition MAXIMAL_EDGE_DURATION :: int where
  "MAXIMAL_EDGE_DURATION = 2147483647"

definition INVALID_EDGE_DISTANCE :: fp where
  "INVALID_EDGE_DISTANCE = Fin (2 ^ 128 - 2 ^ 104)"

text \<open>Weights and durations are \<^verbatim>\<open>int32_t\<close> values, distances \<^verbatim>\<open>float\<close>s, the bearing a 12-bit field.\<close>

record PhantomNode =
  forward_segment_id :: SegmentID
  reverse_segment_id :: SegmentID
  forward_weight :: int
  reverse_weight :: int
  forward_weight_offset :: int
  reverse_weight_offset :: int
  forward_distance :: fp
  reverse_distance :: fp
  forward_distance_offset :: fp
  reverse_distance_offset :: fp
  forward_duration :: int
  reverse_duration :: int
  forward_duration_offset :: int
  reverse_duration_offset :: int
  component :: ComponentID
  location :: Coordinate
  input_location :: Coordinate
  fwd_segment_position :: nat
  is_valid_forward_source :: bool
  is_valid_forward_target :: bool
  is_valid_reverse_source :: bool
  is_valid_reverse_target :: bool
  bearing :: nat

text \<open>The default constructor; \<^verbatim>\<open>util::Coordinate\<close> has its own, which is the argument here.\<close>

definition PhantomNode_default :: "Coordinate \<Rightarrow> PhantomNode" where
  "PhantomNode_default c =
     \<lparr>forward_segment_id = \<lparr>seg_id = SPECIAL_SEGMENTID, enabled = False\<rparr>,
      reverse_segment_id = \<lparr>seg_id = SPECIAL_SEGMENTID, enabled = False\<rparr>,
      forward_weight = INVALID_EDGE_WEIGHT, reverse_weight = INVALID_EDGE_WEIGHT,
      forward_weight_offset = 0, reverse_weight_offset = 0,
      forward_distance = INVALID_EDGE_DISTANCE, reverse_distance = INVALID_EDGE_DISTANCE,
      forward_distance_offset = Fin 0, reverse_distance_offset = Fin 0,
      forward_duration = MAXIMAL_EDGE_DURATION, reverse_duration = MAXIMAL_EDGE_DURATION,
      forward_duration_offset = 0, reverse_duration_offset = 0,
      component = \<lparr>cmp_id = INVALID_COMPONENTID, is_tiny = False\<rparr>, location = c, input_location = c,
      fwd_segment_position = 0, is_valid_forward_source = False, is_valid_forward_target = False,
      is_valid_reverse_source = False, is_valid_reverse_target = False, bearing = 0\<rparr>"

definition GetForwardWeightPlusOffset :: "PhantomNode \<Rightarrow> int option" where
  "GetForwardWeightPlusOffset p = i32_add (forward_weight_offset p) (forward_weight p)"

definition GetReverseWeightPlusOffset :: "PhantomNode \<Rightarrow> int option" where
  "GetReverseWeightPlusOffset p = i32_add (reverse_weight_offset p) (reverse_weight p)"

definition GetForwardDuration :: "PhantomNode \<Rightarrow> int option" where
  "GetForwardDuration p = i32_add (forward_duration p) (forward_duration_offset p)"

definition GetReverseDuration :: "PhantomNode \<Rightarrow> int option" where
  "GetReverseDuration p = i32_add (reverse_duration p) (reverse_duration_offset p)"

definition GetForwardDistance :: "PhantomNode \<Rightarrow> fp" where
  "GetForwardDistance p = fp_add (forward_distance p) (forward_distance_offset p)"

definition GetReverseDistance :: "PhantomNode \<Rightarrow> fp" where
  "GetReverseDistance p = fp_add (reverse_distance p) (reverse_distance_offset p)"

definition IsBidirected :: "PhantomNode \<Rightarrow> bool" where
  "IsBidirected p \<longleftrightarrow> enabled (forward_segment_id p) \<and> enabled (reverse_segment_id p)"

text \<open>Comparison of floating point numbers: \<^term>\<open>NaN\<close> differs from everything.\<close>

definition fp_neq :: "fp \<Rightarrow> fp \<Rightarrow> bool" where
  "fp_neq x y \<longleftrightarrow> x = NaN \<or> x \<noteq> y"

definition PhantomNode_IsValid_nodes :: "nat \<Rightarrow> PhantomNode \<Rightarrow> bool" where
  "PhantomNode_IsValid_nodes number_of_nodes p \<longleftrightarrow> Coordinate_IsValid (location p) \<and>
     (seg_id (forward_segment_id p) < number_of_nodes \<or> seg_id (reverse_segment_id p) < number_of_nodes) \<and>
     (forward_weight p \<noteq> INVALID_EDGE_WEIGHT \<or> reverse_weight p \<noteq> INVALID_EDGE_WEIGHT) \<and>
     (forward_duration p \<noteq> MAXIMAL_EDGE_DURATION \<or> reverse_duration p \<noteq> MAXIMAL_EDGE_DURATION) \<and>
     (fp_neq (forward_distance p) INVALID_EDGE_DISTANCE \<or> fp_neq (reverse_distance p) INVALID_EDGE_DISTANCE) \<and>
     cmp_id (component p) \<noteq> INVALID_COMPONENTID"

definition PhantomNode_IsValid_query :: "nat \<Rightarrow> Coordinate \<Rightarrow> PhantomNode \<Rightarrow> bool" where
  "PhantomNode_IsValid_query number_of_nodes queried p \<longleftrightarrow>
     queried = input_location p \<and> PhantomNode_IsValid_nodes number_of_nodes p"

definition PhantomNode_IsValid :: "PhantomNode \<Rightarrow> bool" where
  "PhantomNode_IsValid p = Coordinate_IsValid (location p)"

definition IsValidForwardSource :: "PhantomNode \<Rightarrow> bool" where
  "IsValidForwardSource p \<longleftrightarrow> enabled (forward_segment_id p) \<and> is_valid_forward_source p"

definition IsValidForwardTarget :: "PhantomNode \<Rightarrow> bool" where
  "IsValidForwardTarget p \<longleftrightarrow> enabled (forward_segment_id p) \<and> is_valid_forward_target p"

definition IsValidReverseSource :: "PhantomNode \<Rightarrow> bool" where
  "IsValidReverseSource p \<longleftrightarrow> enabled (reverse_segment_id p) \<and> is_valid_reverse_source p"

definition IsValidReverseTarget :: "PhantomNode \<Rightarrow> bool" where
  "IsValidReverseTarget p \<longleftrightarrow> enabled (reverse_segment_id p) \<and> is_valid_reverse_target p"

definition bearing_reverse :: "nat \<Rightarrow> nat" where
  "bearing_reverse b = (if b \<ge> 180 then b - 180 else b + 180)"

text \<open>The bearing is a whole number, so rounding changes nothing.\<close>

definition GetBearing :: "bool \<Rightarrow> PhantomNode \<Rightarrow> nat" where
  "GetBearing traversed_in_reverse p = (if traversed_in_reverse then bearing_reverse (bearing p) else bearing p)"

definition PhantomNode_eq :: "PhantomNode \<Rightarrow> PhantomNode \<Rightarrow> bool" where
  "PhantomNode_eq p other \<longleftrightarrow> location p = location other"

type_synonym PhantomNodeCandidates = "PhantomNode list"

type_synonym PhantomCandidateAlternatives = "PhantomNodeCandidates \<times> PhantomNodeCandidates"

record PhantomNodeWithDistance =
  phantom_node :: PhantomNode
  distance :: fp

definition candidatesHaveComponent :: "PhantomNodeCandidates \<Rightarrow> nat \<Rightarrow> bool" where
  "candidatesHaveComponent candidates component_id \<longleftrightarrow>
     list_ex (\<lambda>node. cmp_id (component node) = component_id) candidates"

text \<open>\<^verbatim>\<open>front()\<close> of an empty vector is undefined.\<close>

fun candidatesSnappedLocation :: "PhantomNodeCandidates \<Rightarrow> Coordinate option" where
  "candidatesSnappedLocation [] = None"
| "candidatesSnappedLocation (p # ps) = Some (location p)"

fun candidatesInputLocation :: "PhantomNodeCandidates \<Rightarrow> Coordinate option" where
  "candidatesInputLocation [] = None"
| "candidatesInputLocation (p # ps) = Some (input_location p)"

section \<open>Hints\<close>

record SegmentHint =
  phantom :: PhantomNode
  data_checksum :: "32 word"

record Hint =
  segment_hints :: "SegmentHint list"

record BaseDataFacade =
  GetCheckSum :: "32 word"
  NearestPhantomNodesInRange :: "Coordinate \<Rightarrow> fp \<Rightarrow> Bearing option \<Rightarrow> Approach \<Rightarrow> bool \<Rightarrow> PhantomNodeWithDistance list"
  NearestPhantomNodes :: "Coordinate \<Rightarrow> nat \<Rightarrow> fp option \<Rightarrow> Bearing option \<Rightarrow> Approach \<Rightarrow> PhantomNodeWithDistance list"
  NearestCandidatesWithAlternativeFromBigComponent ::
    "Coordinate \<Rightarrow> fp option \<Rightarrow> Bearing option \<Rightarrow> Approach \<Rightarrow> bool \<Rightarrow> PhantomCandidateAlternatives"

definition SegmentHint_IsValid :: "Coordinate \<Rightarrow> BaseDataFacade \<Rightarrow> SegmentHint \<Rightarrow> bool" where
  "SegmentHint_IsValid c facade h \<longleftrightarrow>
     (let is_same_input_coordinate = crd_lon c = crd_lon (input_location (phantom h)) \<and>
        crd_lat c = crd_lat (input_location (phantom h))
      in is_same_input_coordinate \<and> PhantomNode_IsValid (phantom h) \<and> GetCheckSum facade = data_checksum h)"

definition SegmentHint_eq :: "SegmentHint \<Rightarrow> SegmentHint \<Rightarrow> bool" where
  "SegmentHint_eq lhs rhs \<longleftrightarrow> PhantomNode_eq (phantom lhs) (phantom rhs) \<and> data_checksum lhs = data_checksum rhs"

text \<open>The loop of \<^verbatim>\<open>Hint::IsValid\<close> over the sets of seen segments.\<close>

fun no_duplicates :: "nat set \<Rightarrow> nat set \<Rightarrow> SegmentHint list \<Rightarrow> bool" where
  "no_duplicates fs rs [] = True"
| "no_duplicates fs rs (h # hs) =
     (let f = seg_id (forward_segment_id (phantom h)); r = seg_id (reverse_segment_id (phantom h)) in
      if f \<in> fs then False else if r \<in> rs then False else no_duplicates (insert f fs) (insert r rs) hs)"

definition Hint_IsValid :: "Coordinate \<Rightarrow> BaseDataFacade \<Rightarrow> Hint \<Rightarrow> bool" where
  "Hint_IsValid c facade h \<longleftrightarrow> list_all (SegmentHint_IsValid c facade) (segment_hints h) \<and>
     no_duplicates {} {} (segment_hints h)"

section \<open>The base plugin\<close>

definition CheckAllCoordinates :: "Coordinate list \<Rightarrow> bool" where
  "CheckAllCoordinates coordinates \<longleftrightarrow> \<not> list_ex (\<lambda>c. \<not> Coordinate_IsValid c) coordinates"

text \<open>
  A request is answered or refused with a code and a message.  \<^verbatim>\<open>CheckAlgorithms\<close> gives the refusal,
  without one when its last assertion is reached with assertions switched off.
\<close>

record Error =
  err_code :: string
  err_message :: string

datatype check = Passes | Refused Error | Refused_silently

definition CheckAlgorithms :: "bool \<Rightarrow> bool \<Rightarrow> ('h, 'z) BaseParameters_scheme \<Rightarrow> check" where
  "CheckAlgorithms IsValid HasExcludeFlags params =
     (if IsValid then Passes
      else if \<not> HasExcludeFlags \<and> bp_exclude params \<noteq> []
      then Refused \<lparr>err_code = ''NotImplemented'', err_message = ''This algorithm does not support exclude flags.''\<rparr>
      else if HasExcludeFlags \<and> bp_exclude params \<noteq> []
      then Refused \<lparr>err_code = ''InvalidValue'', err_message = ''Exclude flag combination is not supported.''\<rparr>
      else Refused_silently)"

definition all_in_same_tiny_component :: "PhantomCandidateAlternatives list \<Rightarrow> bool" where
  "all_in_same_tiny_component alts_list \<longleftrightarrow>
     list_ex (\<lambda>p. is_tiny (component p) \<and>
       list_all (\<lambda>alternatives. candidatesHaveComponent (fst alternatives) (cmp_id (component p))) (tl alts_list))
     (fst (hd alts_list))"

definition fallback_to_big_component :: "PhantomCandidateAlternatives \<Rightarrow> PhantomNodeCandidates" where
  "fallback_to_big_component alternatives = (if snd alternatives = [] then fst alternatives else snd alternatives)"

definition SnapPhantomNodes :: "PhantomCandidateAlternatives list \<Rightarrow> PhantomNodeCandidates list" where
  "SnapPhantomNodes alternatives_list =
     (let no_alternatives = list_all (\<lambda>alternatives. snd alternatives = []) alternatives_list in
      if no_alternatives \<or> all_in_same_tiny_component alternatives_list
      then map fst alternatives_list
      else map fallback_to_big_component alternatives_list)"

text \<open>
  The arguments of the nearest neighbour queries for coordinate \<open>i\<close>.  The vectors are empty or as long
  as the coordinates (\<^verbatim>\<open>BaseParameters::IsValid\<close>), so the indices are in range.
\<close>

definition usable_hint :: "BaseDataFacade \<Rightarrow> (Hint, 'z) BaseParameters_scheme \<Rightarrow> nat \<Rightarrow> Hint option" where
  "usable_hint facade parameters i =
     (if bp_hints parameters \<noteq> [] then
        case bp_hints parameters ! i of None \<Rightarrow> None
        | Some h \<Rightarrow> if segment_hints h \<noteq> [] \<and> Hint_IsValid (bp_coordinates parameters ! i) facade h then Some h else None
      else None)"

definition radius_of :: "fp option \<Rightarrow> ('h, 'z) BaseParameters_scheme \<Rightarrow> nat \<Rightarrow> fp option" where
  "radius_of default_radius parameters i =
     (if bp_radiuses parameters \<noteq> [] then bp_radiuses parameters ! i else default_radius)"

definition bearing_of :: "('h, 'z) BaseParameters_scheme \<Rightarrow> nat \<Rightarrow> Bearing option" where
  "bearing_of parameters i = (if bp_bearings parameters \<noteq> [] then bp_bearings parameters ! i else None)"

definition approach_of :: "('h, 'z) BaseParameters_scheme \<Rightarrow> nat \<Rightarrow> Approach" where
  "approach_of parameters i =
     (if bp_approaches parameters \<noteq> [] then case bp_approaches parameters ! i of Some a \<Rightarrow> a | None \<Rightarrow> UNRESTRICTED
      else UNRESTRICTED)"

definition hint_distances :: "(Coordinate \<Rightarrow> Coordinate \<Rightarrow> fp) \<Rightarrow> Coordinate \<Rightarrow> Hint \<Rightarrow> PhantomNodeWithDistance list" where
  "hint_distances greatCircleDistance c h =
     map (\<lambda>seg_hint. \<lparr>phantom_node = phantom seg_hint, distance = greatCircleDistance c (location (phantom seg_hint))\<rparr>)
       (segment_hints h)"

definition GetPhantomNodesInRange :: "(Coordinate \<Rightarrow> Coordinate \<Rightarrow> fp) \<Rightarrow> BaseDataFacade \<Rightarrow>
    (Hint, 'z) BaseParameters_scheme \<Rightarrow> fp list \<Rightarrow> bool \<Rightarrow> PhantomNodeWithDistance list list" where
  "GetPhantomNodesInRange greatCircleDistance facade parameters radiuses use_all_edges =
     map (\<lambda>i. let c = bp_coordinates parameters ! i in
        case usable_hint facade parameters i of Some h \<Rightarrow> hint_distances greatCircleDistance c h
        | None \<Rightarrow> NearestPhantomNodesInRange facade c (radiuses ! i) (bearing_of parameters i)
            (approach_of parameters i) use_all_edges)
       [0..<length (bp_coordinates parameters)]"

text \<open>The loops of the two \<^verbatim>\<open>GetPhantomNodes\<close>, which stop at a coordinate without a result.\<close>

fun phantom_nodes_loop :: "(Coordinate \<Rightarrow> Coordinate \<Rightarrow> fp) \<Rightarrow> BaseDataFacade \<Rightarrow> fp option \<Rightarrow>
    (Hint, 'z) BaseParameters_scheme \<Rightarrow> nat \<Rightarrow> nat list \<Rightarrow> PhantomNodeWithDistance list list \<Rightarrow> PhantomNodeWithDistance list list" where
  "phantom_nodes_loop greatCircleDistance facade default_radius parameters k [] phantom_nodes = phantom_nodes"
| "phantom_nodes_loop greatCircleDistance facade default_radius parameters k (i # is) phantom_nodes =
     (let c = bp_coordinates parameters ! i in
      case usable_hint facade parameters i of
        Some h \<Rightarrow> phantom_nodes_loop greatCircleDistance facade default_radius parameters k is
          (phantom_nodes[i := phantom_nodes ! i @ hint_distances greatCircleDistance c h])
      | None \<Rightarrow>
          let r = NearestPhantomNodes facade c k (radius_of default_radius parameters i) (bearing_of parameters i)
                (approach_of parameters i)
          in if r = [] then phantom_nodes[i := r]
             else phantom_nodes_loop greatCircleDistance facade default_radius parameters k is (phantom_nodes[i := r]))"

definition GetPhantomNodes_nearest :: "(Coordinate \<Rightarrow> Coordinate \<Rightarrow> fp) \<Rightarrow> BaseDataFacade \<Rightarrow> fp option \<Rightarrow>
    (Hint, 'z) BaseParameters_scheme \<Rightarrow> nat \<Rightarrow> PhantomNodeWithDistance list list" where
  "GetPhantomNodes_nearest greatCircleDistance facade default_radius parameters k =
     phantom_nodes_loop greatCircleDistance facade default_radius parameters k [0..<length (bp_coordinates parameters)]
       (replicate (length (bp_coordinates parameters)) [])"

definition nearest_candidates :: "BaseDataFacade \<Rightarrow> fp option \<Rightarrow> (Hint, 'z) BaseParameters_scheme \<Rightarrow> nat
    \<Rightarrow> PhantomCandidateAlternatives" where
  "nearest_candidates facade default_radius parameters i =
     NearestCandidatesWithAlternativeFromBigComponent facade (bp_coordinates parameters ! i)
       (radius_of default_radius parameters i) (bearing_of parameters i) (approach_of parameters i)
       (bp_snapping parameters = SnapAny)"

fun candidates_loop :: "BaseDataFacade \<Rightarrow> fp option \<Rightarrow> (Hint, 'z) BaseParameters_scheme \<Rightarrow> nat list
    \<Rightarrow> PhantomCandidateAlternatives list \<Rightarrow> PhantomCandidateAlternatives list" where
  "candidates_loop facade default_radius parameters [] alternatives = alternatives"
| "candidates_loop facade default_radius parameters (i # is) alternatives =
     (case usable_hint facade parameters i of
        Some h \<Rightarrow> candidates_loop facade default_radius parameters is
          (alternatives[i := (fst (alternatives ! i) @ map phantom (segment_hints h), snd (alternatives ! i))])
      | None \<Rightarrow>
          let a = nearest_candidates facade default_radius parameters i in
          if fst a = [] then butlast (alternatives[i := a])
          else candidates_loop facade default_radius parameters is (alternatives[i := a]))"

definition GetPhantomNodes :: "BaseDataFacade \<Rightarrow> fp option \<Rightarrow> (Hint, 'z) BaseParameters_scheme
    \<Rightarrow> PhantomCandidateAlternatives list" where
  "GetPhantomNodes facade default_radius parameters =
     candidates_loop facade default_radius parameters [0..<length (bp_coordinates parameters)]
       (replicate (length (bp_coordinates parameters)) ([], []))"

text \<open>\<^verbatim>\<open>std::to_string\<close> of a natural number.\<close>

fun to_string :: "nat \<Rightarrow> string" where
  "to_string n = (if n < 10 then [''0123456789'' ! n] else to_string (n div 10) @ [''0123456789'' ! (n mod 10)])"

declare to_string.simps [simp del]

definition missing_index :: "PhantomCandidateAlternatives list \<Rightarrow> Coordinate list \<Rightarrow> nat" where
  "missing_index alternatives coordinates =
     length (takeWhile (\<lambda>(candidates_pair, coordinate).
       list_ex (\<lambda>p. input_location p = coordinate) (fst candidates_pair)) (zip alternatives coordinates))"

definition MissingPhantomErrorMessage :: "PhantomCandidateAlternatives list \<Rightarrow> Coordinate list \<Rightarrow> string" where
  "MissingPhantomErrorMessage alternatives coordinates =
     ''Could not find a matching segment for coordinate '' @ to_string (missing_index alternatives coordinates)"

section \<open>Hints and snapping\<close>

lemma no_duplicates_iff:
  "no_duplicates fs rs hs \<longleftrightarrow>
     distinct (map (\<lambda>h. seg_id (forward_segment_id (phantom h))) hs) \<and> distinct (map (\<lambda>h. seg_id (reverse_segment_id (phantom h))) hs) \<and>
     (\<forall>h \<in> set hs. seg_id (forward_segment_id (phantom h)) \<notin> fs \<and> seg_id (reverse_segment_id (phantom h)) \<notin> rs)"
proof (induction hs arbitrary: fs rs)
  case (Cons h hs)
  show ?case unfolding no_duplicates.simps Let_def using Cons.IH by (simp add: image_iff) metis
qed simp

text \<open>
  Segments that cannot be travelled in reverse all carry the same special id there, so a hint with two
  of them counts as one with duplicates.
\<close>

lemma Hint_two_one_way:
  assumes "i < j" "j < length (segment_hints h)"
    and "seg_id (reverse_segment_id (phantom (segment_hints h ! i))) = SPECIAL_SEGMENTID"
    and "seg_id (reverse_segment_id (phantom (segment_hints h ! j))) = SPECIAL_SEGMENTID"
  shows "\<not> Hint_IsValid c facade h"
proof
  assume "Hint_IsValid c facade h"
  then have "distinct (map (\<lambda>h. seg_id (reverse_segment_id (phantom h))) (segment_hints h))"
    by (simp add: Hint_IsValid_def no_duplicates_iff)
  from nth_eq_iff_index_eq [OF this, of i j] show False using assms by simp
qed

lemma usable_hint_valid:
  assumes "usable_hint facade parameters i = Some h"
  shows "segment_hints h \<noteq> [] \<and> (\<forall>s \<in> set (segment_hints h). input_location (phantom s) = bp_coordinates parameters ! i)"
  using assms unfolding usable_hint_def
  by (auto simp: Hint_IsValid_def list_all_iff SegmentHint_IsValid_def Let_def split: if_splits option.splits
      intro: Coordinate.equality)

lemma SnapPhantomNodes_candidates:
  "length (SnapPhantomNodes alts) = length alts"
  "\<forall>a \<in> set alts. fst a \<noteq> [] \<Longrightarrow> \<forall>c \<in> set (SnapPhantomNodes alts). c \<noteq> []"
  by (auto simp: SnapPhantomNodes_def Let_def fallback_to_big_component_def)

section \<open>Candidates of every coordinate\<close>

definition candidates_of :: "BaseDataFacade \<Rightarrow> fp option \<Rightarrow> (Hint, 'z) BaseParameters_scheme \<Rightarrow> nat
    \<Rightarrow> PhantomCandidateAlternatives" where
  "candidates_of facade dr parameters i = (case usable_hint facade parameters i of
     Some h \<Rightarrow> (map phantom (segment_hints h), []) | None \<Rightarrow> nearest_candidates facade dr parameters i)"

lemma fill_slot: "k < n \<Longrightarrow> (map f [0..<k] @ replicate (n - k) z)[k := f k] = map f [0..<Suc k] @ replicate (n - Suc k) z"
  by (simp add: list_update_append Suc_diff_Suc [symmetric] del: upt_Suc) simp

lemma candidates_loop_eq:
  assumes "k \<le> n"
  shows "candidates_loop facade dr parameters [k..<n] (map (candidates_of facade dr parameters) [0..<k] @ replicate (n - k) ([], [])) =
    (case find (\<lambda>i. fst (candidates_of facade dr parameters i) = []) [k..<n] of
       None \<Rightarrow> map (candidates_of facade dr parameters) [0..<n]
     | Some i \<Rightarrow> butlast (map (candidates_of facade dr parameters) [0..<Suc i] @ replicate (n - Suc i) ([], [])))"
  using assms
proof (induction "n - k" arbitrary: k)
  case 0
  then show ?case by simp
next
  case (Suc d)
  let ?f = "candidates_of facade dr parameters"
  from Suc have k: "k < n" "[k..<n] = k # [Suc k..<n]" by (simp_all add: upt_conv_Cons)
  note fill = fill_slot [OF k(1), of ?f "([], [])"]
  have nth: "(map ?f [0..<k] @ replicate (n - k) ([], [])) ! k = ([], [])" using k(1) by (simp add: nth_append)
  note IH = Suc.hyps(1) [of "Suc k"]
  show ?case
  proof (cases "usable_hint facade parameters k")
    case None
    then have f: "?f k = nearest_candidates facade dr parameters k" by (simp add: candidates_of_def)
    show ?thesis using k IH Suc.hyps(2) None fill unfolding f by (simp add: Let_def f del: upt_Suc)
  next
    case (Some h)
    then have f: "?f k = (map phantom (segment_hints h), [])" by (simp add: candidates_of_def)
    then show ?thesis using k IH Suc.hyps(2) Some fill nth usable_hint_valid [OF Some] by (simp del: upt_Suc)
  qed
qed

lemma candidates_input_location:
  assumes "\<forall>q \<in> set (fst (nearest_candidates facade dr parameters i)). input_location q = bp_coordinates parameters ! i"
  shows "list_ex (\<lambda>q. input_location q = bp_coordinates parameters ! i) (fst (candidates_of facade dr parameters i)) \<longleftrightarrow>
    fst (candidates_of facade dr parameters i) \<noteq> []"
proof (cases "usable_hint facade parameters i")
  case None
  then show ?thesis using assms by (cases "fst (nearest_candidates facade dr parameters i)") (auto simp: candidates_of_def)
next
  case (Some h)
  then show ?thesis using usable_hint_valid [OF Some] by (cases "segment_hints h") (auto simp: candidates_of_def)
qed

lemma missing_index_prefix:
  assumes "length cs = n" "i < n" "\<forall>j < i. list_ex (\<lambda>q. input_location q = cs ! j) (fst (f j))"
    and "rest = [] \<or> fst (hd rest) = []"
  shows "missing_index (map f [0..<i] @ rest) cs = i"
proof -
  let ?P = "\<lambda>(a, c). list_ex (\<lambda>q. input_location q = c) (fst a)"
  have "zip (map f [0..<i] @ rest) cs = zip (map f [0..<i]) (take i cs) @ zip rest (drop i cs)"
    using assms(1,2) by (simp add: zip_append1)
  moreover have "\<forall>x \<in> set (zip (map f [0..<i]) (take i cs)). ?P x"
    using assms(1-3) by (auto simp: set_zip split: prod.split) (metis fst_conv)
  moreover have "takeWhile ?P (zip rest (drop i cs)) = []"
    using assms(4) by (cases rest; cases "drop i cs") auto
  ultimately show ?thesis using assms(1,2) by (simp add: missing_index_def takeWhile_append2)
qed

section \<open>Properties\<close>

text \<open>
  C27.  The candidates of a request: when every coordinate has a usable hint or a segment nearby, there
  is one nonempty list per coordinate.  Otherwise one list is missing, which is how the plugins detect
  it, and the message names the first coordinate without a candidate.  The facade is only assumed to
  record the coordinate it was asked for.
\<close>

theorem GetPhantomNodes_spec:
  fixes parameters :: "(Hint, 'z) BaseParameters_scheme"
  assumes "\<forall>i < length (bp_coordinates parameters). \<forall>q \<in> set (fst (nearest_candidates facade dr parameters i)). input_location q = bp_coordinates parameters ! i"
  shows "case find (\<lambda>i. usable_hint facade parameters i = None \<and> fst (nearest_candidates facade dr parameters i) = []) 
        [0..<length (bp_coordinates parameters)] of
      None \<Rightarrow> length (GetPhantomNodes facade dr parameters) = length (bp_coordinates parameters) \<and>
         (\<forall>a \<in> set (GetPhantomNodes facade dr parameters). fst a \<noteq> [])
    | Some i \<Rightarrow> length (GetPhantomNodes facade dr parameters) = length (bp_coordinates parameters) - 1 \<and>
        MissingPhantomErrorMessage (GetPhantomNodes facade dr parameters) (bp_coordinates parameters) =
          ''Could not find a matching segment for coordinate '' @ to_string i"
proof -
  define n where "n = length (bp_coordinates parameters)"
  note [simp] = n_def [symmetric]
  let ?f = "candidates_of facade dr parameters"
  have P: "(\<lambda>i. usable_hint facade parameters i = None \<and> fst (nearest_candidates facade dr parameters i) = []) =
      (\<lambda>i. fst (?f i) = [])"
    using usable_hint_valid by (fastforce simp: candidates_of_def split: option.splits)
  have g: "GetPhantomNodes facade dr parameters = (case find (\<lambda>i. fst (?f i) = []) [0..<n] of
      None \<Rightarrow> map ?f [0..<n] | Some i \<Rightarrow> butlast (map ?f [0..<Suc i] @ replicate (n - Suc i) ([], [])))"
    using candidates_loop_eq [of 0 n facade dr parameters] by (simp add: GetPhantomNodes_def)
  show ?thesis
  proof (cases "find (\<lambda>i. fst (?f i) = []) [0..<n]")
    case None
    then have "\<forall>i < n. fst (?f i) \<noteq> []" by (simp add: find_None_iff)
    then show ?thesis using g None by (simp add: P)
  next
    case (Some i)
    then have i: "i < n" "fst (?f i) = []" "\<forall>j < i. fst (?f j) \<noteq> []" by (auto simp: find_Some_iff)
    have rest: "\<exists>rest. GetPhantomNodes facade dr parameters = map ?f [0..<i] @ rest \<and> (rest = [] \<or> fst (hd rest) = []) \<and>
        length rest = n - 1 - i"
    proof (cases "Suc i = n")
      case False
      then show ?thesis using g Some i
        by (intro exI [of _ "?f i # butlast (replicate (n - Suc i) ([], []))"]) (simp add: butlast_append)
    qed (use g Some in \<open>auto simp: butlast_append\<close>)
    then obtain rest where r: "GetPhantomNodes facade dr parameters = map ?f [0..<i] @ rest" "rest = [] \<or> fst (hd rest) = []"
      "length rest = n - 1 - i" by blast
    have "\<forall>j < i. list_ex (\<lambda>q. input_location q = bp_coordinates parameters ! j) (fst (?f j))"
      using i assms(1) candidates_input_location [of facade dr parameters] by fastforce
    from missing_index_prefix [OF _ i(1) this r(2)] have "missing_index (GetPhantomNodes facade dr parameters) (bp_coordinates parameters) = i"
      using r(1) by simp
    then show ?thesis using Some r i by (simp add: P MissingPhantomErrorMessage_def)
  qed
qed

text \<open>A request with two coordinates, of which only the first is near a segment.\<close>

definition demo_coordinates :: "Coordinate list" where
  "demo_coordinates = [\<lparr>crd_lon = 7000000, crd_lat = 50000000\<rparr>, \<lparr>crd_lon = 8000000, crd_lat = 51000000\<rparr>]"

definition demo_request :: "Hint BaseParameters" where
  "demo_request = BaseParameters_default\<lparr>bp_coordinates := demo_coordinates\<rparr>"

definition demo_facade :: BaseDataFacade where
  "demo_facade = \<lparr>GetCheckSum = 0, NearestPhantomNodesInRange = (\<lambda>_ _ _ _ _. []), NearestPhantomNodes = (\<lambda>_ _ _ _ _. []),
     NearestCandidatesWithAlternativeFromBigComponent =
       (\<lambda>c _ _ _ _. (if c = hd demo_coordinates then [PhantomNode_default c] else [], []))\<rparr>"

theorem GetPhantomNodes_spec_witness:
  "MissingPhantomErrorMessage (GetPhantomNodes demo_facade None demo_request) demo_coordinates =
     ''Could not find a matching segment for coordinate 1''"
proof -
  have c: "bp_coordinates demo_request = demo_coordinates" "length demo_coordinates = 2"
    by (simp_all add: demo_request_def demo_coordinates_def)
  have near: "nearest_candidates demo_facade None demo_request i =
      (if demo_coordinates ! i = hd demo_coordinates then [PhantomNode_default (demo_coordinates ! i)] else [], [])" for i
    by (simp add: nearest_candidates_def demo_facade_def c)
  have "\<forall>i < length (bp_coordinates demo_request). \<forall>q \<in> set (fst (nearest_candidates demo_facade None demo_request i)).
      input_location q = bp_coordinates demo_request ! i"
    by (simp add: near c PhantomNode_default_def)
  moreover have "usable_hint demo_facade demo_request i = None" for i
    by (simp add: usable_hint_def demo_request_def BaseParameters_default_def)
  moreover have "[0..<length (bp_coordinates demo_request)] = [0, 1]" by (simp add: c upt_rec)
  moreover have "to_string 1 = ''1''" by (simp add: to_string.simps)
  ultimately show ?thesis using GetPhantomNodes_spec [of demo_request demo_facade None]
    by (simp add: near c) (simp add: demo_coordinates_def c(1) [unfolded demo_coordinates_def])
qed

end
