(* ===== verification/Trip.thy ===== *)
theory Trip
  imports Plugin_Base "HOL-Library.List_Lexorder"
begin

text \<open>
  \<^verbatim>\<open>include/engine/trip\<close> and \<^verbatim>\<open>include/util/dist_table_wrapper.hpp\<close>: the search for a short round trip, by
  all permutations for few locations and by farthest insertion otherwise.  \<^term>\<open>None\<close> is undefined
  behaviour: an index outside of a vector, an overflow of \<^verbatim>\<open>int32_t\<close>, or the use of an iterator that was
  never set.
\<close>

section \<open>Duration tables\<close>

record DistTableWrapper =
  table :: "int list"
  nodes :: nat

definition dt_at :: "DistTableWrapper \<Rightarrow> nat \<Rightarrow> nat \<Rightarrow> int option" where
  "dt_at t from to = (let index = from * nodes t + to in
     if index < length (table t) then Some (table t ! index) else None)"

definition SetValue :: "nat \<Rightarrow> nat \<Rightarrow> int \<Rightarrow> DistTableWrapper \<Rightarrow> DistTableWrapper option" where
  "SetValue from to v t = (let index = from * nodes t + to in
     if index < length (table t) then Some (t\<lparr>table := (table t)[index := v]\<rparr>) else None)"

text \<open>\<^verbatim>\<open>std::max_element\<close>: the first largest element, the end for an empty range.\<close>

fun max_element :: "int list \<Rightarrow> nat" where
  "max_element [] = 0"
| "max_element [x] = 0"
| "max_element (x # xs) = (let k = max_element xs in if x < xs ! k then Suc k else 0)"

definition GetIndexOfMaxValue :: "DistTableWrapper \<Rightarrow> nat" where
  "GetIndexOfMaxValue t = max_element (table t)"

section \<open>All permutations\<close>

function return_loop :: "DistTableWrapper \<Rightarrow> nat list \<Rightarrow> int \<Rightarrow> nat \<Rightarrow> nat \<Rightarrow> int \<Rightarrow> int option" where
  "return_loop dist_table location_order min_route_dist number_of_locations current_index route_dist =
     (if current_index < length location_order \<and> route_dist < min_route_dist then
        let next_index = (current_index + 1) mod number_of_locations in
        if next_index < length location_order then
          case dt_at dist_table (location_order ! current_index) (location_order ! next_index) of
            None \<Rightarrow> None
          | Some edge_weight \<Rightarrow>
              if edge_weight = INVALID_EDGE_DURATION then Some INVALID_EDGE_DURATION
              else case i32_add route_dist edge_weight of None \<Rightarrow> None
                | Some route_dist' \<Rightarrow>
                    return_loop dist_table location_order min_route_dist number_of_locations (current_index + 1) route_dist'
        else None
      else Some route_dist)"
  by auto
termination by (relation "measure (\<lambda>(t, order, m, n, i, d). length order - i)") auto

declare return_loop.simps [simp del]

definition ReturnDistance :: "DistTableWrapper \<Rightarrow> nat list \<Rightarrow> int \<Rightarrow> nat \<Rightarrow> int option" where
  "ReturnDistance dist_table location_order min_route_dist number_of_locations =
     return_loop dist_table location_order min_route_dist number_of_locations 0 0"

text \<open>
  \<^verbatim>\<open>std::next_permutation\<close>: the longest descending end of the sequence, the element before it exchanged
  with the last larger one behind it, and the end reversed; \<^term>\<open>None\<close> when there is no such element.
\<close>

fun next_permutation :: "nat list \<Rightarrow> nat list option" where
  "next_permutation [] = None"
| "next_permutation (x # xs) = (case next_permutation xs of Some ys \<Rightarrow> Some (x # ys)
     | None \<Rightarrow> (case dropWhile (\<lambda>y. y \<le> x) (rev xs) of [] \<Rightarrow> None
         | y # zs \<Rightarrow> Some (y # takeWhile (\<lambda>y. y \<le> x) (rev xs) @ x # zs)))"

partial_function (option) brute_loop ::
    "DistTableWrapper \<Rightarrow> nat \<Rightarrow> nat list \<Rightarrow> int \<Rightarrow> nat list \<Rightarrow> nat list option" where
  "brute_loop dist_table number_of_locations node_order min_route_dist route =
     Option.bind (ReturnDistance dist_table node_order min_route_dist number_of_locations) (\<lambda>new_distance.
       let best = (if new_distance < min_route_dist then (new_distance, node_order) else (min_route_dist, route)) in
       case next_permutation node_order of None \<Rightarrow> Some (snd best)
       | Some node_order' \<Rightarrow> brute_loop dist_table number_of_locations node_order' (fst best) (snd best))"

declare brute_loop.simps [code]

definition BruteForceTrip :: "nat \<Rightarrow> DistTableWrapper \<Rightarrow> nat list option" where
  "BruteForceTrip number_of_locations dist_table =
     brute_loop dist_table number_of_locations [0..<number_of_locations] INVALID_EDGE_DURATION [0..<number_of_locations]"

section \<open>Farthest insertion\<close>

text \<open>The best place so far: the added duration and the place, which is not set at first.\<close>

fun round_trip_loop :: "nat \<Rightarrow> DistTableWrapper \<Rightarrow> nat list \<Rightarrow> nat list \<Rightarrow> int \<times> nat option \<Rightarrow> (int \<times> nat option) option" where
  "round_trip_loop new_loc dist_table route [] best = Some best"
| "round_trip_loop new_loc dist_table route (from_node # rest) best =
     (let to_node = (if from_node + 1 = length route then 0 else from_node + 1) in do {
        dist_from \<leftarrow> dt_at dist_table (route ! from_node) new_loc;
        dist_to \<leftarrow> dt_at dist_table new_loc (route ! to_node);
        if dist_from = INVALID_EDGE_DURATION \<or> dist_to = INVALID_EDGE_DURATION
        then round_trip_loop new_loc dist_table route rest best
        else do {
          both \<leftarrow> i32_add dist_from dist_to;
          direct \<leftarrow> dt_at dist_table (route ! from_node) (route ! to_node);
          trip_dist \<leftarrow> i32_sub both direct;
          round_trip_loop new_loc dist_table route rest
            (if trip_dist < fst best then (trip_dist, Some to_node) else best)
        }
      })"

definition GetShortestRoundTrip :: "nat \<Rightarrow> DistTableWrapper \<Rightarrow> nat \<Rightarrow> nat list \<Rightarrow> (int \<times> nat option) option" where
  "GetShortestRoundTrip new_loc dist_table number_of_locations route =
     round_trip_loop new_loc dist_table route [0..<length route] (INVALID_EDGE_DURATION, None)"

text \<open>The farthest of the locations not visited: its added duration, the location and the place.\<close>

fun farthest_loop :: "DistTableWrapper \<Rightarrow> nat \<Rightarrow> bool list \<Rightarrow> nat list \<Rightarrow> nat list \<Rightarrow> int \<times> nat option \<times> nat option
    \<Rightarrow> (int \<times> nat option \<times> nat option) option" where
  "farthest_loop dist_table n visited route [] best = Some best"
| "farthest_loop dist_table n visited route (loc # rest) best =
     (if \<not> visited ! loc then do {
        insert_candidate \<leftarrow> GetShortestRoundTrip loc dist_table n route;
        farthest_loop dist_table n visited route rest
          (if fst insert_candidate > fst best then (fst insert_candidate, Some loc, snd insert_candidate) else best)
      } else farthest_loop dist_table n visited route rest best)"

definition insert_at :: "nat \<Rightarrow> 'a \<Rightarrow> 'a list \<Rightarrow> 'a list" where
  "insert_at k x xs = take k xs @ x # drop k xs"

text \<open>One round of \<^verbatim>\<open>FindRoute\<close>, and its rounds.\<close>

definition add_node :: "DistTableWrapper \<Rightarrow> nat \<Rightarrow> bool list \<times> nat list \<Rightarrow> (bool list \<times> nat list) option" where
  "add_node dist_table n s =
     Option.bind (farthest_loop dist_table n (fst s) (snd s) [0..<n] (- (2 ^ 31), None, None)) (\<lambda>best.
       case best of (farthest_distance, Some next_node, Some next_insert_point) \<Rightarrow>
           Some ((fst s)[next_node := True], insert_at next_insert_point next_node (snd s))
       | _ \<Rightarrow> None)"

fun add_nodes :: "DistTableWrapper \<Rightarrow> nat \<Rightarrow> nat list \<Rightarrow> bool list \<times> nat list \<Rightarrow> (bool list \<times> nat list) option" where
  "add_nodes dist_table n [] s = Some s"
| "add_nodes dist_table n (added_nodes # rest) s = Option.bind (add_node dist_table n s) (add_nodes dist_table n rest)"

definition FindRoute :: "nat \<Rightarrow> DistTableWrapper \<Rightarrow> nat \<Rightarrow> nat \<Rightarrow> nat list option" where
  "FindRoute number_of_locations dist_table start1 start2 =
     (if start1 < number_of_locations \<and> start2 < number_of_locations
      then map_option snd (add_nodes dist_table number_of_locations [2..<number_of_locations]
        ((replicate number_of_locations False)[start1 := True, start2 := True], [start1, start2]))
      else None)"

definition FarthestInsertionTrip :: "nat \<Rightarrow> DistTableWrapper \<Rightarrow> nat list option" where
  "FarthestInsertionTrip number_of_locations dist_table =
     (if number_of_locations = 0 \<or> table dist_table = [] then None
      else let index_of_farthest_distance = 1 + max_element (tl (table dist_table));
               max_from = index_of_farthest_distance div number_of_locations;
               max_to = index_of_farthest_distance mod number_of_locations
           in FindRoute number_of_locations dist_table max_from max_to)"

section \<open>The order of permutations\<close>

lemma descending_max: "sorted (rev xs) \<Longrightarrow> mset zs = mset xs \<Longrightarrow> zs \<le> xs" for xs :: "nat list"
proof (induction xs arbitrary: zs)
  case (Cons x xs)
  from Cons.prems(2) obtain z zs' where zs: "zs = z # zs'" by (cases zs) auto
  have "z \<in> set (x # xs)" using Cons.prems(2) zs by (metis list.set_intros(1) set_mset_mset)
  then have "z \<le> x" using Cons.prems(1) by (auto simp: sorted_append)
  then show ?case using Cons zs by (cases "z = x") (auto simp: sorted_append)
qed simp

lemma ascending_min: "sorted xs \<Longrightarrow> mset zs = mset xs \<Longrightarrow> xs \<le> zs" for xs :: "nat list"
proof (induction xs arbitrary: zs)
  case (Cons x xs)
  from Cons.prems(2) obtain z zs' where zs: "zs = z # zs'" by (cases zs) auto
  have "z \<in> set (x # xs)" using Cons.prems(2) zs by (metis list.set_intros(1) set_mset_mset)
  then have "x \<le> z" using Cons.prems(1) by auto
  then show ?case using Cons zs by (cases "z = x") auto
qed simp

lemma next_permutation_None: "next_permutation xs = None \<longleftrightarrow> sorted (rev xs)"
proof (induction xs)
  case (Cons x xs)
  have "dropWhile (\<lambda>y. y \<le> x) (rev xs) = [] \<longleftrightarrow> (\<forall>y \<in> set xs. y \<le> x)" by (simp add: dropWhile_eq_Nil_conv)
  moreover have "next_permutation (x # xs) = None \<longleftrightarrow>
      next_permutation xs = None \<and> dropWhile (\<lambda>y. y \<le> x) (rev xs) = []"
    by (cases "next_permutation xs"; cases "dropWhile (\<lambda>y. y \<le> x) (rev xs)") (simp_all del: dropWhile_eq_Nil_conv)
  ultimately show ?case using Cons.IH by (auto simp: sorted_append)
qed simp

lemma next_permutation_split:
  fixes x :: nat
  assumes "dropWhile (\<lambda>y. y \<le> x) (rev xs) = y # zs"
  shows "rev xs = takeWhile (\<lambda>y. y \<le> x) (rev xs) @ y # zs" "x < y" "\<forall>a \<in> set (takeWhile (\<lambda>y. y \<le> x) (rev xs)). a \<le> x"
proof -
  show "rev xs = takeWhile (\<lambda>y. y \<le> x) (rev xs) @ y # zs"
    using takeWhile_dropWhile_id [of "\<lambda>y. y \<le> x" "rev xs"] unfolding assms by simp
  show "x < y" using hd_dropWhile [of "\<lambda>y. y \<le> x" "rev xs"] unfolding assms by simp
qed (auto dest: set_takeWhileD)

lemma next_permutation_mset: "next_permutation xs = Some ys \<Longrightarrow> mset ys = mset xs"
proof (induction xs arbitrary: ys)
  case (Cons x xs)
  show ?case
  proof (cases "next_permutation xs")
    case None
    then obtain y zs where d: "dropWhile (\<lambda>y. y \<le> x) (rev xs) = y # zs"
      and ys: "ys = y # takeWhile (\<lambda>y. y \<le> x) (rev xs) @ x # zs" using Cons.prems by (auto split: list.splits)
    have "mset xs = mset (takeWhile (\<lambda>y. y \<le> x) (rev xs) @ y # zs)"
      using next_permutation_split(1) [OF d] by (metis mset_rev)
    then show ?thesis using ys by simp
  qed (use Cons in auto)
qed simp

lemma sorted_exchange:
  "sorted (A @ y # rest) \<Longrightarrow> \<forall>a \<in> set A. a \<le> x \<Longrightarrow> x < y \<Longrightarrow> sorted (A @ x # rest) \<and> (\<forall>z \<in> set rest. y \<le> z)"
  for x :: nat
  by (fastforce simp: sorted_append)

lemma next_permutation_next:
  "next_permutation xs = Some ys \<Longrightarrow> xs < ys \<and> (\<forall>zs. mset zs = mset xs \<longrightarrow> zs < ys \<longrightarrow> zs \<le> xs)"
proof (induction xs arbitrary: ys)
  case (Cons x xs)
  show ?case
  proof (cases "next_permutation xs")
    case (Some ys')
    have "zs \<le> x # xs" if zs: "mset zs = mset (x # xs)" "zs < x # ys'" for zs
    proof -
      obtain z zs' where z: "zs = z # zs'" using zs(1) by (cases zs) auto
      consider "z < x" | "z = x" "zs' < ys'" using zs(2) z by (cases "z < x") simp_all
      then show ?thesis
      proof cases
        case 2
        then have "mset zs' = mset xs" using zs(1) z by simp
        then have "zs' \<le> xs" using Cons.IH [OF Some] 2(2) by blast
        then show ?thesis using 2(1) z by simp
      qed (simp add: z)
    qed
    moreover have "ys = x # ys'" "xs < ys'" using Cons.prems Some Cons.IH [OF Some] by simp_all
    ultimately show ?thesis by simp
  next
    case None
    let ?A = "takeWhile (\<lambda>y. y \<le> x) (rev xs)"
    from None obtain y rest where d: "dropWhile (\<lambda>y. y \<le> x) (rev xs) = y # rest" and ys: "ys = y # ?A @ x # rest"
      using Cons.prems by (auto split: list.splits)
    note split = next_permutation_split [OF d]
    have desc: "sorted (rev xs)" using None by (simp add: next_permutation_None)
    then have "sorted (?A @ y # rest)" using split(1) by metis
    from sorted_exchange [OF this split(3,2)]
    have asc: "sorted (?A @ x # rest)" and above: "\<forall>z \<in> set rest. y \<le> z" by blast+
    have "zs \<le> x # xs" if zs: "mset zs = mset (x # xs)" "zs < ys" for zs
    proof -
      obtain z zs' where z: "zs = z # zs'" using zs(1) by (cases zs) auto
      have sets: "set xs = set ?A \<union> insert y (set rest)" using split(1) by (metis set_append set_rev list.simps(15))
      have mem: "z \<in> insert x (set xs)" using zs(1) z by (metis list.set_intros(1) list.simps(15) set_mset_mset)
      have "z \<le> y" using zs(2) unfolding z ys by simp linarith
      then consider "z < x" | "z = x" | "x < z" "z < y" | "z = y" by linarith
      then show ?thesis
      proof cases
        case 2
        then show ?thesis using descending_max [OF desc, of zs'] zs(1) z by simp
      next
        case 3
        then show ?thesis using mem sets above split(3) by fastforce
      next
        case 4
        have "mset (x # xs) = mset ys" using next_permutation_mset [OF Cons.prems] by simp
        then have "mset zs' = mset (?A @ x # rest)" using zs(1) z 4 ys by simp
        from ascending_min [OF asc this] show ?thesis using zs(2) z 4 ys by auto
      qed (simp add: z)
    qed
    then show ?thesis using split(2) ys by simp
  qed
qed simp

section \<open>The shortest permutation\<close>

text \<open>
  Tables of the right size whose entries are invalid or durations so small that no sum of one per
  location overflows; the legs of a round trip, whether all of them are valid, and its duration.
\<close>

definition table_ok :: "nat \<Rightarrow> int \<Rightarrow> DistTableWrapper \<Rightarrow> bool" where
  "table_ok n M t \<longleftrightarrow> nodes t = n \<and> length (table t) = n * n \<and> int n * M < INVALID_EDGE_DURATION \<and>
     (\<forall>e \<in> set (table t). e = INVALID_EDGE_DURATION \<or> 0 \<le> e \<and> e \<le> M)"

definition duration :: "DistTableWrapper \<Rightarrow> nat \<Rightarrow> nat \<Rightarrow> int" where
  "duration t from to = table t ! (from * nodes t + to)"

definition leg :: "DistTableWrapper \<Rightarrow> nat list \<Rightarrow> nat \<Rightarrow> int" where
  "leg t order i = duration t (order ! i) (order ! ((i + 1) mod length order))"

definition valid_tour :: "DistTableWrapper \<Rightarrow> nat list \<Rightarrow> bool" where
  "valid_tour t order \<longleftrightarrow> (\<forall>i < length order. leg t order i \<noteq> INVALID_EDGE_DURATION)"

definition tour_duration :: "DistTableWrapper \<Rightarrow> nat list \<Rightarrow> int" where
  "tour_duration t order = (\<Sum>i < length order. leg t order i)"

lemma index_less: "a < n \<Longrightarrow> b < n \<Longrightarrow> a * n + b < n * n" for a b n :: nat
proof -
  assume "a < n" "b < n"
  then have "a * n + b < (a + 1) * n" by simp
  also have "\<dots> \<le> n * n" using \<open>a < n\<close> by (intro mult_right_mono) simp_all
  finally show ?thesis .
qed

lemma table_ok_at:
  assumes "table_ok n M t" "a < n" "b < n"
  shows "dt_at t a b = Some (duration t a b)"
    and "duration t a b \<noteq> INVALID_EDGE_DURATION \<Longrightarrow> 0 \<le> duration t a b \<and> duration t a b \<le> M"
proof -
  have i: "a * nodes t + b < length (table t)" using index_less [OF assms(2,3)] assms(1) by (simp add: table_ok_def)
  then show "dt_at t a b = Some (duration t a b)" by (simp add: dt_at_def duration_def)
  assume "duration t a b \<noteq> INVALID_EDGE_DURATION"
  then show "0 \<le> duration t a b \<and> duration t a b \<le> M"
    using nth_mem [OF i] assms(1) by (auto simp: table_ok_def duration_def)
qed

lemma perm_nth: "mset v = mset [0..<n] \<Longrightarrow> length v = n \<and> (i < n \<longrightarrow> v ! i < n)"
  by (metis atLeastLessThan_upt atLeastLessThan_iff diff_zero length_upt mset_eq_length mset_eq_setD nth_mem)

lemma table_ok_leg:
  assumes "table_ok n M t" "mset v = mset [0..<n]" "i < n"
  shows "dt_at t (v ! i) (v ! ((i + 1) mod n)) = Some (leg t v i)"
    and "leg t v i \<noteq> INVALID_EDGE_DURATION \<Longrightarrow> 0 \<le> leg t v i \<and> leg t v i \<le> M"
proof -
  have v: "length v = n" "v ! i < n" "v ! ((i + 1) mod n) < n" using perm_nth [OF assms(2)] assms(3) by simp_all
  show "dt_at t (v ! i) (v ! ((i + 1) mod n)) = Some (leg t v i)"
    using table_ok_at(1) [OF assms(1) v(2,3)] v(1) by (simp add: leg_def)
  assume "leg t v i \<noteq> INVALID_EDGE_DURATION"
  then show "0 \<le> leg t v i \<and> leg t v i \<le> M" using table_ok_at(2) [OF assms(1) v(2,3)] v(1) by (simp add: leg_def)
qed

lemma partial_tour_bounds:
  assumes "table_ok n M t" "mset v = mset [0..<n]" "k \<le> n" "\<forall>i < k. leg t v i \<noteq> INVALID_EDGE_DURATION"
  shows "0 \<le> (\<Sum>i < k. leg t v i)" "(\<Sum>i < k. leg t v i) < INVALID_EDGE_DURATION"
proof -
  have l: "0 \<le> leg t v i \<and> leg t v i \<le> M" if "i < k" for i
    using table_ok_leg(2) [OF assms(1,2)] assms(3,4) that by simp
  then show "0 \<le> (\<Sum>i < k. leg t v i)" by (intro sum_nonneg) simp
  have "(\<Sum>i < k. leg t v i) \<le> of_nat (card {..<k}) * M" using l by (intro sum_bounded_above) simp
  then have le: "(\<Sum>i < k. leg t v i) \<le> int k * M" by simp
  have "int k * M \<le> int n * M \<or> k = 0" using l [of 0] assms(3) by (cases k) (auto intro: mult_right_mono)
  then show "(\<Sum>i < k. leg t v i) < INVALID_EDGE_DURATION"
    using le assms(1) by (auto simp: table_ok_def INVALID_EDGE_DURATION_def)
qed

lemma return_loop_spec:
  assumes "table_ok n M t" "mset v = mset [0..<n]" "m \<le> INVALID_EDGE_DURATION" "i \<le> n"
    and "\<forall>k < i. leg t v k \<noteq> INVALID_EDGE_DURATION"
  shows "\<exists>d. return_loop t v m n i (\<Sum>k < i. leg t v k) = Some d \<and> (d < m \<longleftrightarrow> valid_tour t v \<and> tour_duration t v < m) \<and>
    (d < m \<longrightarrow> d = tour_duration t v)"
  using assms(4,5)
proof (induction "n - i" arbitrary: i)
  case 0
  then have i: "i = n" "length v = n" using perm_nth [OF assms(2)] by simp_all
  then show ?case using 0 by (simp add: return_loop.simps [of t v m n n] valid_tour_def tour_duration_def)
next
  case (Suc r)
  let ?s = "\<Sum>k < i. leg t v k"
  from Suc have i: "i < n" "length v = n" "(i + 1) mod n < length v" using perm_nth [OF assms(2)] by simp_all
  show ?case
  proof (cases "?s < m")
    case False
    have "m \<le> tour_duration t v" if "valid_tour t v"
    proof -
      have "\<forall>k < n. 0 \<le> leg t v k" using table_ok_leg(2) [OF assms(1,2)] that i(2) by (simp add: valid_tour_def)
      then have "?s \<le> (\<Sum>k < n. leg t v k)" using i(1) by (intro sum_mono2) auto
      then show ?thesis using False i(2) by (simp add: tour_duration_def)
    qed
    then show ?thesis using False by (auto simp: return_loop.simps [of t v m n i])
  next
    case True
    note at = table_ok_leg(1) [OF assms(1,2) i(1)]
    show ?thesis
    proof (cases "leg t v i = INVALID_EDGE_DURATION")
      case True
      then have "return_loop t v m n i ?s = Some INVALID_EDGE_DURATION" "\<not> valid_tour t v"
        using at i \<open>?s < m\<close> by (auto simp: return_loop.simps [of t v m n i] Let_def valid_tour_def)
      then show ?thesis using assms(3) by auto
    next
      case False
      then have ok: "\<forall>k < Suc i. leg t v k \<noteq> INVALID_EDGE_DURATION" using Suc.prems(2) by (simp add: less_Suc_eq)
      have s: "(\<Sum>k < Suc i. leg t v k) = ?s + leg t v i" by simp
      have "i32_add ?s (leg t v i) = Some (\<Sum>k < Suc i. leg t v k)"
        using partial_tour_bounds [OF assms(1,2) Suc_leI [OF i(1)] ok]
        by (simp add: i32_add_def in_i32_def INVALID_EDGE_DURATION_def)
      then have "return_loop t v m n i ?s = return_loop t v m n (Suc i) (\<Sum>k < Suc i. leg t v k)"
        using at i \<open>?s < m\<close> False by (simp add: return_loop.simps [of t v m n i] Let_def)
      then show ?thesis using Suc.hyps(1) [of "Suc i"] Suc.hyps(2) i(1) ok by simp
    qed
  qed
qed

lemma ReturnDistance_spec:
  assumes "table_ok n M t" "mset v = mset [0..<n]" "m \<le> INVALID_EDGE_DURATION"
  obtains d where "ReturnDistance t v m n = Some d" "d < m \<longleftrightarrow> valid_tour t v \<and> tour_duration t v < m"
    "d < m \<longrightarrow> d = tour_duration t v"
  using return_loop_spec [OF assms, of 0] by (auto simp: ReturnDistance_def)

lemma valid_tour_duration:
  "table_ok n M t \<Longrightarrow> mset v = mset [0..<n] \<Longrightarrow> valid_tour t v \<Longrightarrow> tour_duration t v < INVALID_EDGE_DURATION"
  using partial_tour_bounds(2) [of n M t v n] perm_nth [of v n] by (simp add: valid_tour_def tour_duration_def)

text \<open>The best of the permutations seen.\<close>

definition best_of :: "DistTableWrapper \<Rightarrow> nat list set \<Rightarrow> int \<Rightarrow> nat list \<Rightarrow> nat list \<Rightarrow> bool" where
  "best_of t V m route first \<longleftrightarrow> (\<forall>v \<in> V. valid_tour t v \<longrightarrow> m \<le> tour_duration t v) \<and>
     (if \<exists>v \<in> V. valid_tour t v then route \<in> V \<and> valid_tour t route \<and> tour_duration t route = m
      else m = INVALID_EDGE_DURATION \<and> route = first)"

lemma best_of_insert:
  assumes "table_ok n M t" "mset v = mset [0..<n]" "best_of t V m route first"
    and "d < m \<longleftrightarrow> valid_tour t v \<and> tour_duration t v < m" "d < m \<longrightarrow> d = tour_duration t v"
  shows "best_of t (insert v V) (if d < m then d else m) (if d < m then v else route) first"
proof (cases "d < m")
  case True
  then show ?thesis using assms(3-5) by (fastforce simp: best_of_def)
next
  case False
  moreover have "\<not> valid_tour t v \<or> m \<le> tour_duration t v \<and> m \<noteq> INVALID_EDGE_DURATION"
    using False assms(4) valid_tour_duration [OF assms(1,2)] by auto
  ultimately show ?thesis using assms(3) by (auto simp: best_of_def split: if_splits)
qed

lemma finite_permutations: "finite {v. mset v = mset xs}"
proof (rule finite_subset)
  show "{v. mset v = mset xs} \<subseteq> {v. set v \<subseteq> set xs \<and> length v = length xs}"
    by (auto dest: mset_eq_setD mset_eq_length)
qed (simp add: finite_lists_length_eq)

lemma brute_loop_spec:
  assumes ok: "table_ok n M t"
  shows "mset v = mset [0..<n] \<Longrightarrow> m \<le> INVALID_EDGE_DURATION \<Longrightarrow> best_of t {u. mset u = mset [0..<n] \<and> u < v} m route first \<Longrightarrow>
    \<exists>r m'. brute_loop t n v m route = Some r \<and> best_of t {u. mset u = mset [0..<n]} m' r first"
proof (induction "card {u. mset u = mset [0..<n] \<and> v < u}" arbitrary: v m route rule: less_induct)
  case less
  let ?P = "\<lambda>u. mset u = mset [0..<n]"
  obtain d where d: "ReturnDistance t v m n = Some d" "d < m \<longleftrightarrow> valid_tour t v \<and> tour_duration t v < m"
    "d < m \<longrightarrow> d = tour_duration t v" using ReturnDistance_spec [OF ok less.prems(1,2)] .
  let ?m = "if d < m then d else m" and ?r = "if d < m then v else route"
  have best: "best_of t (insert v {u. ?P u \<and> u < v}) ?m ?r first" by (rule best_of_insert [OF ok less.prems(1,3) d(2,3)])
  have m: "?m \<le> INVALID_EDGE_DURATION" using less.prems(2) by simp
  show ?case
  proof (cases "next_permutation v")
    case None
    then have "\<forall>u. ?P u \<longrightarrow> u \<le> v" using descending_max less.prems(1) by (simp add: next_permutation_None)
    then have "insert v {u. ?P u \<and> u < v} = {u. ?P u}" using less.prems(1) by (auto simp: order_less_le)
    moreover have "brute_loop t n v m route = Some ?r" using None d(1) by (simp add: brute_loop.simps [of t n v] Let_def)
    ultimately show ?thesis using best by auto
  next
    case (Some w)
    note nx = next_permutation_next [OF Some]
    have w: "?P w" using next_permutation_mset [OF Some] less.prems(1) by simp
    have "u < w \<longleftrightarrow> u = v \<or> u < v" if "?P u" for u
      using nx that less.prems(1) by (metis order_less_trans order_le_less)
    then have seen: "insert v {u. ?P u \<and> u < v} = {u. ?P u \<and> u < w}" using less.prems(1) by auto
    have "{u. ?P u \<and> w < u} \<subset> {u. ?P u \<and> v < u}" using nx w by (auto intro: order_less_trans)
    then have "card {u. ?P u \<and> w < u} < card {u. ?P u \<and> v < u}"
      by (rule psubset_card_mono [rotated]) (rule finite_subset [OF _ finite_permutations [of "[0..<n]"]], auto)
    from less.hyps [OF this w m best [unfolded seen]] show ?thesis
      using Some d(1) by (cases "d < m") (simp_all add: brute_loop.simps [of t n v] Let_def)
  qed
qed

lemma BruteForceTrip_best:
  assumes "table_ok n M t"
  shows "\<exists>route. BruteForceTrip n t = Some route \<and> mset route = mset [0..<n] \<and>
    (\<forall>order. mset order = mset [0..<n] \<and> valid_tour t order \<longrightarrow>
       valid_tour t route \<and> tour_duration t route \<le> tour_duration t order)"
proof -
  have none: "{u. mset u = mset [0..<n] \<and> u < [0..<n]} = {}" using ascending_min [of "[0..<n]"] by (auto simp: leD)
  have "best_of t {u. mset u = mset [0..<n] \<and> u < [0..<n]} INVALID_EDGE_DURATION [0..<n] [0..<n]"
    unfolding none by (simp add: best_of_def)
  from brute_loop_spec [OF assms _ _ this] show ?thesis
    by (fastforce simp: BruteForceTrip_def best_of_def split: if_splits)
qed

section \<open>Farthest insertion visits every location\<close>

text \<open>
  The places between consecutive locations of the round trip: the index an insertion there uses, and
  whether both new legs are valid.
\<close>

definition succ_index :: "nat list \<Rightarrow> nat \<Rightarrow> nat" where
  "succ_index route k = (if k + 1 = length route then 0 else k + 1)"

definition usable :: "DistTableWrapper \<Rightarrow> nat list \<Rightarrow> nat \<Rightarrow> nat \<Rightarrow> bool" where
  "usable t route x k \<longleftrightarrow> k < length route \<and> duration t (route ! k) x \<noteq> INVALID_EDGE_DURATION \<and>
     duration t x (route ! succ_index route k) \<noteq> INVALID_EDGE_DURATION"

definition place_ok :: "DistTableWrapper \<Rightarrow> nat list \<Rightarrow> nat \<Rightarrow> int \<times> nat option \<Rightarrow> bool" where
  "place_ok t route x best \<longleftrightarrow> (case snd best of None \<Rightarrow> fst best = INVALID_EDGE_DURATION
     | Some j \<Rightarrow> - INVALID_EDGE_DURATION \<le> fst best \<and> fst best < INVALID_EDGE_DURATION \<and>
         (\<exists>k. usable t route x k \<and> j = succ_index route k))"

lemma succ_index_less: "k < length route \<Longrightarrow> succ_index route k < length route"
  by (auto simp: succ_index_def)

lemma round_trip_loop_Cons:
  "round_trip_loop new_loc dist_table route (k # rest) best = do {
     dist_from \<leftarrow> dt_at dist_table (route ! k) new_loc;
     dist_to \<leftarrow> dt_at dist_table new_loc (route ! succ_index route k);
     if dist_from = INVALID_EDGE_DURATION \<or> dist_to = INVALID_EDGE_DURATION
     then round_trip_loop new_loc dist_table route rest best
     else do {
       both \<leftarrow> i32_add dist_from dist_to;
       direct \<leftarrow> dt_at dist_table (route ! k) (route ! succ_index route k);
       trip_dist \<leftarrow> i32_sub both direct;
       round_trip_loop new_loc dist_table route rest
         (if trip_dist < fst best then (trip_dist, Some (succ_index route k)) else best)
     }
   }"
  unfolding round_trip_loop.simps Let_def succ_index_def by (rule refl)

lemma detour_in_range:
  assumes "table_ok n M t" "2 \<le> n" "a < n" "b < n" "x < n"
    and "duration t a x \<noteq> INVALID_EDGE_DURATION" "duration t x b \<noteq> INVALID_EDGE_DURATION"
  shows "i32_add (duration t a x) (duration t x b) = Some (duration t a x + duration t x b)"
    and "i32_sub (duration t a x + duration t x b) (duration t a b) = Some (duration t a x + duration t x b - duration t a b)"
    and "- INVALID_EDGE_DURATION \<le> duration t a x + duration t x b - duration t a b"
    and "duration t a x + duration t x b - duration t a b < INVALID_EDGE_DURATION"
proof -
  note d = table_ok_at(2) [OF assms(1,3,5,6)] table_ok_at(2) [OF assms(1,5,4,7)]
  have "2 * M \<le> int n * M" using d assms(2) by (intro mult_right_mono) simp_all
  then have s: "0 \<le> duration t a x + duration t x b" "duration t a x + duration t x b < INVALID_EDGE_DURATION"
    "M \<le> INVALID_EDGE_DURATION" using d assms(1) by (simp_all add: table_ok_def)
  have "0 \<le> duration t a b \<and> duration t a b \<le> INVALID_EDGE_DURATION"
    using table_ok_at(2) [OF assms(1,3,4)] d s
    by (cases "duration t a b = INVALID_EDGE_DURATION") (auto simp: INVALID_EDGE_DURATION_def)
  then show "i32_add (duration t a x) (duration t x b) = Some (duration t a x + duration t x b)"
    "i32_sub (duration t a x + duration t x b) (duration t a b) = Some (duration t a x + duration t x b - duration t a b)"
    "- INVALID_EDGE_DURATION \<le> duration t a x + duration t x b - duration t a b"
    "duration t a x + duration t x b - duration t a b < INVALID_EDGE_DURATION"
    using s by (simp_all add: i32_add_def i32_sub_def in_i32_def INVALID_EDGE_DURATION_def)
qed

lemma round_trip_loop_spec:
  assumes "table_ok n M t" "2 \<le> n" "set route \<subseteq> {..<n}" "x < n"
  shows "\<forall>k \<in> set ks. k < length route \<Longrightarrow> place_ok t route x best \<Longrightarrow>
    \<exists>best'. round_trip_loop x t route ks best = Some best' \<and> place_ok t route x best' \<and>
      ((\<exists>k \<in> set ks. usable t route x k) \<or> snd best \<noteq> None \<longrightarrow> snd best' \<noteq> None)"
proof (induction ks arbitrary: best)
  case (Cons k ks)
  let ?a = "route ! k" and ?b = "route ! succ_index route k"
  have "k < length route" using Cons.prems(1) by simp
  then have ab: "?a < n" "?b < n" "k < length route" using assms(3) succ_index_less [of k route] nth_mem by blast+
  note at = table_ok_at(1) [OF assms(1) ab(1) assms(4)] table_ok_at(1) [OF assms(1) assms(4) ab(2)]
    table_ok_at(1) [OF assms(1) ab(1,2)]
  show ?case
  proof (cases "usable t route x k")
    case False
    then have "round_trip_loop x t route (k # ks) best = round_trip_loop x t route ks best"
      using ab(3) unfolding round_trip_loop_Cons at by (auto simp: usable_def)
    then show ?thesis using Cons False by auto
  next
    case True
    then have u: "duration t ?a x \<noteq> INVALID_EDGE_DURATION" "duration t x ?b \<noteq> INVALID_EDGE_DURATION"
      by (simp_all add: usable_def)
    note r = detour_in_range [OF assms(1,2) ab(1,2) assms(4) u]
    let ?d = "duration t ?a x + duration t x ?b - duration t ?a ?b"
    let ?best = "if ?d < fst best then (?d, Some (succ_index route k)) else best"
    have "round_trip_loop x t route (k # ks) best = round_trip_loop x t route ks ?best"
      using u unfolding round_trip_loop_Cons at by (simp add: r(1,2))
    moreover have "place_ok t route x ?best" "snd ?best \<noteq> None"
      using Cons.prems(2) True r(3,4) by (auto simp: place_ok_def split: option.splits)
    ultimately show ?thesis using Cons.IH [of ?best] Cons.prems(1) by auto
  qed
qed simp

definition farthest_ok :: "DistTableWrapper \<Rightarrow> nat \<Rightarrow> bool list \<Rightarrow> nat list \<Rightarrow> int \<times> nat option \<times> nat option \<Rightarrow> bool" where
  "farthest_ok t n visited route best \<longleftrightarrow> best = (- (2 ^ 31), None, None) \<or>
     (\<exists>d x k. best = (d, Some x, Some (succ_index route k)) \<and> x < n \<and> \<not> visited ! x \<and> usable t route x k)"

lemma farthest_loop_spec:
  assumes "table_ok n M t" "2 \<le> n" "set route \<subseteq> {..<n}" "\<forall>x < n. \<not> visited ! x \<longrightarrow> (\<exists>k. usable t route x k)"
  shows "set xs \<subseteq> {..<n} \<Longrightarrow> farthest_ok t n visited route best \<Longrightarrow>
    \<exists>best'. farthest_loop t n visited route xs best = Some best' \<and> farthest_ok t n visited route best' \<and>
      ((\<exists>x \<in> set xs. \<not> visited ! x) \<or> fst (snd best) \<noteq> None \<longrightarrow> fst (snd best') \<noteq> None)"
proof (induction xs arbitrary: best)
  case (Cons x xs)
  show ?case
  proof (cases "visited ! x")
    case True
    then show ?thesis using Cons by auto
  next
    case False
    then have x: "x < n" "\<exists>k. usable t route x k" using Cons.prems(1) assms(4) by auto
    have "place_ok t route x (INVALID_EDGE_DURATION, None)" by (simp add: place_ok_def)
    from round_trip_loop_spec [OF assms(1-3) x(1) _ this, of "[0..<length route]"] x(2) obtain c where
      c: "GetShortestRoundTrip x t n route = Some c" "place_ok t route x c" "snd c \<noteq> None"
      by (auto simp: GetShortestRoundTrip_def usable_def)
    then obtain k where k: "usable t route x k" "snd c = Some (succ_index route k)" "- (2 ^ 31) < fst c"
      by (auto simp: place_ok_def INVALID_EDGE_DURATION_def)
    let ?best = "if fst c > fst best then (fst c, Some x, snd c) else best"
    have "farthest_ok t n visited route ?best" "fst (snd ?best) \<noteq> None"
      using Cons.prems(2) k x(1) False by (auto simp: farthest_ok_def)
    then show ?thesis using Cons.IH [of ?best] Cons.prems(1) c(1) False by auto
  qed
qed simp

definition route_inv :: "nat \<Rightarrow> (nat list \<Rightarrow> bool) \<Rightarrow> nat \<Rightarrow> bool list \<times> nat list \<Rightarrow> bool" where
  "route_inv n P k s \<longleftrightarrow> length (fst s) = n \<and> (\<forall>x < n. fst s ! x \<longleftrightarrow> x \<in> set (snd s)) \<and> distinct (snd s) \<and>
     set (snd s) \<subseteq> {..<n} \<and> length (snd s) = k \<and> P (snd s)"

lemma set_insert_at: "set (insert_at j x xs) = insert x (set xs)"
  by (simp add: insert_at_def) (metis append_take_drop_id set_append)

lemma insert_at_perm: "mset (insert_at j x xs) = add_mset x (mset xs)"
  by (simp add: insert_at_def) (metis append_take_drop_id mset_append)

lemma distinct_insert_at: "x \<notin> set xs \<Longrightarrow> distinct xs \<Longrightarrow> distinct (insert_at j x xs)"
  using mset_eq_imp_distinct_iff [of "insert_at j x xs" "x # xs"] by (simp add: insert_at_perm)

text \<open>What the insertion keeps of the route, and that there is always a place.\<close>

definition insertable :: "DistTableWrapper \<Rightarrow> nat \<Rightarrow> (nat list \<Rightarrow> bool) \<Rightarrow> bool" where
  "insertable t n P \<longleftrightarrow> (\<forall>route x. P route \<longrightarrow> distinct route \<longrightarrow> set route \<subseteq> {..<n} \<longrightarrow> x < n \<longrightarrow> x \<notin> set route \<longrightarrow>
     (\<exists>k. usable t route x k) \<and> (\<forall>k. usable t route x k \<longrightarrow> P (insert_at (succ_index route k) x route)))"

lemma add_node_spec:
  assumes "table_ok n M t" "2 \<le> n" "insertable t n P" "route_inv n P k s" "k < n"
  shows "\<exists>s'. add_node t n s = Some s' \<and> route_inv n P (Suc k) s'"
proof -
  obtain visited route where s: "s = (visited, route)" by (cases s)
  note inv = assms(4) [unfolded route_inv_def s fst_conv snd_conv]
  have new: "(\<exists>k. usable t route x k) \<and> (\<forall>k. usable t route x k \<longrightarrow> P (insert_at (succ_index route k) x route))"
    if "x < n" "\<not> visited ! x" for x using assms(3) inv that unfolding insertable_def by blast
  have "\<exists>x < n. \<not> visited ! x"
  proof (rule ccontr)
    assume "\<not> (\<exists>x < n. \<not> visited ! x)"
    then have "{..<n} \<subseteq> set route" using inv by auto
    then have "n \<le> length route" using card_mono [of "set route" "{..<n}"] card_length [of route] by simp
    then show False using inv assms(5) by simp
  qed
  then have "\<exists>x \<in> set [0..<n]. \<not> visited ! x" by auto
  moreover have "farthest_ok t n visited route (- (2 ^ 31), None, None)" by (simp add: farthest_ok_def)
  moreover have "\<forall>x < n. \<not> visited ! x \<longrightarrow> (\<exists>k. usable t route x k)" using new by blast
  moreover have "set route \<subseteq> {..<n}" "set [0..<n] \<subseteq> {..<n}" using inv by auto
  ultimately obtain best where best: "farthest_loop t n visited route [0..<n] (- (2 ^ 31), None, None) = Some best"
    "farthest_ok t n visited route best" "fst (snd best) \<noteq> None"
    using farthest_loop_spec [OF assms(1,2), of route visited "[0..<n]" "(- (2 ^ 31), None, None)"] by blast
  then obtain d x j where x: "best = (d, Some x, Some (succ_index route j))" "x < n" "\<not> visited ! x" "usable t route x j"
    unfolding farthest_ok_def by (auto simp del: power_numeral)
  let ?route = "insert_at (succ_index route j) x route"
  have "x \<notin> set route" using inv x(2,3) by blast
  then have "distinct ?route" using inv by (intro distinct_insert_at) simp_all
  moreover have "length ?route = Suc k" using inv size_mset [of ?route] by (simp add: insert_at_perm)
  moreover have "P ?route" using new [OF x(2,3)] x(4) by blast
  moreover have "\<forall>y < n. visited[x := True] ! y \<longleftrightarrow> y \<in> set ?route"
    using inv x(2) by (auto simp: set_insert_at nth_list_update)
  ultimately have "route_inv n P (Suc k) (visited[x := True], ?route)"
    using inv x(2) by (simp add: route_inv_def set_insert_at)
  then show ?thesis using best(1) x(1) by (simp add: add_node_def s)
qed

lemma add_nodes_spec:
  assumes "table_ok n M t" "2 \<le> n" "insertable t n P"
  shows "route_inv n P k s \<Longrightarrow> k \<le> n \<Longrightarrow> \<exists>s'. add_nodes t n [k..<n] s = Some s' \<and> route_inv n P n s'"
proof (induction "n - k" arbitrary: k s)
  case (Suc d)
  then have k: "k < n" "[k..<n] = k # [Suc k..<n]" by (simp_all add: upt_conv_Cons)
  from add_node_spec [OF assms Suc.prems(1) k(1)] obtain s' where s': "add_node t n s = Some s'" "route_inv n P (Suc k) s'" by blast
  then show ?case using Suc.hyps(1) [of "Suc k" s'] Suc.hyps(2) k by simp
qed simp

lemma FindRoute_spec:
  assumes "table_ok n M t" "2 \<le> n" "insertable t n P" "a < n" "b < n" "a \<noteq> b" "P [a, b]"
  shows "\<exists>route. FindRoute n t a b = Some route \<and> mset route = mset [0..<n] \<and> P route"
proof -
  have "route_inv n P 2 ((replicate n False)[a := True, b := True], [a, b])"
    using assms(4-7) by (auto simp: route_inv_def nth_list_update)
  from add_nodes_spec [OF assms(1-3) this assms(2)] obtain s' where
    s': "add_nodes t n [2..<n] ((replicate n False)[a := True, b := True], [a, b]) = Some s'" "route_inv n P n s'" by blast
  then have r: "distinct (snd s')" "set (snd s') \<subseteq> {..<n}" "length (snd s') = n" "P (snd s')" by (simp_all add: route_inv_def)
  have "card (set (snd s')) = n" using distinct_card [OF r(1)] r(3) by simp
  then have "set (snd s') = {..<n}" using r(2) by (intro card_subset_eq) simp_all
  then have "mset (snd s') = mset [0..<n]" using r(1) set_eq_iff_mset_eq_distinct [of "snd s'" "[0..<n]"] by (simp add: atLeast0LessThan)
  then show ?thesis using s'(1) r(4) assms(4,5) by (simp add: FindRoute_def)
qed

section \<open>Square tables\<close>

definition square :: "nat \<Rightarrow> DistTableWrapper \<Rightarrow> bool" where
  "square n t \<longleftrightarrow> nodes t = n \<and> length (table t) = n * n"

lemma index_inj: "a * n + b = c * n + d \<Longrightarrow> b < n \<Longrightarrow> d < n \<Longrightarrow> a = c \<and> b = d" for a b c d n :: nat
  by (metis add.commute div_mult_self3 div_less add_0 less_nat_zero_code mod_less mod_mult_self3 mult.commute not_gr_zero)

lemma square_entries:
  assumes "square n t"
  shows "(\<forall>e \<in> set (table t). P e) \<longleftrightarrow> (\<forall>u < n. \<forall>v < n. P (duration t u v))"
proof
  assume "\<forall>e \<in> set (table t). P e"
  then show "\<forall>u < n. \<forall>v < n. P (duration t u v)" using assms index_less by (simp add: square_def duration_def)
next
  assume all: "\<forall>u < n. \<forall>v < n. P (duration t u v)"
  have "P (table t ! i)" if i: "i < n * n" for i
  proof -
    have "0 < n" using i by (cases n) simp_all
    then have "i div n < n" "i mod n < n" using i by (simp_all add: less_mult_imp_div_less)
    then have "P (duration t (i div n) (i mod n))" using all by blast
    then show ?thesis using assms by (simp add: duration_def square_def)
  qed
  then show "\<forall>e \<in> set (table t). P e" using assms by (auto simp: in_set_conv_nth square_def)
qed

lemma table_ok_square:
  "table_ok n M t \<longleftrightarrow> square n t \<and> int n * M < INVALID_EDGE_DURATION \<and>
     (\<forall>u < n. \<forall>v < n. duration t u v = INVALID_EDGE_DURATION \<or> 0 \<le> duration t u v \<and> duration t u v \<le> M)"
  using square_entries [of n t "\<lambda>e. e = INVALID_EDGE_DURATION \<or> 0 \<le> e \<and> e \<le> M"]
  unfolding table_ok_def square_def by blast

section \<open>The first two locations\<close>

lemma max_element_spec:
  "xs \<noteq> [] \<Longrightarrow> max_element xs < length xs \<and> (\<forall>j < length xs. xs ! j \<le> xs ! max_element xs) \<and>
    (\<forall>j < max_element xs. xs ! j < xs ! max_element xs)"
proof (induction xs rule: max_element.induct)
  case (3 x y ys)
  let ?k = "max_element (y # ys)"
  from 3 have IH: "?k < length (y # ys)" "\<forall>j < length (y # ys). (y # ys) ! j \<le> (y # ys) ! ?k"
    "\<forall>j < ?k. (y # ys) ! j < (y # ys) ! ?k" by simp_all
  show ?case
  proof (cases "x < (y # ys) ! ?k")
    case True
    then have m: "max_element (x # y # ys) = Suc ?k" by (simp add: Let_def)
    have "(x # y # ys) ! j \<le> (y # ys) ! ?k" if "j < length (x # y # ys)" for j using that IH(2) True by (cases j) auto
    moreover have "(x # y # ys) ! j < (y # ys) ! ?k" if "j < Suc ?k" for j using that IH(3) True by (cases j) auto
    ultimately show ?thesis using IH(1) unfolding m by simp
  next
    case False
    then have m: "max_element (x # y # ys) = 0" by (simp add: Let_def)
    have "(x # y # ys) ! j \<le> x" if "j < length (x # y # ys)" for j
    proof (cases j)
      case (Suc i)
      then have "(y # ys) ! i \<le> (y # ys) ! ?k" using IH(2) that by simp
      then show ?thesis using False Suc by simp
    qed simp
    then show ?thesis unfolding m by simp
  qed
qed simp_all

lemma table_ok_le:
  assumes "table_ok n M t" "u < n" "v < n"
  shows "duration t u v \<le> INVALID_EDGE_DURATION"
proof (cases "duration t u v = INVALID_EDGE_DURATION")
  case False
  then have d: "0 \<le> duration t u v" "duration t u v \<le> M" using table_ok_at(2) [OF assms] by simp_all
  then have "1 * M \<le> int n * M" using assms(2) by (intro mult_right_mono) simp_all
  then show ?thesis using d(2) assms(1) by (simp add: table_ok_def)
qed simp

lemma FarthestInsertionTrip_start:
  assumes "square n t" "2 \<le> n"
  obtains k where "k < n * n" "1 \<le> k" "\<forall>j. 1 \<le> j \<longrightarrow> j < n * n \<longrightarrow> table t ! j \<le> table t ! k"
    "\<forall>j. 1 \<le> j \<longrightarrow> j < k \<longrightarrow> table t ! j < table t ! k" "FarthestInsertionTrip n t = FindRoute n t (k div n) (k mod n)"
proof -
  have len: "length (table t) = n * n" "4 \<le> n * n" using assms mult_le_mono [of 2 n 2 n] by (simp_all add: square_def)
  define m where "m = max_element (tl (table t))"
  have "tl (table t) \<noteq> []" using len by (cases "table t") auto
  note spec = max_element_spec [OF this, folded m_def]
  have tl: "tl (table t) ! j = table t ! Suc j" if "j < n * n - 1" for j using that len by (intro nth_tl) simp
  have m: "m < n * n - 1" using spec len by simp
  show ?thesis
  proof (rule that [of "Suc m"])
    show "\<forall>j. 1 \<le> j \<longrightarrow> j < n * n \<longrightarrow> table t ! j \<le> table t ! Suc m"
    proof (intro allI impI)
      fix j assume "1 \<le> j" "j < n * n"
      then obtain i where i: "j = Suc i" "i < n * n - 1" by (cases j) auto
      then show "table t ! j \<le> table t ! Suc m" using spec tl [OF i(2)] tl [OF m] len by auto
    qed
    show "\<forall>j. 1 \<le> j \<longrightarrow> j < Suc m \<longrightarrow> table t ! j < table t ! Suc m"
    proof (intro allI impI)
      fix j assume "1 \<le> j" "j < Suc m"
      then obtain i where i: "j = Suc i" "i < m" "i < n * n - 1" using m by (cases j) auto
      then show "table t ! j < table t ! Suc m" using spec tl [OF i(3)] tl [OF m] by auto
    qed
    show "FarthestInsertionTrip n t = FindRoute n t (Suc m div n) (Suc m mod n)"
      using len assms(2) by (auto simp: FarthestInsertionTrip_def Let_def m_def)
  qed (use m in simp_all)
qed

lemma FarthestInsertionTrip_valid:
  assumes "table_ok n M t" "2 \<le> n" "\<forall>u < n. \<forall>v < n. duration t u v \<noteq> INVALID_EDGE_DURATION" "\<forall>u < n. duration t u u = 0"
  shows "\<exists>route. FarthestInsertionTrip n t = Some route \<and> mset route = mset [0..<n]"
proof -
  have sq: "square n t" "nodes t = n" using assms(1) by (simp_all add: table_ok_square) (simp add: table_ok_def assms(1) square_def)
  obtain k where k: "k < n * n" "1 \<le> k" "\<forall>j. 1 \<le> j \<longrightarrow> j < n * n \<longrightarrow> table t ! j \<le> table t ! k"
    "\<forall>j. 1 \<le> j \<longrightarrow> j < k \<longrightarrow> table t ! j < table t ! k" "FarthestInsertionTrip n t = FindRoute n t (k div n) (k mod n)"
    using FarthestInsertionTrip_start [OF sq(1) assms(2)] .
  have ab: "k div n < n" "k mod n < n" using k(1) assms(2) by (simp_all add: less_mult_imp_div_less)
  have "k div n \<noteq> k mod n"
  proof
    assume eq: "k div n = k mod n"
    have "table t ! k = duration t (k div n) (k mod n)" by (simp add: duration_def sq)
    then have zero: "table t ! k = 0" using assms(4) ab eq by simp
    have "duration t 0 1 \<noteq> INVALID_EDGE_DURATION" using assms(2,3) by simp
    then have "0 \<le> table t ! 1" using table_ok_at(2) [OF assms(1), of 0 1] assms(2) by (simp add: duration_def)
    then have "k = 1" using k(2,4) zero by force
    then show False using eq assms(2) by simp
  qed
  moreover have "insertable t n (\<lambda>r. r \<noteq> [])"
  proof (unfold insertable_def, intro allI impI conjI)
    fix route x assume a: "route \<noteq> []" "distinct route" "set route \<subseteq> {..<n}" "x < n" "x \<notin> set route"
    have "route ! 0 < n" "route ! succ_index route 0 < n" using a(1,3) succ_index_less [of 0 route] nth_mem by blast+
    then show "\<exists>k. usable t route x k" using a(1,4) assms(3) by (intro exI [of _ 0]) (simp add: usable_def)
  qed (simp add: insert_at_def)
  ultimately show ?thesis using FindRoute_spec [OF assms(1,2) _ ab, of "\<lambda>r. r \<noteq> []"] k(5) by auto
qed

text \<open>
  A table for a trip from the first to the last location: from the last one only back to the first,
  no leg to the first otherwise, and no leg from the first to the last.
\<close>

definition fixed_ends :: "nat \<Rightarrow> DistTableWrapper \<Rightarrow> bool" where
  "fixed_ends n t \<longleftrightarrow> (\<forall>u < n. \<forall>v < n. duration t u v = INVALID_EDGE_DURATION \<longleftrightarrow>
     (u = 0 \<and> v = n - 1 \<or> u \<noteq> 0 \<and> u \<noteq> n - 1 \<and> v = 0 \<or> u = n - 1 \<and> v \<noteq> 0 \<and> v \<noteq> n - 1))"

lemma insertable_fixed_ends:
  assumes "fixed_ends n t"
  shows "insertable t n (\<lambda>r. 2 \<le> length r \<and> hd r = 0 \<and> last r = n - 1)"
proof (unfold insertable_def, intro allI impI conjI)
  fix route x assume a: "2 \<le> length route \<and> hd route = 0 \<and> last route = n - 1" "distinct route" "set route \<subseteq> {..<n}" "x < n" "x \<notin> set route"
  let ?l = "length route"
  have ne: "route \<noteq> []" using a(1) by auto
  have ends: "route ! 0 = 0" "route ! (?l - 1) = n - 1" using a(1) ne by (simp_all add: hd_conv_nth last_conv_nth)
  have in_route: "route ! i < n" "route ! i \<in> set route" if "i < ?l" for i using a(3) that nth_mem by auto
  have "0 \<in> set route" "n - 1 \<in> set route" using a(1) ne hd_in_set [of route] last_in_set [of route] by auto
  then have x: "x \<noteq> 0" "x \<noteq> n - 1" using a(5) by metis+
  have "1 < ?l" "0 < ?l" using a(1) by linarith+
  then have "route ! 1 \<noteq> 0" using nth_eq_iff_index_eq [OF a(2), of 1 0] ends(1) by linarith
  moreover have "succ_index route 0 = 1" using a(1) by (simp add: succ_index_def)
  ultimately show "\<exists>k. usable t route x k" using assms a(1,4) x ends in_route(1) [of 1] x(2)
    by (intro exI [of _ 0]) (auto simp: usable_def fixed_ends_def)
  show "2 \<le> length (insert_at (succ_index route k) x route)" if "usable t route x k" for k
    using a(1) size_mset [of "insert_at (succ_index route k) x route"] by (simp add: insert_at_perm)
  have place: "succ_index route k = Suc k \<and> Suc k < ?l" if "usable t route x k" for k
  proof (rule ccontr)
    assume "\<not> ?thesis"
    then have k: "k = ?l - 1" using that by (auto simp: succ_index_def usable_def split: if_splits)
    then have "duration t (n - 1) x \<noteq> INVALID_EDGE_DURATION" using that ends by (simp add: usable_def)
    then show False using assms a(4) x by (auto simp: fixed_ends_def)
  qed
  show "hd (insert_at (succ_index route k) x route) = 0" if "usable t route x k" for k
    using place [OF that] a(1) by (cases route) (auto simp: insert_at_def)
  show "last (insert_at (succ_index route k) x route) = n - 1" if "usable t route x k" for k
    using place [OF that] a(1) by (simp add: insert_at_def)
qed

lemma FarthestInsertionTrip_fixed_ends:
  assumes "table_ok n M t" "2 \<le> n" "fixed_ends n t"
  shows "\<exists>route. FarthestInsertionTrip n t = Some route \<and> mset route = mset [0..<n] \<and> hd route = 0 \<and> last route = n - 1"
proof -
  have sq: "square n t" "nodes t = n" using assms(1) by (simp_all add: table_ok_def square_def)
  obtain k where k: "k < n * n" "1 \<le> k" "\<forall>j. 1 \<le> j \<longrightarrow> j < n * n \<longrightarrow> table t ! j \<le> table t ! k"
    "\<forall>j. 1 \<le> j \<longrightarrow> j < k \<longrightarrow> table t ! j < table t ! k" "FarthestInsertionTrip n t = FindRoute n t (k div n) (k mod n)"
    using FarthestInsertionTrip_start [OF sq(1) assms(2)] .
  have row: "table t ! j = duration t 0 j" for j by (simp add: duration_def)
  have last: "table t ! (n - 1) = INVALID_EDGE_DURATION" using assms(2,3) by (simp add: row fixed_ends_def)
  have "n \<le> n * n" by simp
  then have "n - 1 < n * n" "1 \<le> n - 1" using assms(2) by linarith+
  then have inv: "INVALID_EDGE_DURATION \<le> table t ! k" using k(3) last by metis
  have "table t ! k = duration t (k div n) (k mod n)" by (simp add: duration_def sq)
  moreover have "k div n < n" "k mod n < n" using k(1) assms(2) by (simp_all add: less_mult_imp_div_less)
  ultimately have eq: "table t ! k = INVALID_EDGE_DURATION" using table_ok_le [OF assms(1), of "k div n" "k mod n"] inv by simp
  have "\<not> k < n - 1"
  proof
    assume lt: "k < n - 1"
    then have "duration t 0 k \<noteq> INVALID_EDGE_DURATION" using assms(3) k(2) by (auto simp: fixed_ends_def)
    then show False using eq row by simp
  qed
  moreover have "\<not> n - 1 < k" using k(4) \<open>1 \<le> n - 1\<close> last eq less_irrefl by metis
  ultimately have "k = n - 1" by simp
  then have "FarthestInsertionTrip n t = FindRoute n t 0 (n - 1)" using k(5) assms(2) by simp
  moreover have "\<exists>route. FindRoute n t 0 (n - 1) = Some route \<and> mset route = mset [0..<n] \<and>
      2 \<le> length route \<and> hd route = 0 \<and> last route = n - 1"
    by (rule FindRoute_spec [OF assms(1,2) insertable_fixed_ends [OF assms(3)]]) (use assms(2) in simp_all)
  ultimately show ?thesis by auto
qed

end
