(* ===== verification/Trip_Plugin.thy ===== *)
theory Trip_Plugin
  imports Plugin_Base Trip
begin

text \<open>
  \<^verbatim>\<open>src/engine/plugins/trip.cpp\<close>: the handler of trip requests.  It asks for the table of durations between
  all locations, rewrites it for fixed end points, looks for a short round trip and rotates it to its
  start.  \<^term>\<open>None\<close> is undefined behaviour.
\<close>

section \<open>The plugin\<close>

definition IsStronglyConnectedComponent :: "DistTableWrapper \<Rightarrow> bool" where
  "IsStronglyConnectedComponent result_table \<longleftrightarrow> INVALID_EDGE_DURATION \<notin> set (table result_table)"

definition IsSupportedParameterCombination :: "bool \<Rightarrow> bool \<Rightarrow> bool \<Rightarrow> bool" where
  "IsSupportedParameterCombination fixed_start fixed_end roundtrip \<longleftrightarrow> roundtrip \<or> fixed_start \<or> fixed_end"

text \<open>A loop over the locations that stops at an undefined step.\<close>

fun table_loop :: "(nat \<Rightarrow> DistTableWrapper \<Rightarrow> DistTableWrapper option) \<Rightarrow> nat list \<Rightarrow> DistTableWrapper \<Rightarrow> DistTableWrapper option" where
  "table_loop f [] t = Some t"
| "table_loop f (i # is) t = Option.bind (f i t) (table_loop f is)"

definition ManipulateTableForFSE :: "nat \<Rightarrow> nat \<Rightarrow> DistTableWrapper \<Rightarrow> DistTableWrapper option" where
  "ManipulateTableForFSE source_id destination_id t = do {
     t1 \<leftarrow> table_loop (\<lambda>i t. if i = source_id then Some t else SetValue i source_id INVALID_EDGE_DURATION t) [0..<nodes t] t;
     t2 \<leftarrow> table_loop (\<lambda>i t. if i = destination_id then Some t else SetValue destination_id i INVALID_EDGE_DURATION t) [0..<nodes t] t1;
     t3 \<leftarrow> SetValue destination_id source_id 0 t2;
     SetValue source_id destination_id INVALID_EDGE_DURATION t3
   }"

definition ManipulateTableForNonRoundtripFS :: "nat \<Rightarrow> DistTableWrapper \<Rightarrow> DistTableWrapper option" where
  "ManipulateTableForNonRoundtripFS source_id t = table_loop (\<lambda>i. SetValue i source_id 0) [0..<nodes t] t"

definition ManipulateTableForNonRoundtripFE :: "nat \<Rightarrow> DistTableWrapper \<Rightarrow> DistTableWrapper option" where
  "ManipulateTableForNonRoundtripFE destination_id t = table_loop (\<lambda>i. SetValue destination_id i 0) [0..<nodes t] t"

text \<open>\<^verbatim>\<open>RoutingAlgorithmsInterface\<close>: the virtual methods the plugin calls.\<close>

record 'r RoutingAlgorithms =
  HasShortestPathSearch :: bool
  HasManyToManySearch :: bool
  HasExcludeFlags :: bool
  ra_IsValid :: bool
  GetFacade :: BaseDataFacade
  ManyToManySearch :: "PhantomNodeCandidates list \<Rightarrow> int list"
  ShortestPathSearch :: "PhantomNodeCandidates list \<Rightarrow> 'r"

text \<open>\<^verbatim>\<open>waypoint_candidates[node]\<close> and \<^verbatim>\<open>trip.front()\<close> must exist.\<close>

definition ComputeRoute :: "'r RoutingAlgorithms \<Rightarrow> PhantomNodeCandidates list \<Rightarrow> nat list \<Rightarrow> bool \<Rightarrow> 'r option" where
  "ComputeRoute algorithms waypoint_candidates trip roundtrip =
     (if trip = [] \<or> \<not> list_all (\<lambda>node. node < length waypoint_candidates) trip then None
      else let trip_candidates = map (\<lambda>node. waypoint_candidates ! node) trip in
        Some (ShortestPathSearch algorithms
          (if roundtrip then trip_candidates @ [waypoint_candidates ! hd trip] else trip_candidates)))"

text \<open>\<^verbatim>\<open>std::find\<close> and \<^verbatim>\<open>std::rotate\<close>.\<close>

definition find_index :: "'a \<Rightarrow> 'a list \<Rightarrow> nat" where
  "find_index x xs = length (takeWhile (\<lambda>y. y \<noteq> x) xs)"

definition rotate_to_start :: "bool \<Rightarrow> bool \<Rightarrow> bool \<Rightarrow> nat \<Rightarrow> nat list \<Rightarrow> nat list" where
  "rotate_to_start fixed_start fixed_end roundtrip destination_id duration_trip =
     (if \<not> fixed_end \<or> fixed_start then rotate (find_index 0 duration_trip) duration_trip
      else let destination_index = find_index destination_id duration_trip;
               first = (if \<not> roundtrip
                 then if destination_index + 1 = length duration_trip then 0 else destination_index + 1
                 else destination_index)
           in rotate first duration_trip)"

definition manipulate_table :: "bool \<Rightarrow> bool \<Rightarrow> bool \<Rightarrow> nat \<Rightarrow> nat \<Rightarrow> DistTableWrapper \<Rightarrow> DistTableWrapper option" where
  "manipulate_table fixed_start fixed_end roundtrip source_id destination_id t =
     (if fixed_start \<and> fixed_end then ManipulateTableForFSE source_id destination_id t
      else if \<not> roundtrip \<and> fixed_start then ManipulateTableForNonRoundtripFS source_id t
      else if \<not> roundtrip \<and> fixed_end then ManipulateTableForNonRoundtripFE destination_id t
      else Some t)"

definition BF_MAX_FEASIBLE :: nat where
  "BF_MAX_FEASIBLE = 10"

definition optimized_trip :: "nat \<Rightarrow> DistTableWrapper \<Rightarrow> nat list option" where
  "optimized_trip number_of_locations t =
     (if number_of_locations < BF_MAX_FEASIBLE then BruteForceTrip number_of_locations t
      else FarthestInsertionTrip number_of_locations t)"

text \<open>What the handler answers: an error, an error without a body, or the trip, its route and the waypoints.\<close>

datatype 'r trip_result = TripError Error | TripFailed | TripOk "nat list" 'r "PhantomNodeCandidates list"

definition INVALID_INDEX :: int where
  "INVALID_INDEX = 2 ^ 64 - 1"

definition trip_error :: "string \<Rightarrow> string \<Rightarrow> 'r trip_result option" where
  "trip_error c m = Some (TripError \<lparr>err_code = c, err_message = m\<rparr>)"

text \<open>The end of the handler, from the table of durations on.\<close>

definition plan_trip :: "'r RoutingAlgorithms \<Rightarrow> PhantomNodeCandidates list \<Rightarrow> nat \<Rightarrow> bool \<Rightarrow> bool \<Rightarrow> bool \<Rightarrow> nat \<Rightarrow> nat
    \<Rightarrow> 'r trip_result option" where
  "plan_trip algorithms snapped_phantoms n fixed_start fixed_end roundtrip source_id destination_id =
     (let result_duration_table = \<lparr>table = ManyToManySearch algorithms snapped_phantoms, nodes = n\<rparr> in
      if table result_duration_table = [] then Some TripFailed
      else if \<not> IsStronglyConnectedComponent result_duration_table
      then trip_error ''NoTrips'' ''No trip visiting all destinations possible.''
      else do {
        t \<leftarrow> manipulate_table fixed_start fixed_end roundtrip source_id destination_id result_duration_table;
        duration_trip \<leftarrow> optimized_trip n t;
        let trip = rotate_to_start fixed_start fixed_end roundtrip destination_id duration_trip;
        route \<leftarrow> ComputeRoute algorithms snapped_phantoms trip roundtrip;
        Some (TripOk trip route snapped_phantoms)
      })"

definition HandleRequest :: "int \<Rightarrow> fp option \<Rightarrow> 'r RoutingAlgorithms \<Rightarrow> Hint TripParameters \<Rightarrow> 'r trip_result option" where
  "HandleRequest max_locations_trip default_radius algorithms parameters =
     (if \<not> HasShortestPathSearch algorithms
      then trip_error ''NotImplemented'' ''Shortest path search is not implemented for the chosen search algorithm.''
      else if \<not> HasManyToManySearch algorithms
      then trip_error ''NotImplemented'' ''Many to many search is not implemented for the chosen search algorithm.''
      else
        let n = length (bp_coordinates parameters);
            source_id = (if tp_source parameters = SourceFirst then 0 else INVALID_INDEX);
            destination_id = (if tp_destination parameters = DestinationLast then (int n - 1) mod 2 ^ 64 else INVALID_INDEX);
            fixed_start = (source_id = 0);
            fixed_end = (destination_id = (int n - 1) mod 2 ^ 64)
        in if \<not> IsSupportedParameterCombination fixed_start fixed_end (tp_roundtrip parameters)
           then trip_error ''NotImplemented'' ''This request is not supported''
           else if max_locations_trip > 0 \<and> signed_take_bit 31 (int n) > max_locations_trip
           then trip_error ''TooBig'' ''Too many trip coordinates''
           else if \<not> CheckAllCoordinates (bp_coordinates parameters)
           then trip_error ''InvalidValue'' ''Invalid coordinate value.''
           else case CheckAlgorithms (ra_IsValid algorithms) (HasExcludeFlags algorithms) parameters of
             Refused e \<Rightarrow> Some (TripError e)
           | Refused_silently \<Rightarrow> Some TripFailed
           | Passes \<Rightarrow>
               let phantom_node_pairs = GetPhantomNodes (GetFacade algorithms) default_radius parameters in
               if length phantom_node_pairs \<noteq> n
               then trip_error ''NoSegment'' (MissingPhantomErrorMessage phantom_node_pairs (bp_coordinates parameters))
               else if fixed_start \<and> fixed_end \<and> (source_id \<ge> int n \<or> destination_id \<ge> int n)
               then trip_error ''InvalidValue'' ''Invalid source or destination value.''
               else plan_trip algorithms (SnapPhantomNodes phantom_node_pairs) n fixed_start fixed_end
                 (tp_roundtrip parameters) (nat source_id) (nat destination_id))"

section \<open>Tables for fixed ends\<close>

lemma SetValue_spec:
  assumes "square n t" "a < n" "b < n"
  shows "\<exists>t'. SetValue a b w t = Some t' \<and> square n t' \<and>
    (\<forall>u < n. \<forall>v < n. duration t' u v = (if u = a \<and> v = b then w else duration t u v))"
proof -
  have t: "nodes t = n" "length (table t) = n * n" using assms(1) by (simp_all add: square_def)
  have i: "a * n + b < n * n" by (rule index_less [OF assms(2,3)])
  have "(table t)[a * n + b := w] ! (u * n + v) = (if u = a \<and> v = b then w else table t ! (u * n + v))" if "u < n" "v < n" for u v
    using index_inj [of a n b u v] assms(3) that i t by (auto simp: nth_list_update)
  then show ?thesis using i t
    by (intro exI [of _ "t\<lparr>table := (table t)[a * n + b := w]\<rparr>"]) (simp add: SetValue_def square_def duration_def)
qed

lemma table_loop_spec:
  assumes "\<And>i t. i \<in> set is \<Longrightarrow> square n t \<Longrightarrow>
      \<exists>t'. f i t = Some t' \<and> square n t' \<and> (\<forall>u < n. \<forall>v < n. duration t' u v = (if A i u v then w else duration t u v))"
    and "square n t"
  shows "\<exists>t'. table_loop f is t = Some t' \<and> square n t' \<and>
    (\<forall>u < n. \<forall>v < n. duration t' u v = (if \<exists>i \<in> set is. A i u v then w else duration t u v))"
  using assms
proof (induction "is" arbitrary: t)
  case (Cons i "is")
  obtain t1 where t1: "f i t = Some t1" "square n t1" "\<forall>u < n. \<forall>v < n. duration t1 u v = (if A i u v then w else duration t u v)"
    using Cons.prems(1) [of i t] Cons.prems(2) by auto
  obtain t2 where t2: "table_loop f is t1 = Some t2" "square n t2"
    "\<forall>u < n. \<forall>v < n. duration t2 u v = (if \<exists>i \<in> set is. A i u v then w else duration t1 u v)"
    using Cons.IH [OF Cons.prems(1) t1(2)] by auto
  have "duration t2 u v = (if \<exists>j \<in> set (i # is). A j u v then w else duration t u v)" if "u < n" "v < n" for u v
    using t1(3) t2(3) that by simp
  then show ?case using t1(1) t2(1,2) by (intro exI [of _ t2]) simp
qed simp

lemma ManipulateTableForFSE_spec:
  assumes "square n t" "s < n" "d < n" "s \<noteq> d"
  shows "\<exists>t'. ManipulateTableForFSE s d t = Some t' \<and> square n t' \<and> (\<forall>u < n. \<forall>v < n. duration t' u v =
    (if u = d \<and> v = s then 0
     else if u = s \<and> v = d \<or> u \<noteq> s \<and> v = s \<or> u = d \<and> v \<noteq> d then INVALID_EDGE_DURATION else duration t u v))"
proof -
  have n: "nodes t = n" using assms(1) by (simp add: square_def)
  obtain t1 where t1: "table_loop (\<lambda>i t. if i = s then Some t else SetValue i s INVALID_EDGE_DURATION t) [0..<n] t = Some t1" "square n t1"
    "\<forall>u < n. \<forall>v < n. duration t1 u v = (if \<exists>i \<in> set [0..<n]. i \<noteq> s \<and> u = i \<and> v = s then INVALID_EDGE_DURATION else duration t u v)"
    using table_loop_spec [of "[0..<n]" n "\<lambda>i t. if i = s then Some t else SetValue i s INVALID_EDGE_DURATION t"
      "\<lambda>i u v. i \<noteq> s \<and> u = i \<and> v = s" INVALID_EDGE_DURATION t] SetValue_spec [of n _ _ s] assms by force
  obtain t2 where t2: "table_loop (\<lambda>i t. if i = d then Some t else SetValue d i INVALID_EDGE_DURATION t) [0..<n] t1 = Some t2" "square n t2"
    "\<forall>u < n. \<forall>v < n. duration t2 u v = (if \<exists>i \<in> set [0..<n]. i \<noteq> d \<and> u = d \<and> v = i then INVALID_EDGE_DURATION else duration t1 u v)"
    using table_loop_spec [of "[0..<n]" n "\<lambda>i t. if i = d then Some t else SetValue d i INVALID_EDGE_DURATION t"
      "\<lambda>i u v. i \<noteq> d \<and> u = d \<and> v = i" INVALID_EDGE_DURATION t1] SetValue_spec [of n _ d] assms t1(2) by force
  obtain t3 where t3: "SetValue d s 0 t2 = Some t3" "square n t3"
    "\<forall>u < n. \<forall>v < n. duration t3 u v = (if u = d \<and> v = s then 0 else duration t2 u v)"
    using SetValue_spec [OF t2(2) assms(3,2)] by blast
  obtain t4 where t4: "SetValue s d INVALID_EDGE_DURATION t3 = Some t4" "square n t4"
    "\<forall>u < n. \<forall>v < n. duration t4 u v = (if u = s \<and> v = d then INVALID_EDGE_DURATION else duration t3 u v)"
    using SetValue_spec [OF t3(2) assms(2,3)] by blast
  have "ManipulateTableForFSE s d t = Some t4" using t1(1) t2(1) t3(1) t4(1) by (simp add: ManipulateTableForFSE_def n)
  then show ?thesis using t1(3) t2(3) t3(3) t4(2,3) assms(4) by (intro exI [of _ t4]) auto
qed

lemma ManipulateTable_one_end:
  assumes "square n t" "s < n"
  shows "\<exists>t'. ManipulateTableForNonRoundtripFS s t = Some t' \<and> square n t' \<and>
      (\<forall>u < n. \<forall>v < n. duration t' u v = (if v = s then 0 else duration t u v))"
    and "\<exists>t'. ManipulateTableForNonRoundtripFE s t = Some t' \<and> square n t' \<and>
      (\<forall>u < n. \<forall>v < n. duration t' u v = (if u = s then 0 else duration t u v))"
proof -
  have n: "nodes t = n" using assms(1) by (simp add: square_def)
  show "\<exists>t'. ManipulateTableForNonRoundtripFS s t = Some t' \<and> square n t' \<and>
      (\<forall>u < n. \<forall>v < n. duration t' u v = (if v = s then 0 else duration t u v))"
    using table_loop_spec [of "[0..<n]" n "\<lambda>i. SetValue i s 0" "\<lambda>i u v. u = i \<and> v = s" 0 t] SetValue_spec [of n _ _ s] assms
    by (fastforce simp: ManipulateTableForNonRoundtripFS_def n)
  show "\<exists>t'. ManipulateTableForNonRoundtripFE s t = Some t' \<and> square n t' \<and>
      (\<forall>u < n. \<forall>v < n. duration t' u v = (if u = s then 0 else duration t u v))"
    using table_loop_spec [of "[0..<n]" n "\<lambda>i. SetValue s i 0" "\<lambda>i u v. u = s \<and> v = i" 0 t] SetValue_spec [of n _ s] assms
    by (fastforce simp: ManipulateTableForNonRoundtripFE_def n)
qed

section \<open>Rotating a round trip\<close>

lemma leg_rotate:
  assumes "i < length v"
  shows "leg t (rotate k v) i = leg t v ((i + k) mod length v)"
proof -
  have "v \<noteq> []" using assms by auto
  then show ?thesis using assms by (simp add: leg_def nth_rotate mod_simps ac_simps)
qed

lemma shift_bij: "(\<lambda>i. (i + k) mod n) ` {..<n} = {..<n}" "inj_on (\<lambda>i. (i + k) mod n) {..<n}" for k n :: nat
proof -
  have unshift: "((i + k) mod n + (n - k mod n)) mod n = i" if "i < n" for i
  proof -
    have "k mod n < n" using that by simp
    then have "k + (n - k mod n) = k div n * n + n" using div_mult_mod_eq [of k n] by linarith
    then have "k + (n - k mod n) = (k div n + 1) * n" by (simp only: distrib_right mult_1)
    then have "(i + (k + (n - k mod n))) mod n = i" using that by (simp only: mod_mult_self1 mod_less)
    then show ?thesis by (simp only: mod_add_left_eq add.assoc)
  qed
  show inj: "inj_on (\<lambda>i. (i + k) mod n) {..<n}" 
    by (rule inj_on_inverseI [where g = "\<lambda>j. (j + (n - k mod n)) mod n"], rule unshift) simp
  show "(\<lambda>i. (i + k) mod n) ` {..<n} = {..<n}" by (rule endo_inj_surj [OF _ _ inj]) auto
qed

lemma tour_rotate:
  "tour_duration t (rotate k v) = tour_duration t v" "valid_tour t (rotate k v) \<longleftrightarrow> valid_tour t v"
proof -
  let ?h = "\<lambda>i. (i + k) mod length v"
  have "tour_duration t (rotate k v) = (\<Sum>i < length v. leg t v (?h i))" by (simp add: tour_duration_def leg_rotate)
  also have "\<dots> = (\<Sum>j \<in> ?h ` {..<length v}. leg t v j)" using shift_bij(2) by (simp add: sum.reindex o_def)
  finally show "tour_duration t (rotate k v) = tour_duration t v" by (simp add: shift_bij(1) tour_duration_def)
  have "valid_tour t (rotate k v) \<longleftrightarrow> (\<forall>j \<in> ?h ` {..<length v}. leg t v j \<noteq> INVALID_EDGE_DURATION)"
    by (auto simp: valid_tour_def leg_rotate)
  then show "valid_tour t (rotate k v) \<longleftrightarrow> valid_tour t v" by (auto simp: shift_bij(1) valid_tour_def)
qed

lemma rotate_ends:
  assumes "k < length v"
  shows "hd (rotate k v) = v ! k" "last (rotate k v) = v ! ((k + length v - 1) mod length v)"
proof -
  have v: "v \<noteq> []" "rotate k v \<noteq> []" using assms by auto
  then show "hd (rotate k v) = v ! k" "last (rotate k v) = v ! ((k + length v - 1) mod length v)"
    using assms by (simp_all add: hd_conv_nth last_conv_nth nth_rotate)
qed

lemma find_index_nth:
  assumes "x \<in> set v"
  shows "find_index x v < length v" "v ! find_index x v = x"
proof -
  have "takeWhile (\<lambda>y. y \<noteq> x) v \<noteq> v" using assms by (metis (mono_tags) takeWhile_eq_all_conv)
  then show l: "find_index x v < length v" unfolding find_index_def
    by (metis length_takeWhile_le le_neq_implies_less takeWhile_eq_take take_all order_refl)
  show "v ! find_index x v = x" using nth_length_takeWhile [of "\<lambda>y. y \<noteq> x" v] l by (simp add: find_index_def)
qed

section \<open>Trips with given ends\<close>

text \<open>
  The trips a request allows, the duration of the way from the first to the last location, and what
  the plugin's tables are for: a round trip in them lasts as long as the trip itself.
\<close>

definition admissible :: "nat \<Rightarrow> bool \<Rightarrow> bool \<Rightarrow> bool \<Rightarrow> nat list \<Rightarrow> bool" where
  "admissible n fixed_start fixed_end roundtrip v \<longleftrightarrow> mset v = mset [0..<n] \<and> (fixed_start \<longrightarrow> hd v = 0) \<and>
     (fixed_end \<and> (fixed_start \<or> \<not> roundtrip) \<longrightarrow> last v = n - 1)"

definition path_duration :: "DistTableWrapper \<Rightarrow> nat list \<Rightarrow> int" where
  "path_duration t v = (\<Sum>i < length v - 1. duration t (v ! i) (v ! Suc i))"

definition rewritten :: "nat \<Rightarrow> bool \<Rightarrow> bool \<Rightarrow> bool \<Rightarrow> DistTableWrapper \<Rightarrow> DistTableWrapper \<Rightarrow> bool" where
  "rewritten n fixed_start fixed_end roundtrip t t' \<longleftrightarrow> square n t' \<and> (\<forall>u < n. \<forall>v < n. duration t' u v =
     (if fixed_start \<and> fixed_end then
        if u = n - 1 \<and> v = 0 then 0
        else if u = 0 \<and> v = n - 1 \<or> u \<noteq> 0 \<and> v = 0 \<or> u = n - 1 \<and> v \<noteq> n - 1 then INVALID_EDGE_DURATION
        else duration t u v
      else if \<not> roundtrip \<and> fixed_start then if v = 0 then 0 else duration t u v
      else if \<not> roundtrip \<and> fixed_end then if u = n - 1 then 0 else duration t u v
      else duration t u v))"

lemma manipulate_table_spec:
  assumes "square n t" "2 \<le> n" "fixed_start \<longrightarrow> s = 0" "fixed_end \<longrightarrow> d = n - 1"
  shows "\<exists>t'. manipulate_table fixed_start fixed_end roundtrip s d t = Some t' \<and> rewritten n fixed_start fixed_end roundtrip t t'"
proof -
  have n: "0 < n" "n - 1 < n" "0 \<noteq> n - 1" using assms(2) by simp_all
  show ?thesis
    using ManipulateTableForFSE_spec [OF assms(1) n] ManipulateTable_one_end(1) [OF assms(1) n(1)]
      ManipulateTable_one_end(2) [OF assms(1) n(2)] assms
    by (cases fixed_start; cases fixed_end; cases roundtrip) (simp_all add: manipulate_table_def rewritten_def)
qed

lemma tour_path:
  assumes "v \<noteq> []"
  shows "tour_duration t v = path_duration t v + duration t (last v) (hd v)"
    and "valid_tour t v \<longleftrightarrow> (\<forall>i < length v - 1. duration t (v ! i) (v ! Suc i) \<noteq> INVALID_EDGE_DURATION) \<and>
      duration t (last v) (hd v) \<noteq> INVALID_EDGE_DURATION"
proof -
  obtain m where m: "length v = Suc m" using assms by (cases v) auto
  have legs: "leg t v i = duration t (v ! i) (v ! Suc i)" if "i < m" for i using that m by (simp add: leg_def)
  have return_leg: "leg t v m = duration t (last v) (hd v)" using assms m by (simp add: leg_def hd_conv_nth last_conv_nth)
  show "tour_duration t v = path_duration t v + duration t (last v) (hd v)"
    using legs return_leg by (simp add: tour_duration_def path_duration_def m)
  show "valid_tour t v \<longleftrightarrow> (\<forall>i < length v - 1. duration t (v ! i) (v ! Suc i) \<noteq> INVALID_EDGE_DURATION) \<and>
      duration t (last v) (hd v) \<noteq> INVALID_EDGE_DURATION"
    using legs return_leg by (auto simp: valid_tour_def m less_Suc_eq)
qed

lemma perm_facts:
  assumes "mset v = mset [0..<n]"
  shows "distinct v" "length v = n" "set v = {..<n}"
  using assms mset_eq_imp_distinct_iff [OF assms] perm_nth [OF assms] mset_eq_setD [OF assms] by auto

lemma perm_steps:
  assumes "mset v = mset [0..<n]" "Suc i < n"
  shows "v ! i < n" "v ! Suc i < n" "v ! Suc i \<noteq> hd v" "v ! i \<noteq> last v"
    "v ! i = hd v \<Longrightarrow> v ! Suc i = last v \<Longrightarrow> n = 2"
proof -
  note p = perm_facts [OF assms(1)]
  have ne: "v \<noteq> []" using p(2) assms(2) by auto
  show "v ! i < n" "v ! Suc i < n" using perm_nth [OF assms(1)] assms(2) by simp_all
  show "v ! Suc i \<noteq> hd v" "v ! i \<noteq> last v"
    using nth_eq_iff_index_eq [OF p(1), of "Suc i" 0] nth_eq_iff_index_eq [OF p(1), of i "n - 1"] p(2) assms(2) ne
    by (simp_all add: hd_conv_nth last_conv_nth)
  assume "v ! i = hd v" "v ! Suc i = last v"
  then have "i = 0" "Suc i = n - 1"
    using nth_eq_iff_index_eq [OF p(1), of i 0] nth_eq_iff_index_eq [OF p(1), of "Suc i" "n - 1"] p(2) assms(2) ne
    by (simp_all add: hd_conv_nth last_conv_nth)
  then show "n = 2" by simp
qed

lemma rewritten_trip:
  assumes "rewritten n fs fe rt t t'" "2 \<le> n" "fs \<and> fe \<longrightarrow> 3 \<le> n" "admissible n fs fe rt v"
    and "\<forall>u < n. \<forall>w < n. duration t u w \<noteq> INVALID_EDGE_DURATION" "rt \<or> fs \<or> fe"
  shows "valid_tour t' v \<and> tour_duration t' v = (if rt \<and> \<not> (fs \<and> fe) then tour_duration t v else path_duration t v)"
proof -
  have perm: "mset v = mset [0..<n]" and ends: "fs \<longrightarrow> hd v = 0" "fe \<and> (fs \<or> \<not> rt) \<longrightarrow> last v = n - 1"
    using assms(4) by (simp_all add: admissible_def)
  note p = perm_facts [OF perm]
  have ne: "v \<noteq> []" using p(2) assms(2) by auto
  then have lh: "hd v < n" "last v < n" using p(3) hd_in_set [of v] last_in_set [of v] by auto
  note D = assms(1) [unfolded rewritten_def, THEN conjunct2, rule_format]
  have step: "duration t' (v ! i) (v ! Suc i) = duration t (v ! i) (v ! Suc i)" if "i < n - 1" for i
  proof -
    have "Suc i < n" using that by simp
    note s = perm_steps [OF perm this]
    have "fs \<longrightarrow> v ! Suc i \<noteq> 0" "fe \<and> (fs \<or> \<not> rt) \<longrightarrow> v ! i \<noteq> n - 1" using s(3,4) ends by metis+
    moreover have "\<not> (v ! i = 0 \<and> v ! Suc i = n - 1)" if both: "fs" "fe"
    proof
      assume "v ! i = 0 \<and> v ! Suc i = n - 1"
      then have "n = 2" using s(5) ends both by simp
      then show False using assms(3) both by simp
    qed
    ultimately show ?thesis unfolding D [OF s(1,2)] by (cases fs; cases fe; cases rt) auto
  qed
  have return_leg: "duration t' (last v) (hd v) = (if rt \<and> \<not> (fs \<and> fe) then duration t (last v) (hd v) else 0)" if "rt \<or> fs \<or> fe"
    using D [OF lh(2,1)] ends assms(2) that by (cases fs; cases fe; cases rt) auto
  have path: "path_duration t' v = path_duration t v" using step p(2) by (simp add: path_duration_def)
  have "\<forall>i < n - 1. duration t (v ! i) (v ! Suc i) \<noteq> INVALID_EDGE_DURATION"
    using perm_steps(1,2) [OF perm] assms(5) by simp
  then have "valid_tour t' v \<longleftrightarrow> duration t' (last v) (hd v) \<noteq> INVALID_EDGE_DURATION"
    using tour_path(2) [OF ne, of t'] step p(2) by simp
  moreover have "duration t' (last v) (hd v) \<noteq> INVALID_EDGE_DURATION"
    using return_leg [OF assms(6)] assms(5) lh by (simp add: INVALID_EDGE_DURATION_def)
  ultimately show ?thesis using tour_path(1) [OF ne] path return_leg [OF assms(6)]
    by (cases "rt \<and> \<not> (fs \<and> fe)") auto
qed

text \<open>In a valid round trip over the table for two fixed ends the last location is followed by the first.\<close>

definition closes :: "nat \<Rightarrow> nat list \<Rightarrow> bool" where
  "closes n v \<longleftrightarrow> (\<exists>j < n. v ! j = n - 1 \<and> v ! ((j + 1) mod n) = 0)"

lemma valid_tour_closes:
  assumes "rewritten n True True rt t t'" "2 \<le> n" "mset v = mset [0..<n]" "n = 2 \<or> valid_tour t' v"
  shows "closes n v"
proof -
  note p = perm_facts [OF assms(3)]
  have "n - 1 \<in> set v" using p(3) assms(2) by simp
  then obtain j where j: "j < n" "v ! j = n - 1" using p(2) by (metis in_set_conv_nth)
  let ?k = "(j + 1) mod n"
  have k: "?k < n" "?k \<noteq> j" using assms(2) j(1) by (auto simp: mod_Suc)
  then have w: "v ! ?k < n" "v ! ?k \<noteq> n - 1"
    using perm_nth [OF assms(3)] nth_eq_iff_index_eq [OF p(1), of ?k j] p(2) j by auto
  have "v ! ?k = 0"
  proof (cases "n = 2")
    case False
    then have "leg t' v j \<noteq> INVALID_EDGE_DURATION" using assms(4) j(1) p(2) by (simp add: valid_tour_def)
    then have "duration t' (n - 1) (v ! ?k) \<noteq> INVALID_EDGE_DURATION" using j p(2) by (simp add: leg_def)
    moreover have "n - 1 < n" using assms(2) by simp
    ultimately show ?thesis using assms(1) w unfolding rewritten_def by (metis (full_types))
  qed (use w in simp)
  then show ?thesis using j by (auto simp: closes_def)
qed

lemma mset_rotation: "mset (rotate k v) = mset v"
  by (metis append_take_drop_id mset_append rotate_drop_take union_commute)

lemma rotate_to_start_admissible:
  assumes "mset v = mset [0..<n]" "2 \<le> n" "fs \<and> fe \<longrightarrow> closes n v"
  shows "admissible n fs fe rt (rotate_to_start fs fe rt (n - 1) v)"
    and "\<exists>k. rotate_to_start fs fe rt (n - 1) v = rotate k v"
    and "fe \<and> \<not> fs \<and> rt \<Longrightarrow> hd (rotate_to_start fs fe rt (n - 1) v) = n - 1"
    and "\<not> fe \<Longrightarrow> hd (rotate_to_start fs fe rt (n - 1) v) = 0"
proof -
  note p = perm_facts [OF assms(1)]
  have mem: "0 \<in> set v" "n - 1 \<in> set v" using p(3) assms(2) by simp_all
  note z = find_index_nth [OF mem(1)] and d = find_index_nth [OF mem(2)]
  let ?z = "find_index 0 v" and ?d = "find_index (n - 1) v"
  let ?e = "if ?d + 1 = n then 0 else ?d + 1"
  have e: "?e < n" "(?e + n - 1) mod n = ?d" using d(1) p(2) assms(2) by auto
  have last_z: "last (rotate ?z v) = n - 1" if "closes n v"
  proof -
    obtain j where j: "j < n" "v ! j = n - 1" "v ! ((j + 1) mod n) = 0" using \<open>closes n v\<close> by (auto simp: closes_def)
    have "(j + 1) mod n < n" using assms(2) by simp
    then have "?z = (j + 1) mod n" using nth_eq_iff_index_eq [OF p(1), of ?z "(j + 1) mod n"] z j(3) p(2) by simp
    then have "(?z + n - 1) mod n = j" using j(1) assms(2) by (cases "j + 1 = n") auto
    then show ?thesis using rotate_ends(2) [OF z(1)] p(2) j(2) by simp
  qed
  have r: "rotate_to_start fs fe rt (n - 1) v = rotate (if \<not> fe \<or> fs then ?z else if \<not> rt then ?e else ?d) v"
    using p(2) by (simp add: rotate_to_start_def Let_def)
  show "\<exists>k. rotate_to_start fs fe rt (n - 1) v = rotate k v" using r by blast
  have "mset (rotate k v) = mset [0..<n]" for k using assms(1) by (simp only: mset_rotation)
  then show "admissible n fs fe rt (rotate_to_start fs fe rt (n - 1) v)"
    using rotate_ends(1) [OF z(1)] z(2) rotate_ends(2) [of ?e v] e d(2) p(2) last_z assms(3)
    unfolding r admissible_def by auto
  show "hd (rotate_to_start fs fe rt (n - 1) v) = n - 1" if "fe \<and> \<not> fs \<and> rt"
    using that rotate_ends(1) [OF d(1)] d(2) unfolding r by simp
  show "hd (rotate_to_start fs fe rt (n - 1) v) = 0" if "\<not> fe"
    using that rotate_ends(1) [OF z(1)] z(2) unfolding r by simp
qed

lemma rewritten_table:
  assumes "rewritten n fs fe rt t t'" "table_ok n M t" "2 \<le> n" "\<forall>u < n. duration t u u = 0"
    and "\<forall>u < n. \<forall>v < n. duration t u v \<noteq> INVALID_EDGE_DURATION"
  shows "table_ok n M t'" "fs \<and> fe \<Longrightarrow> fixed_ends n t'"
    and "\<not> (fs \<and> fe) \<Longrightarrow> (\<forall>u < n. \<forall>v < n. duration t' u v \<noteq> INVALID_EDGE_DURATION) \<and> (\<forall>u < n. duration t' u u = 0)"
proof -
  note D = assms(1) [unfolded rewritten_def, THEN conjunct2, rule_format]
  have pos: "0 < n" "n - 1 < n" "n - 1 \<noteq> 0" using assms(3) by simp_all
  have zero: "0 \<noteq> INVALID_EDGE_DURATION" by (simp add: INVALID_EDGE_DURATION_def)
  have t: "0 \<le> duration t u v" "duration t u v \<le> M" if "u < n" "v < n" for u v
    using table_ok_at(2) [OF assms(2) that] assms(5) that by simp_all
  then have M: "0 \<le> M" using t(2) [OF pos(1,1)] assms(4) pos(1) by simp
  have "duration t' u v \<in> {INVALID_EDGE_DURATION, 0, duration t u v}" if "u < n" "v < n" for u v
    unfolding D [OF that] by simp
  then have "duration t' u v = INVALID_EDGE_DURATION \<or> 0 \<le> duration t' u v \<and> duration t' u v \<le> M" if "u < n" "v < n" for u v
    using t [OF that] M that by force
  then show "table_ok n M t'" using assms(1,2) by (simp add: table_ok_square rewritten_def)
  show "fixed_ends n t'" if "fs \<and> fe"
    unfolding fixed_ends_def
  proof (intro allI impI)
    fix u v assume uv: "u < n" "v < n"
    show "duration t' u v = INVALID_EDGE_DURATION \<longleftrightarrow>
      (u = 0 \<and> v = n - 1 \<or> u \<noteq> 0 \<and> u \<noteq> n - 1 \<and> v = 0 \<or> u = n - 1 \<and> v \<noteq> 0 \<and> v \<noteq> n - 1)"
      using D [OF uv] assms(5) [rule_format, OF uv] \<open>fs \<and> fe\<close> zero pos(3) by metis
  qed
  show "(\<forall>u < n. \<forall>v < n. duration t' u v \<noteq> INVALID_EDGE_DURATION) \<and> (\<forall>u < n. duration t' u u = 0)" if "\<not> (fs \<and> fe)"
    using D assms(4,5) that zero by simp
qed

lemma optimized_trip_spec:
  assumes "rewritten n fs fe rt t t'" "table_ok n M t" "2 \<le> n" "\<forall>u < n. duration t u u = 0"
    and "\<forall>u < n. \<forall>v < n. duration t u v \<noteq> INVALID_EDGE_DURATION" "rt \<or> fs \<or> fe"
  shows "\<exists>v. optimized_trip n t' = Some v \<and> mset v = mset [0..<n] \<and> (fs \<and> fe \<longrightarrow> closes n v) \<and>
    (n < BF_MAX_FEASIBLE \<longrightarrow> (fs \<and> fe \<longrightarrow> 3 \<le> n) \<longrightarrow> (\<forall>w. admissible n fs fe rt w \<longrightarrow> tour_duration t' v \<le> tour_duration t' w))"
proof (cases "n < BF_MAX_FEASIBLE")
  case True
  from BruteForceTrip_best [OF rewritten_table(1) [OF assms(1-5)]] obtain v where
    v: "BruteForceTrip n t' = Some v" "mset v = mset [0..<n]"
      "\<forall>w. mset w = mset [0..<n] \<and> valid_tour t' w \<longrightarrow> valid_tour t' v \<and> tour_duration t' v \<le> tour_duration t' w" by blast
  have best: "valid_tour t' v \<and> tour_duration t' v \<le> tour_duration t' w" if "admissible n fs fe rt w" "fs \<and> fe \<longrightarrow> 3 \<le> n" for w
  proof -
    have "valid_tour t' w" using rewritten_trip [OF assms(1,3) that(2,1) assms(5,6)] by blast
    moreover have "mset w = mset [0..<n]" using that(1) unfolding admissible_def by blast
    ultimately show ?thesis using v(3) by blast
  qed
  have "closes n v" if fixed: "fs" "fe"
  proof (cases "n = 2")
    case False
    then have "admissible n fs fe rt [0..<n]" "3 \<le> n" using assms(3) by (simp_all add: admissible_def)
    then show ?thesis using valid_tour_closes [of n rt t t' v] assms(1,3) v(2) best fixed by simp
  qed (use valid_tour_closes [of n rt t t' v] assms(1,3) v(2) fixed in simp)
  then show ?thesis using v(1,2) best True by (auto simp: optimized_trip_def)
next
  case False
  note r = rewritten_table [OF assms(1-5)]
  show ?thesis
  proof (cases "fs \<and> fe")
    case True
    from FarthestInsertionTrip_fixed_ends [OF r(1) assms(3) r(2) [OF True]] obtain v where
      v: "FarthestInsertionTrip n t' = Some v" "mset v = mset [0..<n]" "hd v = 0" "last v = n - 1" by blast
    have "v \<noteq> []" "length v = n" using perm_facts(2) [OF v(2)] assms(3) by auto
    then have "closes n v" using v(3,4) assms(3) by (auto simp: closes_def hd_conv_nth last_conv_nth intro!: exI [of _ "n - 1"])
    then show ?thesis using v(1,2) False by (simp add: optimized_trip_def)
  next
    case both: False
    obtain v where "FarthestInsertionTrip n t' = Some v" "mset v = mset [0..<n]"
      using FarthestInsertionTrip_valid [OF r(1) assms(3)] r(3) [OF both] by blast
    then show ?thesis using both False by (auto simp: optimized_trip_def)
  qed
qed

section \<open>The handler\<close>

text \<open>
  The search for the table gives one entry for each pair of locations, invalid or not too large, and
  no duration from a location to itself.
\<close>

definition durations_ok :: "nat \<Rightarrow> int \<Rightarrow> 'r RoutingAlgorithms \<Rightarrow> bool" where
  "durations_ok n M algorithms \<longleftrightarrow> (\<forall>ps. length ps = n \<longrightarrow>
     table_ok n M \<lparr>table = ManyToManySearch algorithms ps, nodes = n\<rparr> \<and>
     (\<forall>u < n. duration \<lparr>table = ManyToManySearch algorithms ps, nodes = n\<rparr> u u = 0))"

definition trip_duration :: "bool \<Rightarrow> DistTableWrapper \<Rightarrow> nat list \<Rightarrow> int" where
  "trip_duration roundtrip t v = (if roundtrip then tour_duration t v else path_duration t v)"

definition trip_ok :: "'r RoutingAlgorithms \<Rightarrow> nat \<Rightarrow> bool \<Rightarrow> bool \<Rightarrow> bool \<Rightarrow> nat list \<Rightarrow> 'r \<Rightarrow> PhantomNodeCandidates list \<Rightarrow> bool" where
  "trip_ok algorithms n fs fe rt trip route snapped \<longleftrightarrow> length snapped = n \<and> admissible n fs fe rt trip \<and>
     (n < BF_MAX_FEASIBLE \<longrightarrow> (\<forall>order. admissible n fs fe rt order \<longrightarrow>
        trip_duration rt \<lparr>table = ManyToManySearch algorithms snapped, nodes = n\<rparr> trip \<le>
        trip_duration rt \<lparr>table = ManyToManySearch algorithms snapped, nodes = n\<rparr> order)) \<and>
     (fe \<and> \<not> fs \<and> rt \<longrightarrow> hd trip = n - 1) \<and> (\<not> fe \<longrightarrow> hd trip = 0) \<and>
     route = ShortestPathSearch algorithms (map ((!) snapped) trip @ (if rt then [snapped ! hd trip] else []))"

lemma trip_duration_mono:
  assumes "rewritten n fs fe rt t t'" "2 \<le> n" "admissible n fs fe rt v" "admissible n fs fe rt w" "rt \<or> fs \<or> fe"
    and "\<forall>u < n. \<forall>w < n. duration t u w \<noteq> INVALID_EDGE_DURATION"
    and "(fs \<and> fe \<longrightarrow> 3 \<le> n) \<longrightarrow> tour_duration t' v \<le> tour_duration t' w"
  shows "trip_duration rt t v \<le> trip_duration rt t w"
proof -
  have p: "length v = n" "length w = n" using assms(3,4) perm_facts(2) by (auto simp: admissible_def)
  have ne: "v \<noteq> []" "w \<noteq> []" using p assms(2) by auto
  show ?thesis
  proof (cases "fs \<and> fe \<longrightarrow> 3 \<le> n")
    case True
    note r = rewritten_trip [OF assms(1,2) True assms(3,6,5)] rewritten_trip [OF assms(1,2) True assms(4,6,5)]
    show ?thesis
    proof (cases "rt \<and> fs \<and> fe")
      case both: True
      then have "hd v = hd w" "last v = last w" using assms(3,4) by (simp_all add: admissible_def)
      then show ?thesis using r assms(7) True both tour_path(1) [OF ne(1), of t] tour_path(1) [OF ne(2), of t]
        by (simp add: trip_duration_def)
    next
      case False
      then show ?thesis using r assms(7) True by (auto simp: trip_duration_def split: if_splits)
    qed
  next
    case False
    then have n: "n = 2" "hd v = hd w" "last v = last w" using assms(2-4) by (auto simp: admissible_def)
    then have "v ! 0 = w ! 0" "v ! 1 = w ! 1" using ne p by (simp_all add: hd_conv_nth last_conv_nth)
    then have "v = w" using p n(1) by (intro nth_equalityI) (auto simp: less_2_cases_iff)
    then show ?thesis by simp
  qed
qed

lemma plan_trip_spec:
  assumes "durations_ok n M algorithms" "length snapped = n" "2 \<le> n" "rt \<or> fs \<or> fe" "fs \<longrightarrow> s = 0" "fe \<longrightarrow> d = n - 1"
  shows "\<exists>r. plan_trip algorithms snapped n fs fe rt s d = Some r \<and>
    (\<forall>trip route sn. r = TripOk trip route sn \<longrightarrow> trip_ok algorithms n fs fe rt trip route sn)"
proof -
  let ?t = "\<lparr>table = ManyToManySearch algorithms snapped, nodes = n\<rparr>"
  have ok: "table_ok n M ?t" and diag: "\<forall>u < n. duration ?t u u = 0" using assms(1,2) by (simp_all add: durations_ok_def)
  have sq: "square n ?t" using ok by (simp add: table_ok_square)
  have ne: "table ?t \<noteq> []" using sq assms(3) by (auto simp: square_def)
  show ?thesis
  proof (cases "IsStronglyConnectedComponent ?t")
    case False
    then show ?thesis using ne by (simp add: plan_trip_def Let_def trip_error_def)
  next
    case True
    then have valid: "\<forall>u < n. \<forall>w < n. duration ?t u w \<noteq> INVALID_EDGE_DURATION"
      using square_entries [OF sq, of "\<lambda>e. e \<noteq> INVALID_EDGE_DURATION"] by (auto simp: IsStronglyConnectedComponent_def)
    from manipulate_table_spec [OF sq assms(3,5,6)] obtain t' where
      t': "manipulate_table fs fe rt s d ?t = Some t'" "rewritten n fs fe rt ?t t'" by blast
    from optimized_trip_spec [OF t'(2) ok assms(3) diag valid assms(4)] obtain v where
      v: "optimized_trip n t' = Some v" "mset v = mset [0..<n]" "fs \<and> fe \<longrightarrow> closes n v"
        "n < BF_MAX_FEASIBLE \<longrightarrow> (fs \<and> fe \<longrightarrow> 3 \<le> n) \<longrightarrow> (\<forall>w. admissible n fs fe rt w \<longrightarrow> tour_duration t' v \<le> tour_duration t' w)"
      by blast
    let ?trip = "rotate_to_start fs fe rt d v"
    let ?route = "ShortestPathSearch algorithms (map ((!) snapped) ?trip @ (if rt then [snapped ! hd ?trip] else []))"
    have d: "?trip = rotate_to_start fs fe rt (n - 1) v" using assms(6) by (simp add: rotate_to_start_def)
    note start = rotate_to_start_admissible [OF v(2) assms(3) v(3), of rt, folded d]
    obtain k where "?trip = rotate k v" using start(2) by blast
    then have tour: "tour_duration t' ?trip = tour_duration t' v" by (simp only: tour_rotate(1))
    have best: "n < BF_MAX_FEASIBLE \<longrightarrow> (\<forall>w. admissible n fs fe rt w \<longrightarrow> trip_duration rt ?t ?trip \<le> trip_duration rt ?t w)"
    proof (intro impI allI)
      fix w assume w: "n < BF_MAX_FEASIBLE" "admissible n fs fe rt w"
      show "trip_duration rt ?t ?trip \<le> trip_duration rt ?t w"
        by (rule trip_duration_mono [OF t'(2) assms(3) start(1) w(2) assms(4) valid]) (use v(4) tour w in simp)
    qed
    have perm: "mset ?trip = mset [0..<n]" using start(1) unfolding admissible_def by blast
    have "?trip \<noteq> []" using perm_facts(2) [OF perm] assms(3) by (metis list.size(3) not_numeral_le_zero)
    moreover have "list_all (\<lambda>node. node < length snapped) ?trip"
      unfolding list_all_iff perm_facts(3) [OF perm] assms(2) by simp
    ultimately have route: "ComputeRoute algorithms snapped ?trip rt = Some ?route"
      by (simp add: ComputeRoute_def Let_def)
    have "trip_ok algorithms n fs fe rt ?trip ?route snapped"
      unfolding trip_ok_def using start(1,3,4) best assms(2) by blast
    moreover have "plan_trip algorithms snapped n fs fe rt s d = Some (TripOk ?trip ?route snapped)"
      using ne True t'(1) v(1) route by (simp add: plan_trip_def Let_def)
    ultimately show ?thesis by blast
  qed
qed

section \<open>Properties\<close>

text \<open>
  C8.  Trying all permutations is optimal: the route returned visits every location once, and when any
  order of the locations avoids the invalid entries, so does the returned one and no order is shorter.
  The early exit when a partial sum reaches the best one so far loses nothing.
\<close>

theorem BruteForceTrip_optimal:
  assumes "table_ok n M t"
  shows "\<exists>route. BruteForceTrip n t = Some route \<and> mset route = mset [0..<n] \<and>
    (\<forall>order. mset order = mset [0..<n] \<and> valid_tour t order \<longrightarrow>
       valid_tour t route \<and> tour_duration t route \<le> tour_duration t order)"
  by (rule BruteForceTrip_best [OF assms])

definition demo_table :: DistTableWrapper where
  "demo_table = \<lparr>table = [0, 9, 2, 3, 0, 7, 8, 1, 0], nodes = 3\<rparr>"

lemma demo_table_ok: "table_ok 3 10 demo_table"
  by (simp add: table_ok_def demo_table_def INVALID_EDGE_DURATION_def)

theorem BruteForceTrip_optimal_witness:
  "\<exists>route. BruteForceTrip 3 demo_table = Some route \<and> tour_duration demo_table route \<le> 6"
proof -
  obtain route where r: "BruteForceTrip 3 demo_table = Some route"
    "\<forall>order. mset order = mset [0..<3] \<and> valid_tour demo_table order \<longrightarrow> tour_duration demo_table route \<le> tour_duration demo_table order"
    using BruteForceTrip_optimal [OF demo_table_ok] by blast
  have "mset [0, 2, 1] = mset [0..<3::nat]" by (simp add: upt_rec)
  moreover have "valid_tour demo_table [0, 2, 1]" "tour_duration demo_table [0, 2, 1] = 6"
    by code_simp+
  ultimately show ?thesis using r by metis
qed

text \<open>
  C2.  The trip plugin: for a valid request nothing undefined happens, and a trip that is answered
  visits every location once, starts and ends where the request fixes it, is the one whose route is
  computed, and for fewer than ten locations no admissible order of the locations is shorter (the way
  back counts exactly for round trips).  The search for durations is assumed to return a full table of
  durations that are invalid or small, with zeros on the diagonal.
\<close>

theorem HandleRequest_trip:
  assumes "TripParameters_IsValid parameters" "n = length (bp_coordinates parameters)" "int n < 2 ^ 31"
    and "durations_ok n M algorithms"
  shows "\<exists>r. HandleRequest max_locations default_radius algorithms parameters = Some r \<and>
    (\<forall>trip route snapped. r = TripOk trip route snapped \<longrightarrow>
       trip_ok algorithms n (tp_source parameters = SourceFirst) (tp_destination parameters = DestinationLast)
         (tp_roundtrip parameters) trip route snapped)"
proof -
  let ?fs = "tp_source parameters = SourceFirst" and ?fe = "tp_destination parameters = DestinationLast"
  let ?alts = "GetPhantomNodes (GetFacade algorithms) default_radius parameters"
  have n: "2 \<le> n" using assms(1,2) by (simp add: TripParameters_IsValid_def RouteParameters_IsValid_def Let_def)
  have small: "(int n - 1) mod 2 ^ 64 = int n - 1" using n assms(3) by simp
  have plan: "\<exists>r. plan_trip algorithms (SnapPhantomNodes ?alts) n ?fs ?fe (tp_roundtrip parameters) s d = Some r \<and>
      (\<forall>trip route sn. r = TripOk trip route sn \<longrightarrow> trip_ok algorithms n ?fs ?fe (tp_roundtrip parameters) trip route sn)"
    if "length ?alts = n" "tp_roundtrip parameters \<or> ?fs \<or> ?fe" "?fs \<longrightarrow> s = 0" "?fe \<longrightarrow> d = n - 1" for s d
    using plan_trip_spec [OF assms(4) _ n that(2-4)] that(1) SnapPhantomNodes_candidates(1) by simp
  let ?s = "if ?fs then 0 else INVALID_INDEX" and ?d = "if ?fe then int n - 1 else INVALID_INDEX"
  have ends: "?s = 0 \<longleftrightarrow> ?fs" "?d = int n - 1 \<longleftrightarrow> ?fe"
    and guard: "(?fs \<and> ?fe \<and> (int n \<le> ?s \<or> int n \<le> ?d)) = False" "?fs \<longrightarrow> nat ?s = 0" "?fe \<longrightarrow> nat ?d = n - 1"
    using assms(3) n by (auto simp: INVALID_INDEX_def)
  define fs fe sv dv where defs: "fs = ?fs" "fe = ?fe" "sv = nat ?s" "dv = nat ?d"
  note plan = plan [OF _ _ guard(2,3), folded defs(3,4), folded defs(1,2)]
  show ?thesis
    unfolding HandleRequest_def Let_def assms(2) [symmetric] small ends guard(1) IsSupportedParameterCombination_def
    unfolding defs(3,4) [symmetric] unfolding defs(1,2) [symmetric] using plan
    by (cases "tp_roundtrip parameters"; cases fs; cases fe) (simp_all add: trip_error_def split: check.split)
qed

text \<open>A round trip over three locations from the first one; the route is the number of its waypoints.\<close>

definition demo_trip :: "Hint TripParameters" where
  "demo_trip = RouteParameters.extend (RouteParameters_bool False False False GPolyline OvSimplified None []
     (BaseParameters_default\<lparr>bp_coordinates := [\<lparr>crd_lon = 1, crd_lat = 1\<rparr>, \<lparr>crd_lon = 2, crd_lat = 2\<rparr>, \<lparr>crd_lon = 3, crd_lat = 3\<rparr>]\<rparr>))
     \<lparr>tp_source = SourceFirst, tp_destination = DestinationAny, tp_roundtrip = True\<rparr>"

definition demo_algorithms :: "nat RoutingAlgorithms" where
  "demo_algorithms = \<lparr>HasShortestPathSearch = True, HasManyToManySearch = True, HasExcludeFlags = False, ra_IsValid = True,
     GetFacade = \<lparr>GetCheckSum = 0, NearestPhantomNodesInRange = (\<lambda>_ _ _ _ _. []), NearestPhantomNodes = (\<lambda>_ _ _ _ _. []),
       NearestCandidatesWithAlternativeFromBigComponent = (\<lambda>c _ _ _ _. ([PhantomNode_default c], []))\<rparr>,
     ManyToManySearch = (\<lambda>_. table demo_table), ShortestPathSearch = length\<rparr>"

lemma demo_optimized: "optimized_trip 3 demo_table = Some [0, 2, 1]"
  by code_simp

lemma demo_phantoms: "length (GetPhantomNodes (GetFacade demo_algorithms) None demo_trip) = 3"
  unfolding GetPhantomNodes_def demo_trip_def RouteParameters_bool_def
  by (simp add: numeral_3_eq_3 RouteParameters.defs BaseParameters.defs usable_hint_def nearest_candidates_def demo_algorithms_def BaseParameters_default_def)

lemma demo_trip_sel:
  "length (bp_coordinates demo_trip) = 3" "tp_source demo_trip = SourceFirst" "tp_destination demo_trip = DestinationAny"
  "tp_roundtrip demo_trip" "TripParameters_IsValid demo_trip" "CheckAllCoordinates (bp_coordinates demo_trip)"
  by (simp_all add: demo_trip_def RouteParameters_bool_def RouteParameters.defs BaseParameters.defs BaseParameters_default_def
      TripParameters_IsValid_def RouteParameters_IsValid_def BaseParameters_IsValid_def CheckAllCoordinates_def Coordinate_IsValid_def)

lemma demo_plan:
  assumes "length snapped = 3"
  shows "plan_trip demo_algorithms snapped 3 True False True s d = Some (TripOk [0, 2, 1] 4 snapped)"
proof -
  have t: "\<lparr>table = ManyToManySearch demo_algorithms snapped, nodes = 3\<rparr> = demo_table"
    by (simp add: demo_algorithms_def demo_table_def)
  have "table demo_table \<noteq> []" "IsStronglyConnectedComponent demo_table"
    by (simp_all add: demo_table_def IsStronglyConnectedComponent_def INVALID_EDGE_DURATION_def)
  moreover have "manipulate_table True False True s d demo_table = Some demo_table"
    by (simp add: manipulate_table_def)
  moreover have "rotate_to_start True False True d [0, 2, 1] = [0, 2, 1]"
    by (simp add: rotate_to_start_def find_index_def)
  moreover have "ComputeRoute demo_algorithms snapped [0, 2, 1] True = Some 4"
    using assms by (simp add: ComputeRoute_def demo_algorithms_def)
  ultimately show ?thesis unfolding plan_trip_def Let_def t using demo_optimized by simp
qed

theorem HandleRequest_trip_witness:
  "\<exists>snapped. HandleRequest 0 None demo_algorithms demo_trip = Some (TripOk [0, 2, 1] 4 snapped) \<and>
     trip_ok demo_algorithms 3 True False True [0, 2, 1] 4 snapped"
proof -
  let ?sn = "SnapPhantomNodes (GetPhantomNodes (GetFacade demo_algorithms) None demo_trip)"
  have len: "length ?sn = 3" by (simp add: SnapPhantomNodes_candidates(1) demo_phantoms)
  have "durations_ok 3 10 demo_algorithms"
    using demo_table_ok by (auto simp: durations_ok_def demo_algorithms_def duration_def demo_table_def numeral_3_eq_3 less_Suc_eq)
  from HandleRequest_trip [OF demo_trip_sel(5) demo_trip_sel(1) [symmetric] _ this, of 0 None]
  have spec: "\<exists>r. HandleRequest 0 None demo_algorithms demo_trip = Some r \<and> (\<forall>trip route snapped. r = TripOk trip route snapped \<longrightarrow>
      trip_ok demo_algorithms 3 True False True trip route snapped)"
    by (simp add: demo_trip_sel)
  have ok: "HasShortestPathSearch demo_algorithms" "HasManyToManySearch demo_algorithms" "ra_IsValid demo_algorithms"
    by (simp_all add: demo_algorithms_def)
  have "HandleRequest 0 None demo_algorithms demo_trip = Some (TripOk [0, 2, 1] 4 ?sn)"
    unfolding HandleRequest_def Let_def using ok demo_plan [OF len]
    by (simp add: demo_trip_sel demo_phantoms INVALID_INDEX_def IsSupportedParameterCombination_def CheckAlgorithms_def)
  then show ?thesis using spec by auto
qed

end
