(* ===== verification/Annotate_Path.thy ===== *)
theory Annotate_Path
  imports Traffic_Aggregator Plugin_Base
begin

text \<open>
  \<^verbatim>\<open>annotatePath\<close> of \<^verbatim>\<open>include/engine/routing_algorithms/routing_base.hpp\<close>: the nodes and edges of a path found
  become its road segments, with their weights (scaled by live traffic) and durations, the penalties of
  the turns between them, and the parts before the source and behind the target cut off.  The function
  first aggregates the pending samples.  \<^term>\<open>None\<close> is undefined behaviour.
\<close>

section \<open>Data\<close>

record PathData =
  from_edge_based_node :: "32 word"
  turn_via_node :: "32 word"
  weight_until_turn :: int
  weight_of_turn :: int
  duration_until_turn :: int
  duration_of_turn :: int
  datasource_id :: "8 word"
  turn_edge :: "32 word option"

record PhantomEndpoints =
  source_phantom :: PhantomNode
  target_phantom :: PhantomNode

text \<open>The rest of the data facade that the function reads; penalties are \<^verbatim>\<open>int16_t\<close> values.\<close>

record PathFacade = Traffic_Aggregator.BaseDataFacade +
  GeometryForward :: "32 word \<Rightarrow> bool"
  GetUncompressedReverseGeometry :: "32 word \<Rightarrow> 32 word list"
  GetUncompressedForwardDurations :: "32 word \<Rightarrow> 32 word list"
  GetUncompressedReverseDurations :: "32 word \<Rightarrow> 32 word list"
  GetUncompressedForwardDatasources :: "32 word \<Rightarrow> 8 word list"
  GetUncompressedReverseDatasources :: "32 word \<Rightarrow> 8 word list"
  GetTurnID :: "32 word \<Rightarrow> 32 word"
  GetDurationPenaltyForEdgeID :: "32 word \<Rightarrow> int"
  GetWeightPenaltyForEdgeID :: "32 word \<Rightarrow> int"

record geometry =
  id_vector :: "32 word list"
  weight_vector :: "32 word list"
  duration_vector :: "32 word list"
  datasource_vector :: "8 word list"

definition get_segment_geometry :: "PathFacade \<Rightarrow> LiveDataStore \<Rightarrow> 32 word \<Rightarrow> geometry option" where
  "get_segment_geometry F st node =
     (let g = GetGeometryIndex F node in
      if GeometryForward F node then do {
        ws \<leftarrow> ApplyLiveTrafficToSegmentWeights st g (GetUncompressedForwardWeights F g);
        Some \<lparr>id_vector = GetUncompressedForwardGeometry F g, weight_vector = ws,
          duration_vector = GetUncompressedForwardDurations F g, datasource_vector = GetUncompressedForwardDatasources F g\<rparr>
      } else do {
        ws \<leftarrow> ApplyLiveTrafficToSegmentWeights st g (GetUncompressedReverseWeights F g);
        Some \<lparr>id_vector = GetUncompressedReverseGeometry F g, weight_vector = ws,
          duration_vector = GetUncompressedReverseDurations F g, datasource_vector = GetUncompressedReverseDatasources F g\<rparr>
      })"

section \<open>The segments of a node\<close>

text \<open>One segment; the conversions from \<^verbatim>\<open>uint32_t\<close> to \<^verbatim>\<open>int32_t\<close> keep the bits.\<close>

definition path_data :: "32 word \<Rightarrow> geometry \<Rightarrow> nat \<times> nat \<Rightarrow> PathData" where
  "path_data node g iv =
     \<lparr>from_edge_based_node = node, turn_via_node = id_vector g ! snd iv,
      weight_until_turn = sint (weight_vector g ! fst iv), weight_of_turn = 0,
      duration_until_turn = sint (duration_vector g ! fst iv), duration_of_turn = 0,
      datasource_id = datasource_vector g ! fst iv, turn_edge = None\<rparr>"

definition in_geometry :: "geometry \<Rightarrow> nat \<times> nat \<Rightarrow> bool" where
  "in_geometry g iv \<longleftrightarrow> snd iv < length (id_vector g) \<and> fst iv < length (weight_vector g) \<and>
     fst iv < length (duration_vector g) \<and> fst iv < length (datasource_vector g)"

text \<open>The loops that push segments, given by the indices of the segments and of their end nodes.\<close>

fun push_segments :: "32 word \<Rightarrow> geometry \<Rightarrow> (nat \<times> nat) list \<Rightarrow> PathData list \<Rightarrow> PathData list option" where
  "push_segments node g [] path = Some path"
| "push_segments node g (iv # ivs) path =
     (if in_geometry g iv then push_segments node g ivs (path @ [path_data node g iv]) else None)"

text \<open>The turn behind a node; \<^verbatim>\<open>back()\<close> of an empty path is undefined.\<close>

definition add_turn :: "PathFacade \<Rightarrow> 32 word \<Rightarrow> PathData list \<Rightarrow> PathData list option" where
  "add_turn F edge path =
     (let turn_id = GetTurnID F edge; turn_duration = GetDurationPenaltyForEdgeID F turn_id;
          turn_weight = GetWeightPenaltyForEdgeID F turn_id
      in if path = [] then None
         else do {
           d \<leftarrow> i32_add (duration_until_turn (last path)) turn_duration;
           w \<leftarrow> i32_add (weight_until_turn (last path)) turn_weight;
           Some (butlast path @ [(last path)\<lparr>duration_until_turn := d, duration_of_turn := turn_duration,
             weight_until_turn := w, weight_of_turn := turn_weight, turn_edge := Some turn_id\<rparr>])
         })"

text \<open>The index of the first segment: the position of the source, in an \<^verbatim>\<open>unsigned short\<close>.\<close>

definition first_index :: "PhantomNode \<Rightarrow> bool \<Rightarrow> geometry \<Rightarrow> PathData list \<Rightarrow> nat" where
  "first_index source traversed_in_reverse g path =
     (if path = [] then
        if traversed_in_reverse
        then nat ((int (length (weight_vector g)) - int (fwd_segment_position source) - 1) mod 2 ^ 16)
        else fwd_segment_position source
      else 0)"

fun edge_loop :: "PathFacade \<Rightarrow> LiveDataStore \<Rightarrow> PhantomNode \<Rightarrow> bool \<Rightarrow> 32 word list \<Rightarrow> 32 word list \<Rightarrow> PathData list
    \<Rightarrow> PathData list option" where
  "edge_loop F st source start_rev (node # nodes) (edge # edges) path = do {
     g \<leftarrow> get_segment_geometry F st node;
     path1 \<leftarrow> push_segments node g
       (map (\<lambda>i. (i, i + 1)) [first_index source start_rev g path..<length (weight_vector g)]) path;
     path2 \<leftarrow> add_turn F edge path1;
     edge_loop F st source start_rev nodes edges path2
   }"
| "edge_loop F st source start_rev _ _ path = Some path"

section \<open>The last node and the source\<close>

definition back_index :: "geometry \<Rightarrow> PhantomNode \<Rightarrow> nat" where
  "back_index g p = nat ((int (length (weight_vector g)) - int (fwd_segment_position p) - 1) mod 2 ^ 64)"

definition last_segments :: "nat \<Rightarrow> nat \<Rightarrow> (nat \<times> nat) list" where
  "last_segments start_index end_index =
     (if start_index < end_index then map (\<lambda>i. (i, i + 1)) [start_index..<end_index]
      else map (\<lambda>i. (i, i - 1)) (rev [end_index + 1..<start_index + 1]))"

definition target_segments :: "PathFacade \<Rightarrow> LiveDataStore \<Rightarrow> PhantomEndpoints \<Rightarrow> 32 word \<Rightarrow> 32 word \<Rightarrow> bool
    \<Rightarrow> PathData list \<Rightarrow> PathData list option" where
  "target_segments F st endpoints source_node target_node target_rev path = do {
     g \<leftarrow> get_segment_geometry F st target_node;
     let is_local_path = GetGeometryIndex F source_node = GetGeometryIndex F target_node \<and> path = [];
         start_index = (if is_local_path
           then if target_rev then back_index g (source_phantom endpoints)
                else fwd_segment_position (source_phantom endpoints)
           else 0);
         end_index = (if target_rev then back_index g (target_phantom endpoints)
           else fwd_segment_position (target_phantom endpoints))
     in push_segments target_node g (last_segments start_index end_index) path
   }"

text \<open>\<^verbatim>\<open>std::max(x - y, 0)\<close> for the first segment.\<close>

definition cut_source :: "PhantomNode \<Rightarrow> bool \<Rightarrow> PathData list \<Rightarrow> PathData list option" where
  "cut_source source start_rev path =
     (case path of [] \<Rightarrow> Some []
      | x # xs \<Rightarrow> do {
          w \<leftarrow> i32_sub (weight_until_turn x) (if start_rev then reverse_weight source else forward_weight source);
          d \<leftarrow> i32_sub (duration_until_turn x) (if start_rev then reverse_duration source else forward_duration source);
          Some (x\<lparr>weight_until_turn := max w 0, duration_until_turn := max d 0\<rparr> # xs)
        })"

definition annotatePath :: "PathFacade \<Rightarrow> int \<Rightarrow> int \<Rightarrow> PhantomEndpoints \<Rightarrow> 32 word list \<Rightarrow> 32 word list \<Rightarrow> PathData list
    \<Rightarrow> LiveDataStore \<Rightarrow> (PathData list \<times> LiveDataStore) option" where
  "annotatePath F now1_ms now2_ms endpoints unpacked_nodes unpacked_edges unpacked_path st =
     (if unpacked_nodes = [] \<or> length unpacked_nodes \<noteq> length unpacked_edges + 1 then None
      else let source_node = hd unpacked_nodes; target_node = last unpacked_nodes;
               start_rev = seg_id (forward_segment_id (source_phantom endpoints)) \<noteq> unat source_node;
               target_rev = seg_id (forward_segment_id (target_phantom endpoints)) \<noteq> unat target_node
           in do {
             st' \<leftarrow> AggregatePendingTrafficSamples (Traffic_Aggregator.BaseDataFacade.truncate F) (lds_stale_seconds st) now1_ms now2_ms st;
             path1 \<leftarrow> edge_loop F st' (source_phantom endpoints) start_rev unpacked_nodes unpacked_edges unpacked_path;
             path2 \<leftarrow> target_segments F st' endpoints source_node target_node target_rev path1;
             path3 \<leftarrow> cut_source (source_phantom endpoints) start_rev path2;
             Some (path3, st')
           })"

section \<open>Everything but the weights\<close>

text \<open>The segments without the entry that live traffic may change.\<close>

abbreviation strip :: "PathData \<Rightarrow> PathData" where
  "strip x \<equiv> x\<lparr>weight_until_turn := 0\<rparr>"

lemma push_segments_eq:
  "push_segments node g ivs path = (if list_all (in_geometry g) ivs then Some (path @ map (path_data node g) ivs) else None)"
  by (induction ivs arbitrary: path) auto

lemma ApplyLive_length: "ApplyLiveTrafficToSegmentWeights st g ws = Some ws' \<Longrightarrow> length ws' = length ws"
proof -
  have "those xs = Some ys \<Longrightarrow> length ys = length xs" for xs :: "32 word option list" and ys
    by (induction xs arbitrary: ys) (auto split: option.splits)
  then show "ApplyLiveTrafficToSegmentWeights st g ws = Some ws' \<Longrightarrow> length ws' = length ws"
    by (fastforce simp: ApplyLiveTrafficToSegmentWeights_def split: option.splits if_splits)
qed

lemma geometry_static:
  assumes "get_segment_geometry F st node = Some g" "get_segment_geometry F st2 node = Some g2"
  shows "id_vector g = id_vector g2" "length (weight_vector g) = length (weight_vector g2)"
    "duration_vector g = duration_vector g2" "datasource_vector g = datasource_vector g2"
  using assms by (auto simp: get_segment_geometry_def Let_def bind_eq_Some_conv split: if_splits dest!: ApplyLive_length)

lemma push_segments_static:
  assumes "push_segments node g ivs path = Some r" "push_segments node g2 ivs path2 = Some r2" "map strip path = map strip path2"
    and "id_vector g = id_vector g2" "duration_vector g = duration_vector g2" "datasource_vector g = datasource_vector g2"
  shows "map strip r = map strip r2"
  using assms by (auto simp: push_segments_eq path_data_def split: if_splits)

lemma strip_iff:
  "strip x = strip y \<longleftrightarrow> from_edge_based_node x = from_edge_based_node y \<and> turn_via_node x = turn_via_node y \<and>
     weight_of_turn x = weight_of_turn y \<and> duration_until_turn x = duration_until_turn y \<and>
     duration_of_turn x = duration_of_turn y \<and> datasource_id x = datasource_id y \<and> turn_edge x = turn_edge y"
  by (cases x; cases y) auto

lemma add_turn_static:
  assumes "add_turn F edge path = Some r" "add_turn F edge path2 = Some r2" "map strip path = map strip path2"
  shows "map strip r = map strip r2"
proof -
  have ne: "path \<noteq> []" "path2 \<noteq> []" using assms(1,2) by (auto simp: add_turn_def Let_def split: if_splits)
  then obtain xs x ys y where xy: "path = xs @ [x]" "path2 = ys @ [y]" by (meson rev_exhaust)
  then have eq: "map strip xs = map strip ys" "strip x = strip y" using assms(3) by simp_all
  from xy assms(1,2) obtain d w d2 w2 where
    "r = xs @ [x\<lparr>duration_until_turn := d, duration_of_turn := GetDurationPenaltyForEdgeID F (GetTurnID F edge),
       weight_until_turn := w, weight_of_turn := GetWeightPenaltyForEdgeID F (GetTurnID F edge), turn_edge := Some (GetTurnID F edge)\<rparr>]"
    "r2 = ys @ [y\<lparr>duration_until_turn := d2, duration_of_turn := GetDurationPenaltyForEdgeID F (GetTurnID F edge),
       weight_until_turn := w2, weight_of_turn := GetWeightPenaltyForEdgeID F (GetTurnID F edge), turn_edge := Some (GetTurnID F edge)\<rparr>]"
    "i32_add (duration_until_turn x) (GetDurationPenaltyForEdgeID F (GetTurnID F edge)) = Some d"
    "i32_add (duration_until_turn y) (GetDurationPenaltyForEdgeID F (GetTurnID F edge)) = Some d2"
    by (auto simp: add_turn_def Let_def bind_eq_Some_conv)
  then show ?thesis using eq(1) eq(2) [unfolded strip_iff] by (simp add: strip_iff)
qed

lemma first_index_static:
  "length (weight_vector g) = length (weight_vector g2) \<Longrightarrow> map strip path = map strip path2 \<Longrightarrow>
   first_index source r g path = first_index source r g2 path2"
  by (cases path; cases path2) (simp_all add: first_index_def)

lemma edge_loop_static:
  "edge_loop F st source r nodes edges path = Some q \<Longrightarrow> edge_loop F st2 source r nodes edges path2 = Some q2 \<Longrightarrow>
   map strip path = map strip path2 \<Longrightarrow> map strip q = map strip q2"
proof (induction F st source r nodes edges path arbitrary: path2 rule: edge_loop.induct)
  case (1 F st source r node nodes edge edges path)
  from 1(2) obtain g p p' where a: "get_segment_geometry F st node = Some g"
    "push_segments node g (map (\<lambda>i. (i, i + 1)) [first_index source r g path..<length (weight_vector g)]) path = Some p"
    "add_turn F edge p = Some p'" "edge_loop F st source r nodes edges p' = Some q"
    by (auto simp: bind_eq_Some_conv)
  from 1(3) obtain g2 p2 p2' where b: "get_segment_geometry F st2 node = Some g2"
    "push_segments node g2 (map (\<lambda>i. (i, i + 1)) [first_index source r g2 path2..<length (weight_vector g2)]) path2 = Some p2"
    "add_turn F edge p2 = Some p2'" "edge_loop F st2 source r nodes edges p2' = Some q2"
    by (auto simp: bind_eq_Some_conv)
  note g = geometry_static [OF a(1) b(1)]
  have "map strip p = map strip p2"
    by (rule push_segments_static [OF a(2) _ 1(4) g(1,3,4)]) (use b(2) first_index_static [OF g(2) 1(4)] g(2) in simp)
  from add_turn_static [OF a(3) b(3) this] show ?case by (rule 1(1) [OF a(1-3) a(4) b(4)])
qed auto

lemma target_segments_static:
  assumes "target_segments F st e a b r path = Some q" "target_segments F st2 e a b r path2 = Some q2" "map strip path = map strip path2"
  shows "map strip q = map strip q2"
proof -
  obtain g where g: "get_segment_geometry F st b = Some g" using assms(1) by (auto simp: target_segments_def bind_eq_Some_conv)
  obtain g2 where g2: "get_segment_geometry F st2 b = Some g2" using assms(2) by (auto simp: target_segments_def bind_eq_Some_conv)
  note s = geometry_static [OF g g2]
  have b: "back_index g p = back_index g2 p" for p using s(2) by (simp add: back_index_def)
  have e: "path = [] \<longleftrightarrow> path2 = []" using assms(3) by (metis list.map_disc_iff)
  show ?thesis
    by (rule push_segments_static [OF _ _ assms(3) s(1,3,4)])
      (use assms(1,2) g g2 in \<open>simp_all only: target_segments_def Let_def b e bind.bind_lunit\<close>)
qed

lemma cut_source_static:
  assumes "cut_source s r path = Some q" "cut_source s r path2 = Some q2" "map strip path = map strip path2"
  shows "map strip q = map strip q2"
proof (cases path)
  case Nil
  then show ?thesis using assms by (cases path2) (auto simp: cut_source_def)
next
  case (Cons x xs)
  then obtain y ys where y: "path2 = y # ys" using assms(3) by (cases path2) auto
  then have eq: "strip x = strip y" "map strip xs = map strip ys" using assms(3) Cons by simp_all
  from Cons y assms(1,2) eq(1) [unfolded strip_iff] obtain d w w2 where
    "q = x\<lparr>weight_until_turn := w, duration_until_turn := d\<rparr> # xs" "q2 = y\<lparr>weight_until_turn := w2, duration_until_turn := d\<rparr> # ys"
    by (auto simp: cut_source_def bind_eq_Some_conv)
  then show ?thesis using eq(2) eq(1) [unfolded strip_iff] by (simp add: strip_iff)
qed

lemma annotatePath_steps:
  assumes "annotatePath F n1 n2 e nodes edges path st = Some (q, st')"
  obtains p1 p2 where "AggregatePendingTrafficSamples (Traffic_Aggregator.BaseDataFacade.truncate F) (lds_stale_seconds st) n1 n2 st = Some st'"
    "edge_loop F st' (source_phantom e) (seg_id (forward_segment_id (source_phantom e)) \<noteq> unat (hd nodes)) nodes edges path = Some p1"
    "target_segments F st' e (hd nodes) (last nodes) (seg_id (forward_segment_id (target_phantom e)) \<noteq> unat (last nodes)) p1 = Some p2"
    "cut_source (source_phantom e) (seg_id (forward_segment_id (source_phantom e)) \<noteq> unat (hd nodes)) p2 = Some q"
  using assms by (auto simp: annotatePath_def Let_def bind_eq_Some_conv split: if_splits)

section \<open>The weights\<close>

text \<open>The geometries and turn penalties a well-formed data set has; the penalties are \<^verbatim>\<open>int16_t\<close> values.\<close>

definition geometry_ok :: "geometry \<Rightarrow> bool" where
  "geometry_ok g \<longleftrightarrow> length (id_vector g) = length (weight_vector g) + 1 \<and>
     length (duration_vector g) = length (weight_vector g) \<and> length (datasource_vector g) = length (weight_vector g) \<and>
     0 < length (weight_vector g) \<and> length (weight_vector g) < 2 ^ 16 \<and>
     (\<forall>w \<in> set (weight_vector g). unat w < 2 ^ 30) \<and> (\<forall>d \<in> set (duration_vector g). unat d < 2 ^ 30)"

definition in_i16 :: "int \<Rightarrow> bool" where
  "in_i16 x \<longleftrightarrow> - (2 ^ 15) \<le> x \<and> x < 2 ^ 15"

definition weight_penalty :: "PathFacade \<Rightarrow> 32 word \<Rightarrow> int" where
  "weight_penalty F edge = GetWeightPenaltyForEdgeID F (GetTurnID F edge)"

definition duration_penalty :: "PathFacade \<Rightarrow> 32 word \<Rightarrow> int" where
  "duration_penalty F edge = GetDurationPenaltyForEdgeID F (GetTurnID F edge)"

definition seg_weights :: "geometry \<Rightarrow> int list" where
  "seg_weights g = map (\<lambda>w. int (unat w)) (weight_vector g)"

definition seg_index :: "bool \<Rightarrow> geometry \<Rightarrow> PhantomNode \<Rightarrow> nat" where
  "seg_index r g p = (if r then length (weight_vector g) - fwd_segment_position p - 1 else fwd_segment_position p)"

lemma first_index_eq:
  "geometry_ok g \<Longrightarrow> fwd_segment_position p < length (weight_vector g) \<Longrightarrow>
   first_index p r g path = (if path = [] then seg_index r g p else 0)"
  by (auto simp: first_index_def seg_index_def geometry_ok_def)

lemma back_index_eq:
  "geometry_ok g \<Longrightarrow> fwd_segment_position p < length (weight_vector g) \<Longrightarrow>
   back_index g p = seg_index True g p"
  by (auto simp: back_index_def seg_index_def geometry_ok_def)

text \<open>The segments of a node from an index on, before and after the turn behind it.\<close>

definition node_segments :: "32 word \<Rightarrow> geometry \<Rightarrow> nat \<Rightarrow> nat \<Rightarrow> PathData list" where
  "node_segments node g i j = map (\<lambda>i. path_data node g (i, i + 1)) [i..<j]"

definition turned :: "PathFacade \<Rightarrow> 32 word \<Rightarrow> PathData \<Rightarrow> PathData" where
  "turned F edge x = x\<lparr>duration_until_turn := duration_until_turn x + duration_penalty F edge,
     duration_of_turn := duration_penalty F edge, weight_until_turn := weight_until_turn x + weight_penalty F edge,
     weight_of_turn := weight_penalty F edge, turn_edge := Some (GetTurnID F edge)\<rparr>"

definition node_part :: "PathFacade \<Rightarrow> 32 word \<Rightarrow> geometry \<Rightarrow> nat \<Rightarrow> 32 word \<Rightarrow> PathData list" where
  "node_part F node g i edge =
     (let xs = node_segments node g i (length (weight_vector g)) in butlast xs @ [turned F edge (last xs)])"

fun route_parts :: "PathFacade \<Rightarrow> nat \<Rightarrow> 32 word list \<Rightarrow> geometry list \<Rightarrow> 32 word list \<Rightarrow> PathData list" where
  "route_parts F i (node # nodes) (g # gs) (edge # edges) = node_part F node g i edge @ route_parts F 0 nodes gs edges"
| "route_parts F i _ _ _ = []"

lemma push_node_segments:
  "geometry_ok g \<Longrightarrow> j \<le> length (weight_vector g) \<Longrightarrow>
   push_segments node g (map (\<lambda>i. (i, i + 1)) [i..<j]) path = Some (path @ node_segments node g i j)"
  by (auto simp: push_segments_eq node_segments_def geometry_ok_def in_geometry_def list_all_iff)

lemma path_data_bounds:
  assumes "geometry_ok g" "i < length (weight_vector g)"
  shows "weight_until_turn (path_data node g (i, i + 1)) = seg_weights g ! i" "0 \<le> seg_weights g ! i" "seg_weights g ! i < 2 ^ 30"
    "0 \<le> duration_until_turn (path_data node g (i, i + 1))" "duration_until_turn (path_data node g (i, i + 1)) < 2 ^ 30"
proof -
  have u: "unat (weight_vector g ! i) < 2 ^ 30" "unat (duration_vector g ! i) < 2 ^ 30"
    using assms nth_mem unfolding geometry_ok_def by metis+
  have "sint w = int (unat w)" if "unat w < 2 ^ 30" for w :: "32 word" by (rule sint_small) (use that in simp)
  from this [OF u(1)] this [OF u(2)] have "sint (weight_vector g ! i) = int (unat (weight_vector g ! i))"
    "sint (duration_vector g ! i) = int (unat (duration_vector g ! i))" .
  moreover have "int (unat (weight_vector g ! i)) < int (2 ^ 30)" "int (unat (duration_vector g ! i)) < int (2 ^ 30)"
    using u by (simp_all only: of_nat_less_iff)
  ultimately show "weight_until_turn (path_data node g (i, i + 1)) = seg_weights g ! i" "0 \<le> seg_weights g ! i"
    "seg_weights g ! i < 2 ^ 30" "0 \<le> duration_until_turn (path_data node g (i, i + 1))"
    "duration_until_turn (path_data node g (i, i + 1)) < 2 ^ 30"
    using assms(2) by (simp_all add: path_data_def seg_weights_def)
qed

lemma add_turn_segments:
  assumes "geometry_ok g" "i < length (weight_vector g)" "in_i16 (weight_penalty F edge)" "in_i16 (duration_penalty F edge)"
  shows "add_turn F edge (path @ node_segments node g i (length (weight_vector g))) = Some (path @ node_part F node g i edge)"
proof -
  let ?n = "length (weight_vector g)" let ?xs = "node_segments node g i ?n"
  have ne: "?xs \<noteq> []" and l: "last ?xs = path_data node g (?n - 1, (?n - 1) + 1)"
    using assms(2) by (cases ?n; simp add: node_segments_def)+
  have lt: "?n - 1 < ?n" using assms(2) by simp
  note b = path_data_bounds(2,3) [OF assms(1) lt] path_data_bounds(1,4,5) [OF assms(1) lt, of node]
  have "i32_add (weight_until_turn (last ?xs)) (weight_penalty F edge) = Some (weight_until_turn (last ?xs) + weight_penalty F edge)"
    "i32_add (duration_until_turn (last ?xs)) (duration_penalty F edge) = Some (duration_until_turn (last ?xs) + duration_penalty F edge)"
    unfolding l using b assms(3,4) by (auto simp: i32_add_def in_i32_def in_i16_def)
  then show ?thesis using ne
    by (simp add: add_turn_def Let_def butlast_append node_part_def turned_def weight_penalty_def duration_penalty_def)
qed

lemma edge_loop_route:
  assumes "list_all2 (\<lambda>node g. get_segment_geometry F st node = Some g) nodes gs" "\<forall>g \<in> set gs. geometry_ok g"
    and "\<forall>edge \<in> set edges. in_i16 (weight_penalty F edge) \<and> in_i16 (duration_penalty F edge)"
    and "length nodes = length edges + 1" "path = [] \<longrightarrow> fwd_segment_position source < length (weight_vector (hd gs))"
  shows "edge_loop F st source r nodes edges path =
    Some (path @ route_parts F (if path = [] then seg_index r (hd gs) source else 0) nodes gs edges)"
  using assms
proof (induction nodes gs arbitrary: edges path rule: list_all2_induct)
  case (Cons node nodes g gs)
  show ?case
  proof (cases edges)
    case (Cons edge es)
    let ?i = "if path = [] then seg_index r g source else 0"
    have ok: "geometry_ok g" "in_i16 (weight_penalty F edge)" "in_i16 (duration_penalty F edge)" using Cons Cons.prems by auto
    then have i: "?i < length (weight_vector g)" and f: "first_index source r g path = ?i"
      using Cons.prems(4) first_index_eq [OF ok(1)]
      by (auto simp: seg_index_def geometry_ok_def first_index_def)
    have ne: "path @ node_part F node g ?i edge \<noteq> []" by (simp add: node_part_def Let_def)
    have "edge_loop F st source r nodes es (path @ node_part F node g ?i edge) =
        Some ((path @ node_part F node g ?i edge) @ route_parts F 0 nodes gs es)"
      using Cons.IH [of es "path @ node_part F node g ?i edge"] Cons.prems Cons ne by auto
    then show ?thesis
      using Cons.hyps(1) push_node_segments [OF ok(1) order_refl] add_turn_segments [OF ok(1) i ok(2,3)] Cons f by simp
  qed (use Cons.prems in simp)
qed simp

lemma target_segments_route:
  assumes "get_segment_geometry F st target = Some g" "geometry_ok g" "path \<noteq> []"
    and "fwd_segment_position (target_phantom e) < length (weight_vector g)"
  shows "target_segments F st e source target r path = Some (path @ node_segments target g 0 (seg_index r g (target_phantom e)))"
proof -
  let ?j = "seg_index r g (target_phantom e)"
  have j: "?j \<le> length (weight_vector g)" using assms(4) by (auto simp: seg_index_def)
  have "last_segments 0 ?j = map (\<lambda>i. (i, i + 1)) [0..<?j]" by (cases ?j) (simp_all add: last_segments_def)
  then show ?thesis
    using push_node_segments [OF assms(2) j, of target 0 path] assms(1,3) back_index_eq [OF assms(2,4)]
    by (cases r) (simp_all add: target_segments_def Let_def seg_index_def)
qed

lemma cut_source_route:
  assumes "weight_until_turn x \<in> {- (2 ^ 15)..<2 ^ 31}" "duration_until_turn x \<in> {- (2 ^ 15)..<2 ^ 31}" "0 \<le> w" "w < 2 ^ 30" "0 \<le> d" "d < 2 ^ 30"
    and "w = (if r then reverse_weight s else forward_weight s)" "d = (if r then reverse_duration s else forward_duration s)"
  shows "cut_source s r (x # xs) = Some (x\<lparr>weight_until_turn := weight_until_turn x - min w (weight_until_turn x),
    duration_until_turn := duration_until_turn x - min d (duration_until_turn x)\<rparr> # xs)"
proof -
  have "i32_sub (weight_until_turn x) w = Some (weight_until_turn x - w)" "i32_sub (duration_until_turn x) d = Some (duration_until_turn x - d)"
    using assms(1-6) by (auto simp: i32_sub_def in_i32_def)
  moreover have "max (a - b) 0 = a - min b a" for a b :: int by simp
  ultimately show ?thesis unfolding cut_source_def assms(7,8) [symmetric] by simp
qed

text \<open>The totals of the parts.\<close>

lemma node_segments_weight:
  assumes "geometry_ok g" "j \<le> length (weight_vector g)"
  shows "map weight_until_turn (node_segments node g i j) = drop i (take j (seg_weights g))"
    and "map turn_via_node (node_segments node g i j) = drop i (take j (tl (id_vector g)))"
proof -
  have l: "length (seg_weights g) = length (weight_vector g)" "length (tl (id_vector g)) = length (weight_vector g)"
    using assms(1) by (simp_all add: seg_weights_def geometry_ok_def)
  show "map weight_until_turn (node_segments node g i j) = drop i (take j (seg_weights g))"
    by (rule nth_equalityI) (use assms l in \<open>auto simp: node_segments_def path_data_bounds(1) [OF assms(1), simplified]\<close>)
  show "map turn_via_node (node_segments node g i j) = drop i (take j (tl (id_vector g)))"
    by (rule nth_equalityI) (use assms l in \<open>auto simp: node_segments_def path_data_def nth_tl\<close>)
qed

lemma node_part_totals:
  assumes "geometry_ok g" "i < length (weight_vector g)"
  shows "sum_list (map weight_until_turn (node_part F node g i edge)) = sum_list (drop i (seg_weights g)) + weight_penalty F edge"
    and "map turn_via_node (node_part F node g i edge) = drop i (tl (id_vector g))"
proof -
  let ?xs = "node_segments node g i (length (weight_vector g))"
  have ne: "?xs \<noteq> []" using assms(2) by (auto simp: node_segments_def)
  note m = node_segments_weight [OF assms(1) order_refl, of node i]
  have l: "length (seg_weights g) = length (weight_vector g)" "length (tl (id_vector g)) = length (weight_vector g)"
    using assms(1) by (simp_all add: seg_weights_def geometry_ok_def)
  have "sum_list (map weight_until_turn (node_part F node g i edge)) =
      sum_list (map weight_until_turn (butlast ?xs @ [last ?xs])) + weight_penalty F edge"
    by (simp add: node_part_def Let_def turned_def)
  then show "sum_list (map weight_until_turn (node_part F node g i edge)) = sum_list (drop i (seg_weights g)) + weight_penalty F edge"
    unfolding append_butlast_last_id [OF ne] m using l by simp
  have "map turn_via_node (node_part F node g i edge) = map turn_via_node (butlast ?xs @ [last ?xs])"
    by (simp add: node_part_def Let_def turned_def)
  then show "map turn_via_node (node_part F node g i edge) = drop i (tl (id_vector g))"
    unfolding append_butlast_last_id [OF ne] m using l by simp
qed

lemma route_parts_totals:
  assumes "\<forall>g \<in> set gs. geometry_ok g" "length nodes = length edges + 1" "length gs = length nodes" "edges \<noteq> [] \<longrightarrow> i < length (weight_vector (hd gs))"
  shows "sum_list (map weight_until_turn (route_parts F i nodes gs edges)) =
      sum_list (drop i (concat (map seg_weights (butlast gs)))) + sum_list (map (weight_penalty F) edges)"
    and "map turn_via_node (route_parts F i nodes gs edges) = drop i (concat (map (\<lambda>g. tl (id_vector g)) (butlast gs)))"
  using assms
proof (induction F i nodes gs edges rule: route_parts.induct)
  case (1 F i node nodes g gs edge edges)
  { case 1
    have ok: "geometry_ok g" "i < length (weight_vector g)" "gs \<noteq> []" "\<forall>g \<in> set gs. geometry_ok g" using 1 by auto
    then have "edges \<noteq> [] \<longrightarrow> 0 < length (weight_vector (hd gs))" by (auto simp: geometry_ok_def)
    with 1 ok "1.IH"(1) [OF ok(4)] show ?case by (simp add: node_part_totals(1) seg_weights_def)
  next
    case 2
    have ok: "geometry_ok g" "i < length (weight_vector g)" "gs \<noteq> []" "\<forall>g \<in> set gs. geometry_ok g" using 2 by auto
    then have "edges \<noteq> [] \<longrightarrow> 0 < length (weight_vector (hd gs))" by (auto simp: geometry_ok_def)
    with 2 ok "1.IH"(2) [OF ok(4)] show ?case by (simp add: node_part_totals(2) geometry_ok_def) }
qed (auto simp: length_Suc_conv)

text \<open>The weight of the first segment, with the turn when the node has no other segment left.\<close>

definition first_weight :: "PathFacade \<Rightarrow> geometry \<Rightarrow> nat \<Rightarrow> 32 word \<Rightarrow> int" where
  "first_weight F g i edge = seg_weights g ! i + (if i + 1 = length (weight_vector g) then weight_penalty F edge else 0)"

lemma node_part_first:
  assumes "geometry_ok g" "i < length (weight_vector g)" "in_i16 (weight_penalty F edge)" "in_i16 (duration_penalty F edge)"
  obtains x xs where "node_part F node g i edge = x # xs" "weight_until_turn x = first_weight F g i edge"
    "weight_until_turn x \<in> {- (2 ^ 15)..<2 ^ 31}" "duration_until_turn x \<in> {- (2 ^ 15)..<2 ^ 31}"
proof -
  let ?x = "path_data node g (i, i + 1)" and ?xs = "node_segments node g (i + 1) (length (weight_vector g))"
  note b = path_data_bounds(2,3) [OF assms(1,2)] path_data_bounds(1,4,5) [OF assms(1,2), of node]
  have xs: "node_segments node g i (length (weight_vector g)) = ?x # ?xs"
    using assms(2) by (simp add: node_segments_def upt_conv_Cons)
  show ?thesis
  proof (cases "i + 1 = length (weight_vector g)")
    case True
    then have "?xs = []" by (simp add: node_segments_def)
    then have "node_part F node g i edge = turned F edge ?x # []" using xs by (simp add: node_part_def)
    then show ?thesis using True b assms(3,4)
      by (intro that [of "turned F edge ?x" "[]"]) (auto simp: turned_def first_weight_def in_i16_def)
  next
    case False
    then have "?xs \<noteq> []" using assms(2) by (auto simp: node_segments_def)
    then have "node_part F node g i edge = ?x # butlast ?xs @ [turned F edge (last ?xs)]" using xs by (simp add: node_part_def)
    then show ?thesis using False b by (intro that) (auto simp: first_weight_def)
  qed
qed

text \<open>A concrete data set and request.\<close>

definition demo_path_facade :: PathFacade where
  "demo_path_facade = \<lparr>Traffic_Aggregator.BaseDataFacade.NearestPhantomNodes = (\<lambda>c. []), GetGeometryIndex = (\<lambda>node. node),
     GetUncompressedForwardGeometry = (\<lambda>g. [10, 11, 12]), GetUncompressedForwardWeights = (\<lambda>g. [20, 30]),
     GetUncompressedReverseWeights = (\<lambda>g. [21, 31]), GetCoordinateOfNode = (\<lambda>n. \<lparr>crd_lon = 0, crd_lat = 0\<rparr>),
     GeometryForward = (\<lambda>node. True), GetUncompressedReverseGeometry = (\<lambda>g. [12, 11, 10]),
     GetUncompressedForwardDurations = (\<lambda>g. [2, 3]), GetUncompressedReverseDurations = (\<lambda>g. [2, 3]),
     GetUncompressedForwardDatasources = (\<lambda>g. [0, 0]), GetUncompressedReverseDatasources = (\<lambda>g. [0, 0]),
     GetTurnID = (\<lambda>e. e + 100), GetDurationPenaltyForEdgeID = (\<lambda>e. 4), GetWeightPenaltyForEdgeID = (\<lambda>e. 7)\<rparr>"

definition demo_endpoints :: PhantomEndpoints where
  "demo_endpoints = (let p = (PhantomNode_default \<lparr>crd_lon = 0, crd_lat = 0\<rparr>)\<lparr>fwd_segment_position := 1\<rparr> in
     \<lparr>source_phantom = p\<lparr>forward_segment_id := \<lparr>seg_id = 1, enabled = True\<rparr>, forward_weight := 50, forward_duration := 1\<rparr>,
      target_phantom = p\<lparr>forward_segment_id := \<lparr>seg_id = 2, enabled = True\<rparr>\<rparr>\<rparr>)"

definition demo_geometry :: geometry where
  "demo_geometry = \<lparr>id_vector = [10, 11, 12], weight_vector = [100, 150], duration_vector = [2, 3], datasource_vector = [0, 0]\<rparr>"

lemma demo_scaled: "scale_weight (Fin 5) 20 = Some 100" "scale_weight (Fin 5) 30 = Some 150"
  by code_simp+

lemma demo_geometries: "get_segment_geometry demo_path_facade demo_store 1 = Some demo_geometry"
  "get_segment_geometry demo_path_facade demo_store 2 = Some demo_geometry" "geometry_ok demo_geometry"
  "get_segment_geometry demo_path_facade lds_init node = Some (demo_geometry\<lparr>weight_vector := [20, 30]\<rparr>)"
  by (simp_all add: get_segment_geometry_def demo_path_facade_def ApplyLiveTrafficToSegmentWeights_def lds_get_def demo_store_def
      demo_edge_def lds_init_def demo_geometry_def geometry_ok_def demo_scaled)

lemma demo_aggregate: "AggregatePendingTrafficSamples F stale now1 now2 demo_store = Some demo_store"
  "AggregatePendingTrafficSamples F stale now1 now2 lds_init = Some lds_init"
  by (simp_all add: aggregate_no_pending demo_store_def lds_init_def)

lemma demo_fields: "GetGeometryIndex demo_path_facade n = n" "GetTurnID demo_path_facade n = n + 100"
  "GetDurationPenaltyForEdgeID demo_path_facade n = 4" "GetWeightPenaltyForEdgeID demo_path_facade n = 7"
  "fwd_segment_position (source_phantom demo_endpoints) = 1" "fwd_segment_position (target_phantom demo_endpoints) = 1"
  "seg_id (forward_segment_id (source_phantom demo_endpoints)) = 1" "seg_id (forward_segment_id (target_phantom demo_endpoints)) = 2"
  "forward_weight (source_phantom demo_endpoints) = 50" "forward_duration (source_phantom demo_endpoints) = 1"
  by (simp_all add: demo_path_facade_def demo_endpoints_def Let_def)

lemma demo_path: "map_option (\<lambda>r. map weight_until_turn (fst r)) (annotatePath demo_path_facade 0 0 demo_endpoints [1, 2] [0] [] demo_store) = Some [107, 100]"
  "map_option (\<lambda>r. map weight_until_turn (fst r)) (annotatePath demo_path_facade 0 0 demo_endpoints [1, 2] [0] [] lds_init) = Some [0, 20]"
  by (simp_all add: annotatePath_def demo_aggregate demo_geometries target_segments_def Let_def demo_fields demo_geometry_def
      first_index_def last_segments_def push_segments_eq in_geometry_def path_data_def add_turn_def cut_source_def
      i32_add_def i32_sub_def in_i32_def upt_rec)

section \<open>Properties\<close>

text \<open>
  C22.  Live traffic changes weights only.  Two runs of \<^verbatim>\<open>annotatePath\<close> for the same endpoints and path, with whatever
  live data and clocks, agree in all but the weight of every segment: the durations in particular, from
  which the response's travel times are computed, never reflect the traffic.
\<close>

theorem annotatePath_durations_static:
  assumes "annotatePath F now1 now2 endpoints nodes edges path st = Some (q, st')"
    and "annotatePath F now1' now2' endpoints nodes edges path st2 = Some (q2, st2')"
  shows "map (\<lambda>x. x\<lparr>weight_until_turn := 0\<rparr>) q = map (\<lambda>x. x\<lparr>weight_until_turn := 0\<rparr>) q2"
proof -
  from assms(1) obtain p1 p2 where a: "edge_loop F st' (source_phantom endpoints) (seg_id (forward_segment_id (source_phantom endpoints)) \<noteq> unat (hd nodes)) nodes edges path = Some p1"
    "target_segments F st' endpoints (hd nodes) (last nodes) (seg_id (forward_segment_id (target_phantom endpoints)) \<noteq> unat (last nodes)) p1 = Some p2"
    "cut_source (source_phantom endpoints) (seg_id (forward_segment_id (source_phantom endpoints)) \<noteq> unat (hd nodes)) p2 = Some q"
    by (rule annotatePath_steps)
  from assms(2) obtain r1 r2 where b: "edge_loop F st2' (source_phantom endpoints) (seg_id (forward_segment_id (source_phantom endpoints)) \<noteq> unat (hd nodes)) nodes edges path = Some r1"
    "target_segments F st2' endpoints (hd nodes) (last nodes) (seg_id (forward_segment_id (target_phantom endpoints)) \<noteq> unat (last nodes)) r1 = Some r2"
    "cut_source (source_phantom endpoints) (seg_id (forward_segment_id (source_phantom endpoints)) \<noteq> unat (hd nodes)) r2 = Some q2"
    by (rule annotatePath_steps)
  show ?thesis
    by (rule cut_source_static [OF a(3) b(3) target_segments_static [OF a(2) b(2) edge_loop_static [OF a(1) b(1) refl]]])
qed

theorem annotatePath_durations_static_witness:
  "\<exists>q q2 st1 st2. annotatePath demo_path_facade 0 0 demo_endpoints [1, 2] [0] [] demo_store = Some (q, st1)
    \<and> annotatePath demo_path_facade 0 0 demo_endpoints [1, 2] [0] [] lds_init = Some (q2, st2)
    \<and> map weight_until_turn q = [107, 100] \<and> map weight_until_turn q2 = [0, 20]
    \<and> map (\<lambda>x. x\<lparr>weight_until_turn := 0\<rparr>) q = map (\<lambda>x. x\<lparr>weight_until_turn := 0\<rparr>) q2"
  using demo_path annotatePath_durations_static by fastforce



end
