(* ===== verification/Hilbert_Code.thy ===== *)
theory Hilbert_Code
  imports Coordinates
begin

text \<open>
  \<^verbatim>\<open>include/util/hilbert_value.hpp\<close>: the position of a coordinate on the Hilbert curve, computed by a state
  machine whose output and transition tables are packed into two words.
\<close>

unbundle bit_operations_syntax

fun hilbert_loop :: "nat \<Rightarrow> 32 word \<Rightarrow> 32 word \<Rightarrow> 64 word \<Rightarrow> 32 word \<Rightarrow> 64 word" where
  "hilbert_loop 0 x y result state = result"
| "hilbert_loop (Suc n) x y result state =
     (let xi = drop_bit 31 x AND 1; yi = drop_bit 31 y AND 1;
          row = 4 * state OR 2 * xi OR yi
      in hilbert_loop n (push_bit 1 x) (push_bit 1 y)
           (push_bit 2 result OR ucast (drop_bit (unat (2 * row)) (0x361E9CB4 :: 32 word) AND 3))
           (drop_bit (unat (2 * row)) (0x8FE65831 :: 32 word) AND 3))"

definition HilbertToLinear :: "32 word \<Rightarrow> 32 word \<Rightarrow> 64 word" where
  "HilbertToLinear x y = hilbert_loop 32 x y 0 0"

text \<open>The sums are \<^verbatim>\<open>int32_t\<close> additions, converted to \<^verbatim>\<open>uint32_t\<close>.\<close>

definition GetHilbertCode :: "Coordinate \<Rightarrow> 64 word option" where
  "GetHilbertCode c = do {
     x \<leftarrow> i32_add (crd_lon c) 180000000;
     y \<leftarrow> i32_add (crd_lat c) 90000000;
     Some (HilbertToLinear (word_of_int x) (word_of_int y))
   }"

section \<open>The state machine\<close>

text \<open>The table the packed words hold: for a state and the next bits, two bits of output and the next state.\<close>

datatype hilbert_state = StateA | StateB | StateC | StateD

fun state_code :: "hilbert_state \<Rightarrow> 32 word" where
  "state_code StateA = 0"
| "state_code StateB = 1"
| "state_code StateC = 2"
| "state_code StateD = 3"

fun hilbert_step :: "hilbert_state \<Rightarrow> bool \<Rightarrow> bool \<Rightarrow> nat \<times> hilbert_state" where
  "hilbert_step StateA False False = (0, StateB)"
| "hilbert_step StateA False True = (1, StateA)"
| "hilbert_step StateA True False = (3, StateD)"
| "hilbert_step StateA True True = (2, StateA)"
| "hilbert_step StateB False False = (0, StateA)"
| "hilbert_step StateB False True = (3, StateC)"
| "hilbert_step StateB True False = (1, StateB)"
| "hilbert_step StateB True True = (2, StateB)"
| "hilbert_step StateC False False = (2, StateC)"
| "hilbert_step StateC False True = (3, StateB)"
| "hilbert_step StateC True False = (1, StateC)"
| "hilbert_step StateC True True = (0, StateD)"
| "hilbert_step StateD False False = (2, StateD)"
| "hilbert_step StateD False True = (1, StateD)"
| "hilbert_step StateD True False = (3, StateA)"
| "hilbert_step StateD True True = (0, StateC)"

fun hilbert_number :: "nat \<Rightarrow> 32 word \<Rightarrow> 32 word \<Rightarrow> hilbert_state \<Rightarrow> nat" where
  "hilbert_number 0 x y s = 0"
| "hilbert_number (Suc n) x y s = (case hilbert_step s (bit x 31) (bit y 31) of
     (digit, s') \<Rightarrow> digit * 4 ^ n + hilbert_number n (push_bit 1 x) (push_bit 1 y) s')"

lemma step_digit: "fst (hilbert_step s a b) < 4"
  by (cases s; cases a; cases b) simp_all

lemma step_inj: "fst (hilbert_step s a b) = fst (hilbert_step s a' b') \<Longrightarrow> a = a' \<and> b = b'"
  by (cases s; cases a; cases b; cases a'; cases b') simp_all

lemma top_bit: "drop_bit 31 x AND 1 = (if bit x 31 then 1 else 0)" for x :: "32 word"
  by (simp add: and_one_eq bit_iff_odd_drop_bit mod_2_eq_odd)

lemma packed_tables:
  fixes a b :: bool and s :: hilbert_state
  defines "row \<equiv> 4 * state_code s OR 2 * (if a then 1 else 0) OR (if b then 1 else 0)"
  shows "drop_bit (unat (2 * row)) (0x361E9CB4 :: 32 word) AND 3 = word_of_nat (fst (hilbert_step s a b))"
    and "drop_bit (unat (2 * row)) (0x8FE65831 :: 32 word) AND 3 = state_code (snd (hilbert_step s a b))"
  unfolding row_def by (cases s; cases a; cases b; simp)+

lemma hilbert_number_less: "hilbert_number n x y s < 4 ^ n"
proof (induction n arbitrary: x y s)
  case (Suc n)
  obtain d s' where st: "hilbert_step s (bit x 31) (bit y 31) = (d, s')" by fastforce
  have "d \<le> 3" using step_digit [of s "bit x 31" "bit y 31"] st by simp
  then have "d * 4 ^ n \<le> 3 * 4 ^ n" by simp
  moreover have "hilbert_number (Suc n) x y s = d * 4 ^ n + hilbert_number n (push_bit 1 x) (push_bit 1 y) s'" using st by simp
  ultimately show ?case unfolding power_Suc using Suc.IH [of "push_bit 1 x" "push_bit 1 y" s'] by linarith
qed simp

lemma append_digit:
  fixes r :: "64 word"
  assumes "d < 4" "(unat r + 1) * 4 \<le> 2 ^ 64"
  shows "unat (push_bit 2 r OR ucast (word_of_nat d :: 32 word)) = unat r * 4 + d"
proof -
  have w: "unat (ucast (word_of_nat d :: 32 word) :: 64 word) = d" using assms(1) by (simp add: unsigned_ucast_eq unsigned_of_nat take_bit_nat_eq_self)
  have "push_bit 2 r AND ucast (word_of_nat d :: 32 word) = 0"
  proof (rule bit_word_eqI)
    fix n
    have "\<not> bit d n" if "2 \<le> n" using assms(1) that by (metis bit_nat_iff bit_take_bit_iff leD less_exp numeral_Bit0 power2_eq_square take_bit_nat_eq_self mult_2)
    then show "bit (push_bit 2 r AND ucast (word_of_nat d :: 32 word)) n = bit (0 :: 64 word) n"
      by (auto simp: bit_simps)
  qed
  then have "push_bit 2 r OR ucast (word_of_nat d :: 32 word) = push_bit 2 r + ucast (word_of_nat d :: 32 word)"
    by (simp add: disjunctive_add_eq_or)
  moreover have "unat (push_bit 2 r) = unat r * 4" using assms(2) by (simp add: push_bit_eq_mult unat_word_ariths)
  ultimately show ?thesis using w assms by (simp add: unat_word_ariths)
qed

lemma hilbert_loop_number:
  "(unat r + 1) * 4 ^ n \<le> 2 ^ 64 \<Longrightarrow> unat (hilbert_loop n x y r (state_code s)) = unat r * 4 ^ n + hilbert_number n x y s"
proof (induction n arbitrary: x y r s)
  case (Suc n)
  obtain d s' where st: "hilbert_step s (bit x 31) (bit y 31) = (d, s')" by fastforce
  have d: "d < 4" using step_digit [of s "bit x 31" "bit y 31"] st by simp
  have le: "(unat r + 1) * 4 \<le> 2 ^ 64"
    using order_trans [OF mult_left_mono [OF self_le_power [of 4 "Suc n"], of "unat r + 1"] Suc.prems] by simp
  note u = append_digit [OF d le]
  have "(unat r * 4 + d + 1) * 4 ^ n \<le> (unat r + 1) * 4 * 4 ^ n" using d by (intro mult_right_mono) simp_all
  also have "\<dots> \<le> 2 ^ 64" using Suc.prems by (simp only: power_Suc mult.assoc)
  finally have "(unat r * 4 + d + 1) * 4 ^ n \<le> 2 ^ 64" .
  from Suc.IH [of "push_bit 2 r OR ucast (word_of_nat d :: 32 word)" "push_bit 1 x" "push_bit 1 y" s'] u this
  show ?case using st packed_tables [of s "bit x 31" "bit y 31"]
    by (simp add: Let_def top_bit algebra_simps)
qed simp

lemma hilbert_number_inj:
  assumes "n \<le> 32" "hilbert_number n x y s = hilbert_number n x' y' s"
  shows "\<forall>i<n. bit x (31 - i) = bit x' (31 - i) \<and> bit y (31 - i) = bit y' (31 - i)"
  using assms
proof (induction n arbitrary: x y x' y' s)
  case (Suc n)
  obtain d t where st: "hilbert_step s (bit x 31) (bit y 31) = (d, t)" by fastforce
  obtain d' t' where st': "hilbert_step s (bit x' 31) (bit y' 31) = (d', t')" by fastforce
  let ?h = "hilbert_number n (push_bit 1 x) (push_bit 1 y) t" and ?h' = "hilbert_number n (push_bit 1 x') (push_bit 1 y') t'"
  have eq: "d * 4 ^ n + ?h = d' * 4 ^ n + ?h'" using Suc.prems(2) st st' by simp
  have lt: "?h < 4 ^ n" "?h' < 4 ^ n" by (rule hilbert_number_less)+
  from arg_cong [OF eq, of "\<lambda>z. z div 4 ^ n"] lt have dd: "d = d'" by simp
  then have b: "bit x 31 = bit x' 31 \<and> bit y 31 = bit y' 31" using step_inj [of s "bit x 31" "bit y 31" "bit x' 31" "bit y' 31"] st st' by simp
  then have "t = t'" using st st' by simp
  then have ih: "\<forall>i<n. bit (push_bit 1 x) (31 - i) = bit (push_bit 1 x') (31 - i) \<and> bit (push_bit 1 y) (31 - i) = bit (push_bit 1 y') (31 - i)"
    using Suc.IH [of "push_bit 1 x" "push_bit 1 y" t "push_bit 1 x'" "push_bit 1 y'"] Suc.prems(1) eq dd by simp
  show ?case
  proof (intro allI impI)
    fix i assume "i < Suc n"
    then show "bit x (31 - i) = bit x' (31 - i) \<and> bit y (31 - i) = bit y' (31 - i)"
    proof (cases i)
      case (Suc j)
      then have j: "j < n" "1 \<le> 31 - j" "31 - j - 1 = 31 - i" using \<open>i < Suc n\<close> Suc.prems(1) by simp_all
      then have "bit (push_bit 1 z) (31 - j) = bit z (31 - i)" for z :: "32 word" by (subst bit_push_bit_iff) (simp add: less_imp_diff_less)
      then show ?thesis using ih [rule_format, OF j(1)] by (simp only:)
    qed (use b in simp)
  qed
qed simp

section \<open>Properties\<close>

text \<open>
  C40.  The Hilbert code.  The loop over the packed tables computes the base-4 number that the state machine
  of the table emits, and two points have the same code only if they are equal.
\<close>

theorem HilbertToLinear_injective:
  "unat (HilbertToLinear x y) = hilbert_number 32 x y StateA \<and> (HilbertToLinear x y = HilbertToLinear x' y' \<longleftrightarrow> x = x' \<and> y = y')"
proof
  have n: "unat (HilbertToLinear x y) = hilbert_number 32 x y StateA" for x y
    using hilbert_loop_number [of 0 32 x y StateA] by (simp add: HilbertToLinear_def)
  then show "unat (HilbertToLinear x y) = hilbert_number 32 x y StateA" .
  have "x = x' \<and> y = y'" if "HilbertToLinear x y = HilbertToLinear x' y'"
  proof -
    have "hilbert_number 32 x y StateA = hilbert_number 32 x' y' StateA" using that n by metis
    from hilbert_number_inj [OF order_refl this] have b: "\<forall>i<32. bit x (31 - i) = bit x' (31 - i) \<and> bit y (31 - i) = bit y' (31 - i)" .
    have "bit x i = bit x' i \<and> bit y i = bit y' i" if "i < 32" for i
      using b [rule_format, of "31 - i"] that by simp
    then show ?thesis by (auto intro!: bit_word_eqI)
  qed
  then show "HilbertToLinear x y = HilbertToLinear x' y' \<longleftrightarrow> x = x' \<and> y = y'" by blast
qed

end
