(* ===== verification/Static_RTree.thy ===== *)
theory Static_RTree
  imports Plugin_Base Hilbert_Code
begin

text \<open>
  \<^verbatim>\<open>include/util/static_rtree.hpp\<close> and \<^verbatim>\<open>include/util/rectangle.hpp\<close>: the packed R-tree over the road segments and its
  two searches.  The levels of the tree lie in one vector, the root first; \<^verbatim>\<open>child_indexes\<close> finds the
  children of a node by arithmetic.  The mercator projection of a latitude, which uses trigonometric
  functions, is the argument \<open>merc\<close>; \<^verbatim>\<open>tbb::parallel_sort\<close> is the argument \<open>parallel_sort\<close> of the constructor, as
  the order of objects with the same Hilbert code is unspecified.  The template arguments are fields of the tree.  \<^term>\<open>None\<close> is undefined
  behaviour: an index outside of a vector or an overflow.
\<close>

section \<open>Rectangles\<close>

record RectangleInt2D =
  min_lon :: int
  max_lon :: int
  min_lat :: int
  max_lat :: int

definition RectangleInt2D_default :: RectangleInt2D where
  "RectangleInt2D_default = \<lparr>min_lon = 2147483647, max_lon = - 2147483648, min_lat = 2147483647, max_lat = - 2147483648\<rparr>"

definition MergeBoundingBoxes :: "RectangleInt2D \<Rightarrow> RectangleInt2D \<Rightarrow> RectangleInt2D" where
  "MergeBoundingBoxes r other =
     \<lparr>min_lon = min (min_lon r) (min_lon other), max_lon = max (max_lon r) (max_lon other),
      min_lat = min (min_lat r) (min_lat other), max_lat = max (max_lat r) (max_lat other)\<rparr>"

definition Intersects :: "RectangleInt2D \<Rightarrow> RectangleInt2D \<Rightarrow> bool" where
  "Intersects r other \<longleftrightarrow> \<not> (max_lon r < min_lon other \<or> min_lon r > max_lon other \<or>
     max_lat r < min_lat other \<or> min_lat r > max_lat other)"

definition rect_Contains :: "RectangleInt2D \<Rightarrow> Coordinate \<Rightarrow> bool" where
  "rect_Contains r loc \<longleftrightarrow> crd_lon loc \<ge> min_lon r \<and> crd_lon loc \<le> max_lon r \<and>
     crd_lat loc \<ge> min_lat r \<and> crd_lat loc \<le> max_lat r"

text \<open>The difference of two \<^verbatim>\<open>int32_t\<close> values may overflow, and so may the sum of two squares in \<^verbatim>\<open>int64_t\<close>.\<close>

definition squaredEuclideanDistance :: "Coordinate \<Rightarrow> Coordinate \<Rightarrow> int option" where
  "squaredEuclideanDistance lhs rhs = do {
     d_lon \<leftarrow> i32_sub (crd_lon lhs) (crd_lon rhs);
     d_lat \<leftarrow> i32_sub (crd_lat lhs) (crd_lat rhs);
     i64_add (d_lon * d_lon) (d_lat * d_lat)
   }"

definition direction :: "RectangleInt2D \<Rightarrow> Coordinate \<Rightarrow> nat" where
  "direction r loc =
     (if crd_lat loc > max_lat r then 1 else if crd_lat loc < min_lat r then 2 else 0) +
     (if crd_lon loc > max_lon r then 4 else if crd_lon loc < min_lon r then 8 else 0)"

definition GetMinSquaredDist :: "RectangleInt2D \<Rightarrow> Coordinate \<Rightarrow> int option" where
  "GetMinSquaredDist r loc =
     (if rect_Contains r loc then Some 0
      else let d = direction r loc; to = (\<lambda>lon lat. squaredEuclideanDistance loc \<lparr>crd_lon = lon, crd_lat = lat\<rparr>) in
        if d = 1 then to (crd_lon loc) (max_lat r)
        else if d = 2 then to (crd_lon loc) (min_lat r)
        else if d = 8 then to (min_lon r) (crd_lat loc)
        else if d = 4 then to (max_lon r) (crd_lat loc)
        else if d = 5 then to (max_lon r) (max_lat r)
        else if d = 9 then to (min_lon r) (max_lat r)
        else if d = 6 then to (max_lon r) (min_lat r)
        else if d = 10 then to (min_lon r) (min_lat r)
        else Some (2 ^ 64 - 1))"

section \<open>Objects and the tree\<close>

record EdgeBasedNodeSegment =
  ebn_forward_segment_id :: SegmentID
  ebn_reverse_segment_id :: SegmentID
  ebn_u :: nat
  ebn_v :: nat
  ebn_fwd_segment_position :: nat
  is_startpoint :: bool

record StaticRTree =
  BRANCHING_FACTOR :: nat
  LEAF_NODE_SIZE :: nat
  m_search_tree :: "RectangleInt2D list"
  m_tree_level_starts :: "nat list"
  m_objects :: "EdgeBasedNodeSegment list"
  m_coordinate_list :: "Coordinate list"

record CandidateSegment =
  fixed_projected_coordinate :: Coordinate
  cand_data :: EdgeBasedNodeSegment

text \<open>The functions of \<^verbatim>\<open>include/util/web_mercator.hpp\<close> that are not rational, in degrees.\<close>

record Mercator =
  latToY :: "fp \<Rightarrow> fp"
  latToYapprox :: "fp \<Rightarrow> fp"
  yToLat :: "fp \<Rightarrow> fp"

definition fromWGS84 :: "Mercator \<Rightarrow> FloatCoordinate \<Rightarrow> FloatCoordinate" where
  "fromWGS84 merc c = \<lparr>fcrd_lon = fcrd_lon c, fcrd_lat = latToYapprox merc (fcrd_lat c)\<rparr>"

definition project :: "Mercator \<Rightarrow> Coordinate \<Rightarrow> FloatCoordinate" where
  "project merc c = fromWGS84 merc (FloatCoordinate_of_fixed c)"

definition vector_at :: "'a list \<Rightarrow> nat \<Rightarrow> 'a option" where
  "vector_at xs i = (if i < length xs then Some (xs ! i) else None)"

section \<open>Construction\<close>

record WrappedInputElement =
  m_hilbert_value :: "64 word"
  m_original_index :: nat

text \<open>The division truncates.\<close>

definition centroid :: "Coordinate \<Rightarrow> Coordinate \<Rightarrow> Coordinate option" where
  "centroid lhs rhs = do {
     lon \<leftarrow> i32_add (crd_lon lhs) (crd_lon rhs);
     lat \<leftarrow> i32_add (crd_lat lhs) (crd_lat rhs);
     Some \<lparr>crd_lon = trunc (of_int lon / 2), crd_lat = trunc (of_int lat / 2)\<rparr>
   }"

definition wrap_element :: "Mercator \<Rightarrow> Coordinate list \<Rightarrow> EdgeBasedNodeSegment list \<Rightarrow> nat \<Rightarrow> WrappedInputElement option" where
  "wrap_element merc coordinates input i = do {
     element \<leftarrow> vector_at input i;
     cu \<leftarrow> vector_at coordinates (ebn_u element);
     cv \<leftarrow> vector_at coordinates (ebn_v element);
     current_centroid \<leftarrow> centroid cu cv;
     lat \<leftarrow> fp_to_i32 (fp_mul (Fin 1000000) (latToY merc (toFloating (crd_lat current_centroid))));
     code \<leftarrow> GetHilbertCode (current_centroid\<lparr>crd_lat := lat\<rparr>);
     Some \<lparr>m_hilbert_value = code, m_original_index = i\<rparr>
   }"

text \<open>The bounding box of an object.\<close>

definition object_rectangle :: "Mercator \<Rightarrow> Coordinate list \<Rightarrow> EdgeBasedNodeSegment \<Rightarrow> RectangleInt2D option" where
  "object_rectangle merc coordinates object = do {
     cu \<leftarrow> vector_at coordinates (ebn_u object);
     cv \<leftarrow> vector_at coordinates (ebn_v object);
     pu \<leftarrow> Coordinate_of_float (project merc cu);
     pv \<leftarrow> Coordinate_of_float (project merc cv);
     let r = RectangleInt2D_default
     in Some \<lparr>min_lon = min (min_lon r) (min (crd_lon pu) (crd_lon pv)), max_lon = max (max_lon r) (max (crd_lon pu) (crd_lon pv)),
          min_lat = min (min_lat r) (min (crd_lat pu) (crd_lat pv)), max_lat = max (max_lat r) (max (crd_lat pu) (crd_lat pv))\<rparr>
   }"

text \<open>The inner loop of the first level: one node for the next objects, at most \<open>n\<close>.\<close>

fun leaf_node :: "Mercator \<Rightarrow> Coordinate list \<Rightarrow> nat \<Rightarrow> RectangleInt2D \<Rightarrow> EdgeBasedNodeSegment list
    \<Rightarrow> (RectangleInt2D \<times> EdgeBasedNodeSegment list) option" where
  "leaf_node merc coordinates (Suc n) current_node (object # objects) = do {
     rectangle \<leftarrow> object_rectangle merc coordinates object;
     leaf_node merc coordinates n (MergeBoundingBoxes current_node rectangle) objects
   }"
| "leaf_node merc coordinates n current_node objects = Some (current_node, objects)"

partial_function (option) leaf_level :: "Mercator \<Rightarrow> Coordinate list \<Rightarrow> nat \<Rightarrow> EdgeBasedNodeSegment list
    \<Rightarrow> RectangleInt2D list \<Rightarrow> RectangleInt2D list option" where
  "leaf_level merc coordinates leaf_size objects search_tree =
     (if objects = [] then Some search_tree
      else do {
        (node, rest) \<leftarrow> leaf_node merc coordinates leaf_size RectangleInt2D_default objects;
        leaf_level merc coordinates leaf_size rest (search_tree @ [node])
      })"

text \<open>The nodes of the next level: the merged boxes of at most \<open>B\<close> nodes each.\<close>

definition parent_node :: "nat \<Rightarrow> RectangleInt2D list \<Rightarrow> nat \<Rightarrow> nat \<Rightarrow> nat \<Rightarrow> RectangleInt2D" where
  "parent_node B search_tree previous_start nodes_in_previous_level current_node_idx =
     (let first_child_index = current_node_idx * B + previous_start;
          last_child_index = first_child_index + min B (nodes_in_previous_level - current_node_idx * B)
      in fold (\<lambda>child r. MergeBoundingBoxes r (search_tree ! child)) [first_child_index..<last_child_index] RectangleInt2D_default)"

definition ceil_div :: "nat \<Rightarrow> nat \<Rightarrow> nat" where
  "ceil_div n d = nat \<lceil>of_nat n / of_nat d :: rat\<rceil>"

partial_function (option) upper_levels :: "nat \<Rightarrow> RectangleInt2D list \<Rightarrow> nat \<Rightarrow> nat list \<Rightarrow> (RectangleInt2D list \<times> nat list) option" where
  "upper_levels B search_tree nodes_in_previous_level tree_level_sizes =
     (if nodes_in_previous_level > 1 then
        let previous_start = length search_tree - nodes_in_previous_level;
            nodes_in_current_level = ceil_div nodes_in_previous_level B
        in upper_levels B
             (search_tree @ map (parent_node B search_tree previous_start nodes_in_previous_level) [0..<nodes_in_current_level])
             nodes_in_current_level (tree_level_sizes @ [nodes_in_current_level])
      else Some (search_tree, tree_level_sizes))"

fun partial_sum :: "nat \<Rightarrow> nat list \<Rightarrow> nat list" where
  "partial_sum acc [] = []"
| "partial_sum acc (n # ns) = (acc + n) # partial_sum (acc + n) ns"

text \<open>\<^verbatim>\<open>std::reverse\<close> on the part of a vector that starts at \<open>i\<close> and has \<open>n\<close> elements.\<close>

definition reverse_part :: "nat \<Rightarrow> nat \<Rightarrow> 'a list \<Rightarrow> 'a list" where
  "reverse_part i n xs = take i xs @ rev (take n (drop i xs)) @ drop (i + n) xs"

type_synonym parallel_sort = "WrappedInputElement list \<Rightarrow> WrappedInputElement list"

definition StaticRTree_make :: "Mercator \<Rightarrow> parallel_sort \<Rightarrow> nat \<Rightarrow> nat \<Rightarrow> EdgeBasedNodeSegment list \<Rightarrow> Coordinate list \<Rightarrow> StaticRTree option" where
  "StaticRTree_make merc parallel_sort branching_factor leaf_node_size input coordinates = do {
     wrapped \<leftarrow> those (map (wrap_element merc coordinates input) [0..<length input]);
     objects \<leftarrow> those (map (\<lambda>w. vector_at input (m_original_index w)) (parallel_sort wrapped));
     leaves \<leftarrow> leaf_level merc coordinates leaf_node_size objects [];
     (tree, sizes) \<leftarrow> upper_levels branching_factor leaves (length leaves) [length leaves];
     let tree = rev tree; sizes = rev sizes; starts = 0 # partial_sum 0 sizes;
         tree = fold (\<lambda>i t. reverse_part (starts ! i) (sizes ! i) t) [0..<length sizes] tree
     in Some \<lparr>BRANCHING_FACTOR = branching_factor, LEAF_NODE_SIZE = leaf_node_size, m_search_tree = tree,
          m_tree_level_starts = starts, m_objects = objects, m_coordinate_list = coordinates\<rparr>
   }"

section \<open>Navigation\<close>

type_synonym TreeIndex = "nat \<times> nat"

definition GetLevelSize :: "StaticRTree \<Rightarrow> nat \<Rightarrow> nat" where
  "GetLevelSize t level = m_tree_level_starts t ! (level + 1) - m_tree_level_starts t ! level"

definition is_leaf :: "StaticRTree \<Rightarrow> TreeIndex \<Rightarrow> bool" where
  "is_leaf t treeindex \<longleftrightarrow> fst treeindex = length (m_tree_level_starts t) - 2"

text \<open>The products of \<^verbatim>\<open>uint32_t\<close> values wrap around.\<close>

definition child_indexes :: "StaticRTree \<Rightarrow> TreeIndex \<Rightarrow> nat list" where
  "child_indexes t parent =
     (if is_leaf t parent then
        let first = (snd parent * LEAF_NODE_SIZE t) mod 2 ^ 32 in [first..<min (first + LEAF_NODE_SIZE t) (length (m_objects t))]
      else
        let start = m_tree_level_starts t ! (fst parent + 1); first = start + (snd parent * BRANCHING_FACTOR t) mod 2 ^ 32
        in [first..<min (first + BRANCHING_FACTOR t) (start + GetLevelSize t (fst parent + 1))])"

section \<open>Nearest segments\<close>

record QueryCandidate =
  squared_min_dist :: int
  tree_index :: TreeIndex
  qc_coordinate :: Coordinate
  segment_index :: nat

definition no_segment :: nat where
  "no_segment = 4294967295"

definition is_segment :: "QueryCandidate \<Rightarrow> bool" where
  "is_segment q \<longleftrightarrow> segment_index q \<noteq> no_segment"

definition QueryCandidate_node :: "int \<Rightarrow> TreeIndex \<Rightarrow> QueryCandidate" where
  "QueryCandidate_node dst i = \<lparr>squared_min_dist = dst, tree_index = i,
     qc_coordinate = \<lparr>crd_lon = - 2147483648, crd_lat = - 2147483648\<rparr>, segment_index = no_segment\<rparr>"

definition fp_sub :: "fp \<Rightarrow> fp \<Rightarrow> fp" where
  "fp_sub x y = fp_add x (fp_mul (Fin (- 1)) y)"

definition projectPointOnSegment :: "FloatCoordinate \<Rightarrow> FloatCoordinate \<Rightarrow> FloatCoordinate \<Rightarrow> fp \<times> FloatCoordinate" where
  "projectPointOnSegment source target coordinate =
     (let slope_lon = fp_sub (fcrd_lon target) (fcrd_lon source); slope_lat = fp_sub (fcrd_lat target) (fcrd_lat source);
          rel_lon = fp_sub (fcrd_lon coordinate) (fcrd_lon source); rel_lat = fp_sub (fcrd_lat coordinate) (fcrd_lat source);
          unnormed_ratio = fp_add (fp_mul slope_lon rel_lon) (fp_mul slope_lat rel_lat);
          squared_length = fp_add (fp_mul slope_lon slope_lon) (fp_mul slope_lat slope_lat)
      in if fp_less squared_length (Fin (1 / 2 ^ 52)) then (Fin 0, source)
         else let normed_ratio = fp_div unnormed_ratio squared_length;
                  clamped = (if fp_less (Fin 1) normed_ratio then Fin 1 else if fp_less normed_ratio (Fin 0) then Fin 0 else normed_ratio)
              in (clamped, \<lparr>fcrd_lon = fp_add (fp_mul (fp_sub (Fin 1) clamped) (fcrd_lon source)) (fp_mul (fcrd_lon target) clamped),
                    fcrd_lat = fp_add (fp_mul (fp_sub (Fin 1) clamped) (fcrd_lat source)) (fp_mul (fcrd_lat target) clamped)\<rparr>))"

definition leaf_candidate :: "Mercator \<Rightarrow> StaticRTree \<Rightarrow> TreeIndex \<Rightarrow> Coordinate \<Rightarrow> FloatCoordinate \<Rightarrow> nat \<Rightarrow> QueryCandidate option" where
  "leaf_candidate merc t leaf_id fixed projected i = do {
     edge \<leftarrow> vector_at (m_objects t) i;
     cu \<leftarrow> vector_at (m_coordinate_list t) (ebn_u edge);
     cv \<leftarrow> vector_at (m_coordinate_list t) (ebn_v edge);
     nearest \<leftarrow> Coordinate_of_float (snd (projectPointOnSegment (project merc cu) (project merc cv) projected));
     squared_distance \<leftarrow> squaredEuclideanDistance fixed nearest;
     Some \<lparr>squared_min_dist = squared_distance, tree_index = leaf_id, qc_coordinate = nearest, segment_index = i mod 2 ^ 32\<rparr>
   }"

definition ExploreLeafNode :: "Mercator \<Rightarrow> StaticRTree \<Rightarrow> TreeIndex \<Rightarrow> Coordinate \<Rightarrow> FloatCoordinate \<Rightarrow> QueryCandidate list option" where
  "ExploreLeafNode merc t leaf_id fixed projected = those (map (leaf_candidate merc t leaf_id fixed projected) (child_indexes t leaf_id))"

definition child_candidate :: "StaticRTree \<Rightarrow> TreeIndex \<Rightarrow> Coordinate \<Rightarrow> nat \<Rightarrow> QueryCandidate option" where
  "child_candidate t parent fixed child_index = do {
     child \<leftarrow> vector_at (m_search_tree t) child_index;
     bound \<leftarrow> GetMinSquaredDist child fixed;
     Some (QueryCandidate_node bound (fst parent + 1, child_index - m_tree_level_starts t ! (fst parent + 1)))
   }"

definition ExploreTreeNode :: "StaticRTree \<Rightarrow> TreeIndex \<Rightarrow> Coordinate \<Rightarrow> QueryCandidate list option" where
  "ExploreTreeNode t parent fixed = those (map (child_candidate t parent fixed) (child_indexes t parent))"

text \<open>
  The search takes a filter and a termination test; both may read and change variables they captured,
  which are a state here.  \<open>pop\<close> is \<^verbatim>\<open>top\<close> and \<^verbatim>\<open>pop\<close> of \<^verbatim>\<open>std::priority_queue\<close>: which one of several
  equally close candidates comes first is unspecified.
\<close>

type_synonym 's filter_fun = "CandidateSegment \<Rightarrow> 's \<Rightarrow> ((bool \<times> bool) \<times> 's) option"
type_synonym 's terminate_fun = "nat \<Rightarrow> CandidateSegment \<Rightarrow> 's \<Rightarrow> bool option"
type_synonym pq_pop = "QueryCandidate list \<Rightarrow> QueryCandidate \<times> QueryCandidate list"

definition restrict_enabled :: "bool \<times> bool \<Rightarrow> CandidateSegment \<Rightarrow> CandidateSegment" where
  "restrict_enabled use c = c\<lparr>cand_data := (cand_data c)
     \<lparr>ebn_forward_segment_id := (ebn_forward_segment_id (cand_data c))\<lparr>enabled := enabled (ebn_forward_segment_id (cand_data c)) \<and> fst use\<rparr>,
      ebn_reverse_segment_id := (ebn_reverse_segment_id (cand_data c))\<lparr>enabled := enabled (ebn_reverse_segment_id (cand_data c)) \<and> snd use\<rparr>\<rparr>\<rparr>"

partial_function (option) nearest_loop :: "Mercator \<Rightarrow> pq_pop \<Rightarrow> StaticRTree \<Rightarrow> Coordinate \<Rightarrow> FloatCoordinate \<Rightarrow> 's filter_fun \<Rightarrow> 's terminate_fun
    \<Rightarrow> QueryCandidate list \<Rightarrow> CandidateSegment list \<Rightarrow> 's \<Rightarrow> (CandidateSegment list \<times> 's) option" where
  "nearest_loop merc pop t fixed projected flt terminate queue results s =
     (if queue = [] then Some (results, s)
      else case pop queue of (current, queue') \<Rightarrow>
        if \<not> is_segment current then do {
          children \<leftarrow> (if is_leaf t (tree_index current)
                       then ExploreLeafNode merc t (tree_index current) fixed projected
                       else ExploreTreeNode t (tree_index current) fixed);
          nearest_loop merc pop t fixed projected flt terminate (queue' @ children) results s
        } else do {
          edge_data \<leftarrow> vector_at (m_objects t) (segment_index current);
          let candidate = \<lparr>fixed_projected_coordinate = qc_coordinate current, cand_data = edge_data\<rparr>;
          stop \<leftarrow> terminate (length results) candidate s;
          if stop then Some (results, s)
          else do {
            (use, s') \<leftarrow> flt candidate s;
            nearest_loop merc pop t fixed projected flt terminate queue'
              (if \<not> fst use \<and> \<not> snd use then results else results @ [restrict_enabled use candidate]) s'
          }
        })"

definition Nearest :: "Mercator \<Rightarrow> pq_pop \<Rightarrow> StaticRTree \<Rightarrow> Coordinate \<Rightarrow> 's filter_fun \<Rightarrow> 's terminate_fun \<Rightarrow> 's
    \<Rightarrow> (CandidateSegment list \<times> 's) option" where
  "Nearest merc pop t input_coordinate flt terminate s = do {
     let projected = project merc input_coordinate;
     fixed \<leftarrow> Coordinate_of_float projected;
     nearest_loop merc pop t fixed projected flt terminate [QueryCandidate_node 0 (0, 0)] [] s
   }"

definition Nearest_count :: "Mercator \<Rightarrow> pq_pop \<Rightarrow> StaticRTree \<Rightarrow> Coordinate \<Rightarrow> nat \<Rightarrow> CandidateSegment list option" where
  "Nearest_count merc pop t input_coordinate max_results =
     map_option fst (Nearest merc pop t input_coordinate (\<lambda>c s. Some ((True, True), s)) (\<lambda>num_results c s. Some (num_results \<ge> max_results)) ())"

section \<open>Segments in a box\<close>

definition edge_bbox :: "StaticRTree \<Rightarrow> EdgeBasedNodeSegment \<Rightarrow> RectangleInt2D option" where
  "edge_bbox t edge = do {
     cu \<leftarrow> vector_at (m_coordinate_list t) (ebn_u edge);
     cv \<leftarrow> vector_at (m_coordinate_list t) (ebn_v edge);
     Some \<lparr>min_lon = min (crd_lon cu) (crd_lon cv), max_lon = max (crd_lon cu) (crd_lon cv),
       min_lat = min (crd_lat cu) (crd_lat cv), max_lat = max (crd_lat cu) (crd_lat cv)\<rparr>
   }"

fun search_objects :: "StaticRTree \<Rightarrow> RectangleInt2D \<Rightarrow> nat list \<Rightarrow> EdgeBasedNodeSegment list \<Rightarrow> EdgeBasedNodeSegment list option" where
  "search_objects t search_rectangle [] results = Some results"
| "search_objects t search_rectangle (i # is) results = do {
     edge \<leftarrow> vector_at (m_objects t) i;
     bbox \<leftarrow> edge_bbox t edge;
     search_objects t search_rectangle is (if Intersects bbox search_rectangle then results @ [edge] else results)
   }"

fun search_children :: "StaticRTree \<Rightarrow> RectangleInt2D \<Rightarrow> nat \<Rightarrow> nat list \<Rightarrow> TreeIndex list \<Rightarrow> TreeIndex list option" where
  "search_children t projected_rectangle level [] queue = Some queue"
| "search_children t projected_rectangle level (i # is) queue = do {
     child \<leftarrow> vector_at (m_search_tree t) i;
     search_children t projected_rectangle level is
       (if Intersects child projected_rectangle then queue @ [(level + 1, i - m_tree_level_starts t ! (level + 1))] else queue)
   }"

partial_function (option) search_loop :: "StaticRTree \<Rightarrow> RectangleInt2D \<Rightarrow> RectangleInt2D \<Rightarrow> TreeIndex list
    \<Rightarrow> EdgeBasedNodeSegment list \<Rightarrow> EdgeBasedNodeSegment list option" where
  "search_loop t search_rectangle projected_rectangle queue results =
     (case queue of [] \<Rightarrow> Some results
      | current # queue' \<Rightarrow>
          if is_leaf t current then do {
            results' \<leftarrow> search_objects t search_rectangle (child_indexes t current) results;
            search_loop t search_rectangle projected_rectangle queue' results'
          } else do {
            queue'' \<leftarrow> search_children t projected_rectangle (fst current) (child_indexes t current) queue';
            search_loop t search_rectangle projected_rectangle queue'' results
          })"

text \<open>The latitudes of the box go through \<^verbatim>\<open>latToY\<close>, those of the tree through \<^verbatim>\<open>latToYapprox\<close>.\<close>

definition SearchInBox :: "Mercator \<Rightarrow> StaticRTree \<Rightarrow> RectangleInt2D \<Rightarrow> EdgeBasedNodeSegment list option" where
  "SearchInBox merc t search_rectangle = do {
     lo \<leftarrow> toFixed (latToY merc (toFloating (min_lat search_rectangle)));
     hi \<leftarrow> toFixed (latToY merc (toFloating (max_lat search_rectangle)));
     search_loop t search_rectangle
       \<lparr>min_lon = min_lon search_rectangle, max_lon = max_lon search_rectangle, min_lat = lo, max_lat = hi\<rparr> [(0, 0)] []
   }"

section \<open>Boxes and distances\<close>

definition point_ok :: "Coordinate \<Rightarrow> bool" where
  "point_ok p \<longleftrightarrow> \<bar>crd_lon p\<bar> \<le> 180000000 \<and> \<bar>crd_lat p\<bar> \<le> 180000000"

definition rect_ok :: "RectangleInt2D \<Rightarrow> bool" where
  "rect_ok r \<longleftrightarrow> \<bar>min_lon r\<bar> \<le> 180000000 \<and> \<bar>max_lon r\<bar> \<le> 180000000 \<and> \<bar>min_lat r\<bar> \<le> 180000000 \<and> \<bar>max_lat r\<bar> \<le> 180000000"

definition rect_le :: "RectangleInt2D \<Rightarrow> RectangleInt2D \<Rightarrow> bool" where
  "rect_le r s \<longleftrightarrow> min_lon s \<le> min_lon r \<and> max_lon r \<le> max_lon s \<and> min_lat s \<le> min_lat r \<and> max_lat r \<le> max_lat s"

definition sq_dist :: "Coordinate \<Rightarrow> Coordinate \<Rightarrow> int" where
  "sq_dist p q = (crd_lon p - crd_lon q)\<^sup>2 + (crd_lat p - crd_lat q)\<^sup>2"

lemma sq_bound: "\<bar>x\<bar> \<le> 360000000 \<Longrightarrow> x * x \<le> 129600000000000000" for x :: int
  using mult_mono [of "\<bar>x\<bar>" 360000000 "\<bar>x\<bar>" 360000000] by simp

lemma squaredEuclideanDistance_eq:
  assumes "point_ok p" "point_ok q"
  shows "squaredEuclideanDistance p q = Some (sq_dist p q)"
proof -
  have b: "\<bar>crd_lon p - crd_lon q\<bar> \<le> 360000000" "\<bar>crd_lat p - crd_lat q\<bar> \<le> 360000000"
    using assms by (auto simp: point_ok_def)
  from sq_bound [OF b(1)] sq_bound [OF b(2)] b show ?thesis
    by (auto simp: squaredEuclideanDistance_def i32_sub_def in_i32_def i64_add_def in_i64_bounds sq_dist_def power2_eq_square)
      (smt (verit) zero_le_square)+
qed

text \<open>The distance from a coordinate to an interval.\<close>

definition axis_gap :: "int \<Rightarrow> int \<Rightarrow> int \<Rightarrow> int" where
  "axis_gap lo hi x = (if x > hi then x - hi else if x < lo then lo - x else 0)"

lemma GetMinSquaredDist_eq:
  assumes "point_ok p" "rect_ok r"
  shows "GetMinSquaredDist r p = Some ((axis_gap (min_lon r) (max_lon r) (crd_lon p))\<^sup>2 + (axis_gap (min_lat r) (max_lat r) (crd_lat p))\<^sup>2)"
proof -
  have ok: "point_ok \<lparr>crd_lon = lon, crd_lat = lat\<rparr>" if "lon \<in> {crd_lon p, min_lon r, max_lon r}" "lat \<in> {crd_lat p, min_lat r, max_lat r}" for lon lat
    using that assms by (auto simp: point_ok_def rect_ok_def)
  show ?thesis
    by (auto simp: GetMinSquaredDist_def Let_def squaredEuclideanDistance_eq [OF assms(1) ok] direction_def axis_gap_def
        rect_Contains_def sq_dist_def power2_commute)
qed

lemma axis_gap_le: "lo \<le> q \<Longrightarrow> q \<le> hi \<Longrightarrow> (axis_gap lo hi x)\<^sup>2 \<le> (x - q)\<^sup>2"
  by (subst abs_le_square_iff [symmetric]) (auto simp: axis_gap_def)

lemma GetMinSquaredDist_bound:
  assumes "point_ok p" "rect_ok r" "rect_Contains r q"
  shows "\<exists>d. GetMinSquaredDist r p = Some d \<and> d \<le> sq_dist p q"
  using GetMinSquaredDist_eq [OF assms(1,2)] assms(3)
  by (auto simp: sq_dist_def rect_Contains_def intro!: add_mono axis_gap_le)

lemma rect_le_Contains: "rect_le r s \<Longrightarrow> rect_Contains r q \<Longrightarrow> rect_Contains s q"
  by (auto simp: rect_le_def rect_Contains_def)

lemma rect_le_refl [simp]: "rect_le r r"
  by (simp add: rect_le_def)

lemma rect_le_trans: "rect_le r s \<Longrightarrow> rect_le s t \<Longrightarrow> rect_le r t"
  by (auto simp: rect_le_def)

lemma merge_upper: "rect_le r (MergeBoundingBoxes r s)" "rect_le s (MergeBoundingBoxes r s)"
  by (auto simp: rect_le_def MergeBoundingBoxes_def)

lemma merge_ok: "rect_ok s \<Longrightarrow> r = RectangleInt2D_default \<or> rect_ok r \<Longrightarrow> rect_ok (MergeBoundingBoxes r s)"
  by (auto simp: rect_ok_def MergeBoundingBoxes_def RectangleInt2D_default_def min_def max_def)

lemma fold_merge:
  assumes "\<forall>i \<in> set is. rect_ok (f i)" "r = RectangleInt2D_default \<or> rect_ok r"
  shows "rect_le r (fold (\<lambda>i r. MergeBoundingBoxes r (f i)) is r)
    \<and> (\<forall>i \<in> set is. rect_le (f i) (fold (\<lambda>i r. MergeBoundingBoxes r (f i)) is r))
    \<and> (is \<noteq> [] \<or> rect_ok r \<longrightarrow> rect_ok (fold (\<lambda>i r. MergeBoundingBoxes r (f i)) is r))"
  using assms
proof (induction "is" arbitrary: r)
  case (Cons j js)
  have ok: "rect_ok (MergeBoundingBoxes r (f j))" using Cons.prems merge_ok by (metis list.set_intros(1))
  let ?r = "fold (\<lambda>i r. MergeBoundingBoxes r (f i)) js (MergeBoundingBoxes r (f j))"
  have ih: "rect_le (MergeBoundingBoxes r (f j)) ?r" "\<forall>i \<in> set js. rect_le (f i) ?r" "rect_ok ?r"
    using Cons.IH [of "MergeBoundingBoxes r (f j)"] Cons.prems ok by auto
  then show ?case using rect_le_trans [OF merge_upper(1) ih(1)] rect_le_trans [OF merge_upper(2) ih(1)] by simp
qed auto

section \<open>The projection\<close>

text \<open>What the searches rely on of the projection: valid latitudes go to values of at most 180 degrees.\<close>

definition mercator_ok :: "Mercator \<Rightarrow> bool" where
  "mercator_ok merc \<longleftrightarrow> (\<forall>lat. \<bar>lat\<bar> \<le> 90 \<longrightarrow>
     (\<exists>y. latToYapprox merc (Fin lat) = Fin y \<and> \<bar>y\<bar> \<le> 180) \<and> (\<exists>y. latToY merc (Fin lat) = Fin y \<and> \<bar>y\<bar> \<le> 180))"

lemma round_away_mono_all: "a \<le> b \<Longrightarrow> round_away a \<le> round_away b"
  unfolding round_away_def by (auto simp: floor_mono ceiling_mono) linarith

lemma toFixed_Fin:
  assumes "\<bar>x\<bar> \<le> 180"
  shows "toFixed (Fin x) = Some (round_away (x * 1000000))" "\<bar>round_away (x * 1000000)\<bar> \<le> 180000000"
proof -
  have "in_range (- of_int 180) (of_int 180) (Fin x)" using assms by (auto simp: in_range_def)
  from toFixed_in_range [OF this] obtain i where "toFixed (Fin x) = Some i" "\<bar>i\<bar> \<le> 180000000" by auto
  moreover from this(1) have "i = round_away (x * 1000000)" by (auto simp: toFixed_def split: if_splits)
  ultimately show "toFixed (Fin x) = Some (round_away (x * 1000000))" "\<bar>round_away (x * 1000000)\<bar> \<le> 180000000" by simp_all
qed

definition float_ok :: "FloatCoordinate \<Rightarrow> rat \<Rightarrow> rat \<Rightarrow> bool" where
  "float_ok c lon lat \<longleftrightarrow> c = \<lparr>fcrd_lon = Fin lon, fcrd_lat = Fin lat\<rparr> \<and> \<bar>lon\<bar> \<le> 180 \<and> \<bar>lat\<bar> \<le> 180"

definition fixed_point :: "rat \<Rightarrow> rat \<Rightarrow> Coordinate" where
  "fixed_point lon lat = \<lparr>crd_lon = round_away (lon * 1000000), crd_lat = round_away (lat * 1000000)\<rparr>"

lemma float_ok_fixed: "float_ok c lon lat \<Longrightarrow> Coordinate_of_float c = Some (fixed_point lon lat) \<and> point_ok (fixed_point lon lat)"
  by (auto simp: float_ok_def Coordinate_of_float_def toFixed_Fin fixed_point_def point_ok_def)

lemma project_ok:
  assumes "mercator_ok merc" "Coordinate_IsValid c"
  obtains lon lat where "float_ok (project merc c) lon lat"
proof -
  have v: "\<bar>rat_of_int (crd_lon c) / 1000000\<bar> \<le> 180" "\<bar>rat_of_int (crd_lat c) / 1000000\<bar> \<le> 90"
    using assms(2) by (auto simp: Coordinate_IsValid_def abs_le_iff divide_le_eq field_simps)
  from assms(1) v(2) obtain y where "latToYapprox merc (Fin (rat_of_int (crd_lat c) / 1000000)) = Fin y" "\<bar>y\<bar> \<le> 180"
    unfolding mercator_ok_def by blast
  then show ?thesis using v(1)
    by (intro that [of "rat_of_int (crd_lon c) / 1000000" y])
      (simp add: float_ok_def project_def fromWGS84_def FloatCoordinate_of_fixed_def toFloating_def)
qed

lemma between_mix:
  fixes a b r :: rat
  assumes "0 \<le> r" "r \<le> 1"
  shows "min a b \<le> (1 - r) * a + b * r" "(1 - r) * a + b * r \<le> max a b"
proof -
  have "(1 - r) * min a b + r * min a b \<le> (1 - r) * a + r * b" "(1 - r) * a + r * b \<le> (1 - r) * max a b + r * max a b"
    using assms by (intro add_mono mult_left_mono; simp)+
  then show "min a b \<le> (1 - r) * a + b * r" "(1 - r) * a + b * r \<le> max a b" by (simp_all add: algebra_simps)
qed

lemma fp_sub_Fin [simp]: "fp_sub (Fin a) (Fin b) = Fin (a - b)"
  by (simp add: fp_sub_def)

lemma projectPointOnSegment_between:
  assumes "float_ok s slon slat" "float_ok t tlon tlat" "float_ok c clon clat"
  obtains r lon lat where "projectPointOnSegment s t c = (Fin r, \<lparr>fcrd_lon = Fin lon, fcrd_lat = Fin lat\<rparr>)"
    "0 \<le> r" "r \<le> 1" "min slon tlon \<le> lon" "lon \<le> max slon tlon" "min slat tlat \<le> lat" "lat \<le> max slat tlat"
proof -
  define len where "len = (tlon - slon) * (tlon - slon) + (tlat - slat) * (tlat - slat)"
  define n where "n = ((tlon - slon) * (clon - slon) + (tlat - slat) * (clat - slat)) / len"
  define r where "r = (if n > 1 then 1 else if n < 0 then 0 else n)"
  have r: "0 \<le> r" "r \<le> 1" by (auto simp: r_def)
  show ?thesis
  proof (cases "len < 1 / 2 ^ 52")
    case True
    then show ?thesis using assms
      by (intro that [of 0 slon slat]) (auto simp: projectPointOnSegment_def Let_def float_ok_def len_def)
  next
    case False
    then have "len \<noteq> 0" by auto
    then have "projectPointOnSegment s t c = (Fin r, \<lparr>fcrd_lon = Fin ((1 - r) * slon + tlon * r), fcrd_lat = Fin ((1 - r) * slat + tlat * r)\<rparr>)"
      using False assms by (simp add: projectPointOnSegment_def Let_def float_ok_def len_def [symmetric] n_def [symmetric] r_def)
    then show ?thesis using that r between_mix [OF r] by blast
  qed
qed

section \<open>Objects\<close>

definition object_ok :: "Coordinate list \<Rightarrow> EdgeBasedNodeSegment \<Rightarrow> bool" where
  "object_ok coordinates ob \<longleftrightarrow> ebn_u ob < length coordinates \<and> ebn_v ob < length coordinates"

text \<open>The point of an object next to a query, in fixed projected coordinates, and its bounding box.\<close>

definition object_point :: "Mercator \<Rightarrow> Coordinate list \<Rightarrow> Coordinate \<Rightarrow> EdgeBasedNodeSegment \<Rightarrow> Coordinate" where
  "object_point merc coordinates c ob = the (Coordinate_of_float (snd (projectPointOnSegment
     (project merc (coordinates ! ebn_u ob)) (project merc (coordinates ! ebn_v ob)) (project merc c))))"

definition object_box :: "Mercator \<Rightarrow> Coordinate list \<Rightarrow> EdgeBasedNodeSegment \<Rightarrow> RectangleInt2D" where
  "object_box merc coordinates ob = the (object_rectangle merc coordinates ob)"

lemma object_rectangle_eq:
  assumes "mercator_ok merc" "\<forall>c \<in> set coordinates. Coordinate_IsValid c" "object_ok coordinates ob"
  shows "object_rectangle merc coordinates ob = Some (object_box merc coordinates ob) \<and> rect_ok (object_box merc coordinates ob)"
proof -
  have v: "Coordinate_IsValid (coordinates ! ebn_u ob)" "Coordinate_IsValid (coordinates ! ebn_v ob)"
    using assms(2,3) by (auto simp: object_ok_def)
  from project_ok [OF assms(1) v(1)] obtain a b where u: "float_ok (project merc (coordinates ! ebn_u ob)) a b" .
  from project_ok [OF assms(1) v(2)] obtain c d where w: "float_ok (project merc (coordinates ! ebn_v ob)) c d" .
  show ?thesis using float_ok_fixed [OF u] float_ok_fixed [OF w] assms(3)
    by (auto simp: object_rectangle_def object_box_def vector_at_def object_ok_def Let_def rect_ok_def RectangleInt2D_default_def
        point_ok_def min_def max_def)
qed

lemma object_point_in_box:
  assumes "mercator_ok merc" "\<forall>c \<in> set coordinates. Coordinate_IsValid c" "object_ok coordinates ob" "Coordinate_IsValid c"
  shows "Coordinate_of_float (snd (projectPointOnSegment (project merc (coordinates ! ebn_u ob)) (project merc (coordinates ! ebn_v ob))
      (project merc c))) = Some (object_point merc coordinates c ob)"
    and "point_ok (object_point merc coordinates c ob)" "rect_Contains (object_box merc coordinates ob) (object_point merc coordinates c ob)"
proof -
  have v: "Coordinate_IsValid (coordinates ! ebn_u ob)" "Coordinate_IsValid (coordinates ! ebn_v ob)"
    using assms(2,3) by (auto simp: object_ok_def)
  from project_ok [OF assms(1) v(1)] obtain ulon ulat where u: "float_ok (project merc (coordinates ! ebn_u ob)) ulon ulat" .
  from project_ok [OF assms(1) v(2)] obtain vlon vlat where w: "float_ok (project merc (coordinates ! ebn_v ob)) vlon vlat" .
  from project_ok [OF assms(1,4)] obtain clon clat where c: "float_ok (project merc c) clon clat" .
  from projectPointOnSegment_between [OF u w c] obtain r lon lat where
    p: "projectPointOnSegment (project merc (coordinates ! ebn_u ob)) (project merc (coordinates ! ebn_v ob)) (project merc c) =
      (Fin r, \<lparr>fcrd_lon = Fin lon, fcrd_lat = Fin lat\<rparr>)" and
    b: "min ulon vlon \<le> lon" "lon \<le> max ulon vlon" "min ulat vlat \<le> lat" "lat \<le> max ulat vlat" .
  have f: "float_ok \<lparr>fcrd_lon = Fin lon, fcrd_lat = Fin lat\<rparr> lon lat"
    using b u w by (auto simp: float_ok_def abs_le_iff min_def max_def split: if_splits)
  from float_ok_fixed [OF f] p show e: "Coordinate_of_float (snd (projectPointOnSegment (project merc (coordinates ! ebn_u ob))
      (project merc (coordinates ! ebn_v ob)) (project merc c))) = Some (object_point merc coordinates c ob)"
    and "point_ok (object_point merc coordinates c ob)" by (simp_all add: object_point_def)
  have q: "object_point merc coordinates c ob = fixed_point lon lat" using e float_ok_fixed [OF f] p by simp
  have m: "round_away (a * 1000000) \<le> round_away (x * 1000000)" if "a \<le> x" for a x :: rat
    using that by (intro round_away_mono_all) simp
  have "min (round_away (ulon * 1000000)) (round_away (vlon * 1000000)) \<le> round_away (lon * 1000000)"
    "round_away (lon * 1000000) \<le> max (round_away (ulon * 1000000)) (round_away (vlon * 1000000))"
    "min (round_away (ulat * 1000000)) (round_away (vlat * 1000000)) \<le> round_away (lat * 1000000)"
    "round_away (lat * 1000000) \<le> max (round_away (ulat * 1000000)) (round_away (vlat * 1000000))"
    using b m by (auto simp: min_le_iff_disj le_max_iff_disj)
  then show "rect_Contains (object_box merc coordinates ob) (object_point merc coordinates c ob)"
    unfolding q using float_ok_fixed [OF u] float_ok_fixed [OF w] assms(3)
    by (auto simp: object_box_def object_rectangle_def vector_at_def object_ok_def Let_def rect_Contains_def fixed_point_def)
qed

section \<open>The levels\<close>

lemma ceil_div_less: "0 < d \<Longrightarrow> k < ceil_div n d \<longleftrightarrow> k * d < n"
proof -
  assume "0 < d"
  then have "k < ceil_div n d \<longleftrightarrow> int k < \<lceil>of_nat n / of_nat d :: rat\<rceil>" by (auto simp: ceil_div_def zless_nat_eq_int_zless)
  also have "\<dots> \<longleftrightarrow> of_nat k * of_nat d < (of_nat n :: rat)" using \<open>0 < d\<close> by (simp add: less_ceiling_iff less_divide_eq)
  also have "\<dots> \<longleftrightarrow> k * d < n" by (metis of_nat_less_iff of_nat_mult)
  finally show ?thesis .
qed

lemma ceil_div_decreases:
  assumes "2 \<le> d" "1 < n"
  shows "ceil_div n d < n"
proof (rule ccontr)
  assume "\<not> ceil_div n d < n"
  then have "n - 1 < ceil_div n d" using assms(2) by linarith
  then have "(n - 1) * d < n" using ceil_div_less assms(1) by simp
  moreover have "(n - 1) * 2 \<le> (n - 1) * d" using assms(1) by simp
  ultimately show False using assms(2) by linarith
qed

lemma ceil_div_ceil_div:
  assumes "0 < c" "0 < d"
  shows "ceil_div (ceil_div n c) d = ceil_div n (c * d)"
proof -
  have "k < ceil_div (ceil_div n c) d \<longleftrightarrow> k < ceil_div n (c * d)" for k
    using assms by (simp add: ceil_div_less ac_simps)
  from this [of "ceil_div n (c * d)"] this [of "ceil_div (ceil_div n c) d"] show ?thesis by simp
qed

text \<open>The boxes of a level, each for \<open>w\<close> of the \<open>n\<close> objects, whose own boxes are \<open>R\<close>.\<close>

definition covers :: "(nat \<Rightarrow> RectangleInt2D) \<Rightarrow> nat \<Rightarrow> nat \<Rightarrow> RectangleInt2D list \<Rightarrow> bool" where
  "covers R n w rects \<longleftrightarrow> (\<forall>j<length rects. rect_ok (rects ! j) \<and> (\<forall>i. j * w \<le> i \<and> i < (j + 1) * w \<and> i < n \<longrightarrow> rect_le (R i) (rects ! j)))"

lemma leaf_node_eq:
  assumes "\<forall>ob \<in> set objects. object_rectangle merc coordinates ob = Some (object_box merc coordinates ob)"
  shows "leaf_node merc coordinates k r objects =
    Some (fold (\<lambda>ob r. MergeBoundingBoxes r (object_box merc coordinates ob)) (take k objects) r, drop k objects)"
  using assms by (induction merc coordinates k r objects rule: leaf_node.induct) simp_all

lemma leaf_level_ok:
  assumes "\<forall>ob \<in> set objects. object_rectangle merc coordinates ob = Some (object_box merc coordinates ob) \<and> rect_ok (object_box merc coordinates ob)"
    and "0 < w" "covers (\<lambda>i. object_box merc coordinates (objects ! i)) (length objects) w acc"
    and "length acc = ceil_div (length objects) w \<or> length acc * w < length objects"
    and "rest = drop (length acc * w) objects"
  shows "\<exists>leaves. leaf_level merc coordinates w rest acc = Some leaves \<and> length leaves = ceil_div (length objects) w
    \<and> covers (\<lambda>i. object_box merc coordinates (objects ! i)) (length objects) w leaves"
  using assms(3-5)
proof (induction "length rest" arbitrary: rest acc rule: less_induct)
  case less
  let ?n = "length objects" and ?k = "length acc" and ?R = "\<lambda>i. object_box merc coordinates (objects ! i)"
  show ?case
  proof (cases "?k * w < ?n")
    case False
    then have "rest = []" "?k = ceil_div ?n w" using less.prems(2,3) by auto
    then show ?thesis using less.prems(1) by (subst leaf_level.simps) simp
  next
    case True
    let ?f = "\<lambda>ob r. MergeBoundingBoxes r (object_box merc coordinates ob)"
    let ?node = "fold ?f (take w rest) RectangleInt2D_default"
    have "rest \<noteq> []" using True less.prems(3) by simp
    have rest: "set rest \<subseteq> set objects" using less.prems(3) set_drop_subset by metis
    have "leaf_node merc coordinates w RectangleInt2D_default rest = Some (?node, drop w rest)"
      by (rule leaf_node_eq) (use assms(1) rest in blast)
    then have step: "leaf_level merc coordinates w rest acc = leaf_level merc coordinates w (drop w rest) (acc @ [?node])"
      using \<open>rest \<noteq> []\<close> by (subst leaf_level.simps) simp
    have "\<forall>ob \<in> set (take w rest). rect_ok (object_box merc coordinates ob)" using assms(1) rest by (meson in_set_takeD subsetD)
    from fold_merge [of "take w rest" "object_box merc coordinates" RectangleInt2D_default, OF this] \<open>rest \<noteq> []\<close> assms(2)
    have m: "rect_ok ?node" "\<forall>ob \<in> set (take w rest). rect_le (object_box merc coordinates ob) ?node" by auto
    have in_part: "objects ! i \<in> set (take w rest)" if "?k * w \<le> i" "i < (?k + 1) * w" "i < ?n" for i
      using that less.prems(3) by (auto simp: in_set_conv_nth intro!: exI [of _ "i - ?k * w"])
    have cov: "covers ?R ?n w (acc @ [?node])"
      using less.prems(1) m in_part by (auto simp: covers_def nth_append less_Suc_eq)
    have drop: "drop w rest = drop (length (acc @ [?node]) * w) objects" using less.prems(3) by (simp add: add.commute)
    have len: "length (acc @ [?node]) = ceil_div ?n w \<or> length (acc @ [?node]) * w < ?n"
      using ceil_div_less [OF assms(2), of ?k ?n] ceil_div_less [OF assms(2), of "?k + 1" ?n] True by auto
    have "length (drop w rest) < length rest" using \<open>rest \<noteq> []\<close> assms(2) by simp
    from less.hyps [OF this cov len drop] show ?thesis unfolding step .
  qed
qed

definition good_levels :: "(nat \<Rightarrow> RectangleInt2D) \<Rightarrow> nat \<Rightarrow> nat \<Rightarrow> nat \<Rightarrow> RectangleInt2D list list \<Rightarrow> bool" where
  "good_levels R n w b lv \<longleftrightarrow> lv \<noteq> [] \<and> (\<forall>k<length lv. length (lv ! k) = ceil_div n (w * b ^ k) \<and> covers R n (w * b ^ k) (lv ! k))"

lemma upt_add: "map (\<lambda>k. k + a) [i..<j] = [i + a..<j + a]" for a :: nat
  by (induction j) auto

text \<open>The next level covers the objects when the last one does.\<close>

lemma parent_node_children:
  assumes "length pre + length lv = length tree" "tree = pre @ lv" "j < ceil_div (length lv) b" "0 < b"
  shows "parent_node b tree (length pre) (length lv) j =
    fold (\<lambda>k r. MergeBoundingBoxes r (lv ! k)) [j * b..<min ((j + 1) * b) (length lv)] RectangleInt2D_default"
proof -
  have "j * b < length lv" using ceil_div_less [OF assms(4)] assms(3) by simp
  then have "j * b + length pre + min b (length lv - j * b) = min ((j + 1) * b) (length lv) + length pre" by auto
  then have "[j * b + length pre..<j * b + length pre + min b (length lv - j * b)] = map (\<lambda>k. k + length pre) [j * b..<min ((j + 1) * b) (length lv)]"
    by (simp only: upt_add)
  then show ?thesis unfolding parent_node_def Let_def
    by (simp add: fold_map comp_def assms(2) nth_append)
qed

lemma next_level_covers:
  assumes "covers R n w lv" "length lv = ceil_div n w" "0 < w" "0 < b" "tree = pre @ lv"
  shows "covers R n (w * b) (map (parent_node b tree (length pre) (length lv)) [0..<ceil_div (length lv) b])"
  unfolding covers_def
proof (intro allI impI)
  let ?new = "map (parent_node b tree (length pre) (length lv)) [0..<ceil_div (length lv) b]"
  fix j assume "j < length ?new"
  then have j: "j < ceil_div (length lv) b" by simp
  then have jb: "j * b < length lv" using ceil_div_less [OF assms(4)] by simp
  let ?ks = "[j * b..<min ((j + 1) * b) (length lv)]"
  have node: "?new ! j = fold (\<lambda>k r. MergeBoundingBoxes r (lv ! k)) ?ks RectangleInt2D_default"
    using parent_node_children [OF _ assms(5) j assms(4)] assms(5) j by simp
  have "\<forall>k \<in> set ?ks. rect_ok (lv ! k)" using assms(1) by (auto simp: covers_def)
  from fold_merge [of ?ks "\<lambda>k. lv ! k" RectangleInt2D_default, OF this] jb assms(4)
  have m: "rect_ok (?new ! j)" "\<forall>k \<in> set ?ks. rect_le (lv ! k) (?new ! j)" unfolding node by auto
  have "rect_le (R i) (?new ! j)" if "j * (w * b) \<le> i" "i < (j + 1) * (w * b)" "i < n" for i
  proof -
    let ?k = "i div w"
    have k: "?k * w \<le> i" "i < (?k + 1) * w" using assms(3) by (simp_all add: dividend_less_div_times add.commute)
    then have "?k < length lv" using ceil_div_less [OF assms(3), of ?k n] assms(2) le_less_trans [OF k(1) that(3)] by simp
    moreover have "j * b \<le> ?k" using that(1) assms(3) by (simp add: less_eq_div_iff_mult_less_eq ac_simps)
    moreover have "?k < (j + 1) * b" using that(2) assms(3) by (simp add: div_less_iff_less_mult algebra_simps)
    ultimately have "rect_le (R i) (lv ! ?k)" "?k \<in> set ?ks" using assms(1) k that(3) by (auto simp: covers_def)
    then show ?thesis using m(2) rect_le_trans by blast
  qed
  then show "rect_ok (?new ! j) \<and> (\<forall>i. j * (w * b) \<le> i \<and> i < (j + 1) * (w * b) \<and> i < n \<longrightarrow> rect_le (R i) (?new ! j))"
    using m(1) by blast
qed

lemma upper_levels_ok:
  assumes "0 < w" "2 \<le> b" "good_levels R n w b lv"
  shows "\<exists>lv'. upper_levels b (concat lv) (length (last lv)) (map length lv) = Some (concat lv', map length lv')
    \<and> good_levels R n w b lv' \<and> length (last lv') \<le> 1"
  using assms(3)
proof (induction "length (last lv)" arbitrary: lv rule: less_induct)
  case less
  let ?l = "last lv" and ?h = "length lv - 1"
  have ne: "lv \<noteq> []" and l: "?l = lv ! ?h" using less.prems by (auto simp: good_levels_def last_conv_nth)
  then have g: "length ?l = ceil_div n (w * b ^ ?h)" "covers R n (w * b ^ ?h) ?l" using less.prems by (auto simp: good_levels_def)
  have w: "0 < w * b ^ ?h" using assms(1,2) by simp
  show ?case
  proof (cases "1 < length ?l")
    case False
    then show ?thesis using less.prems by (intro exI [of _ lv]) (simp add: upper_levels.simps)
  next
    case True
    let ?pre = "concat (butlast lv)" let ?tree = "concat lv"
    let ?new = "map (parent_node b ?tree (length ?pre) (length ?l)) [0..<ceil_div (length ?l) b]"
    have tree: "?tree = ?pre @ ?l" using ne by (metis append_butlast_last_id concat_append concat.simps append_Nil2)
    have cov: "covers R n (w * b ^ ?h * b) ?new" by (rule next_level_covers [OF g(2,1) w _ tree]) (use assms(2) in simp)
    have len: "length ?new = ceil_div n (w * b ^ ?h * b)" using ceil_div_ceil_div [OF w, of b n] g(1) assms(2) by simp
    have pow: "w * b ^ ?h * b = w * b ^ length lv" using ne by (cases lv) simp_all
    have good: "good_levels R n w b (lv @ [?new])"
      using less.prems cov len unfolding pow by (auto simp: good_levels_def nth_append less_Suc_eq)
    have "length (last (lv @ [?new])) < length ?l" using ceil_div_decreases [OF assms(2) True] by simp
    from less.hyps [OF this good]
    obtain lv' where "upper_levels b (concat (lv @ [?new])) (length (last (lv @ [?new]))) (map length (lv @ [?new])) = Some (concat lv', map length lv')"
      "good_levels R n w b lv'" "length (last lv') \<le> 1" by blast
    moreover have "upper_levels b ?tree (length ?l) (map length lv) =
        upper_levels b (concat (lv @ [?new])) (length (last (lv @ [?new]))) (map length (lv @ [?new]))"
      using True tree by (subst upper_levels.simps) (simp add: Let_def)
    ultimately show ?thesis by auto
  qed
qed

text \<open>The final order: the root first, and each level in its own order.\<close>

lemma partial_sum_nth: "i < length ns \<Longrightarrow> partial_sum a ns ! i = a + sum_list (take (Suc i) ns)"
  by (induction ns arbitrary: a i) (auto simp: nth_Cons split: nat.splits)

lemma length_partial_sum [simp]: "length (partial_sum a ns) = length ns"
  by (induction ns arbitrary: a) simp_all

lemma level_starts: "i \<le> length ns \<Longrightarrow> (0 # partial_sum 0 ns) ! i = sum_list (take i ns)"
  by (cases i) (simp_all add: partial_sum_nth)

lemma reverse_levels:
  assumes "k \<le> length ls"
  shows "fold (\<lambda>i t. reverse_part ((0 # partial_sum 0 (map length ls)) ! i) (map length ls ! i) t) [0..<k] (concat (map rev ls)) =
    concat (take k ls) @ concat (map rev (drop k ls))"
  using assms
proof (induction k)
  case (Suc k)
  have "sum_list (take k (map length ls)) = length (concat (take k ls))" by (simp add: length_concat take_map)
  moreover have "drop k ls = ls ! k # drop (Suc k) ls" using Suc.prems by (simp add: Cons_nth_drop_Suc)
  ultimately show ?case using Suc by (simp add: level_starts reverse_part_def take_Suc_conv_app_nth)
qed simp

definition rtree_ok :: "Mercator \<Rightarrow> RectangleInt2D list list \<Rightarrow> StaticRTree \<Rightarrow> bool" where
  "rtree_ok merc lv t \<longleftrightarrow> 0 < LEAF_NODE_SIZE t \<and> 2 \<le> BRANCHING_FACTOR t
     \<and> good_levels (\<lambda>i. object_box merc (m_coordinate_list t) (m_objects t ! i)) (length (m_objects t)) (LEAF_NODE_SIZE t) (BRANCHING_FACTOR t) (rev lv)
     \<and> length (hd lv) \<le> 1 \<and> m_search_tree t = concat lv \<and> m_tree_level_starts t = 0 # partial_sum 0 (map length lv)
     \<and> (\<forall>c \<in> set (m_coordinate_list t). Coordinate_IsValid c) \<and> (\<forall>ob \<in> set (m_objects t). object_ok (m_coordinate_list t) ob)"

lemma those_map_iff: "those (map f xs) = Some ys \<longleftrightarrow> map f xs = map Some ys"
proof (induction xs arbitrary: ys)
  case (Cons x xs)
  then show ?case by (cases ys) (auto split: option.splits)
qed auto

lemma centroid_valid:
  assumes "Coordinate_IsValid a" "Coordinate_IsValid b"
  obtains c where "centroid a b = Some c" "\<bar>crd_lon c\<bar> \<le> 180000000" "\<bar>crd_lat c\<bar> \<le> 90000000"
proof -
  have t: "\<bar>trunc (of_int x / 2)\<bar> \<le> m" if "\<bar>x\<bar> \<le> 2 * m" for x m
  proof -
    have "\<bar>of_int x / 2 :: rat\<bar> \<le> of_int m" using that by (simp add: abs_le_iff divide_le_eq)
    then show ?thesis by (auto simp: trunc_def abs_le_iff floor_le_iff le_ceiling_iff ceiling_le_iff le_floor_iff) linarith+
  qed
  have b: "\<bar>crd_lon a + crd_lon b\<bar> \<le> 2 * 180000000" "\<bar>crd_lat a + crd_lat b\<bar> \<le> 2 * 90000000"
    using assms by (auto simp: Coordinate_IsValid_def)
  then show ?thesis using t [OF b(1)] t [OF b(2)]
    by (intro that) (auto simp: centroid_def i32_add_def in_i32_def)
qed

lemma wrap_element_defined:
  assumes "mercator_ok merc" "\<forall>c \<in> set coordinates. Coordinate_IsValid c" "\<forall>ob \<in> set input. object_ok coordinates ob" "i < length input"
  shows "\<exists>code. wrap_element merc coordinates input i = Some \<lparr>m_hilbert_value = code, m_original_index = i\<rparr>"
proof -
  let ?ob = "input ! i"
  have ok: "ebn_u ?ob < length coordinates" "ebn_v ?ob < length coordinates" using assms(3,4) by (auto simp: object_ok_def)
  then have "Coordinate_IsValid (coordinates ! ebn_u ?ob)" "Coordinate_IsValid (coordinates ! ebn_v ?ob)" using assms(2) by auto
  from centroid_valid [OF this] obtain c where c: "centroid (coordinates ! ebn_u ?ob) (coordinates ! ebn_v ?ob) = Some c"
    "\<bar>crd_lon c\<bar> \<le> 180000000" "\<bar>crd_lat c\<bar> \<le> 90000000" .
  then have "\<bar>rat_of_int (crd_lat c) / 1000000\<bar> \<le> 90" by (auto simp: abs_le_iff divide_le_eq)
  then have "\<exists>y. latToY merc (Fin (rat_of_int (crd_lat c) / 1000000)) = Fin y \<and> \<bar>y\<bar> \<le> 180"
    using assms(1) unfolding mercator_ok_def by blast
  then obtain y where y: "latToY merc (toFloating (crd_lat c)) = Fin y" "\<bar>y\<bar> \<le> 180" by (auto simp: toFloating_def)
  then have "\<bar>trunc (1000000 * y)\<bar> \<le> 180000000"
    by (auto simp: trunc_def abs_le_iff floor_le_iff ceiling_le_iff le_floor_iff le_ceiling_iff) linarith+
  then show ?thesis using c y ok assms(4)
    by (auto simp: wrap_element_def vector_at_def GetHilbertCode_def i32_add_def in_i32_def)
qed

lemma sorted_objects:
  assumes "mercator_ok merc" "\<forall>c \<in> set coordinates. Coordinate_IsValid c" "\<forall>ob \<in> set input. object_ok coordinates ob"
    and "\<forall>xs. mset (parallel_sort xs) = mset xs"
  obtains wrapped objects where "those (map (wrap_element merc coordinates input) [0..<length input]) = Some wrapped"
    "those (map (\<lambda>w. vector_at input (m_original_index w)) (parallel_sort wrapped)) = Some objects" "mset objects = mset input"
proof -
  define code where "code i = (SOME c. wrap_element merc coordinates input i = Some \<lparr>m_hilbert_value = c, m_original_index = i\<rparr>)" for i
  define wrapped where "wrapped = map (\<lambda>i. \<lparr>m_hilbert_value = code i, m_original_index = i\<rparr>) [0..<length input]"
  have "wrap_element merc coordinates input i = Some \<lparr>m_hilbert_value = code i, m_original_index = i\<rparr>" if "i < length input" for i
    using someI_ex [OF wrap_element_defined [OF assms(1-3) that]] unfolding code_def .
  then have w: "those (map (wrap_element merc coordinates input) [0..<length input]) = Some wrapped"
    unfolding those_map_iff wrapped_def by simp
  have m: "image_mset m_original_index (mset (parallel_sort wrapped)) = mset [0..<length input]"
    using assms(4) by (simp add: wrapped_def comp_def del: mset_upt flip: mset_map)
  then have "m_original_index x < length input" if "x \<in> set (parallel_sort wrapped)" for x
    using that by (metis (no_types, lifting) atLeastLessThan_iff image_eqI set_image_mset set_mset_mset set_upt)
  then have "those (map (\<lambda>w. vector_at input (m_original_index w)) (parallel_sort wrapped)) = Some (map (\<lambda>w. input ! m_original_index w) (parallel_sort wrapped))"
    unfolding those_map_iff by (simp add: vector_at_def)
  moreover have "mset (map (\<lambda>w. input ! m_original_index w) (parallel_sort wrapped)) = image_mset ((!) input) (image_mset m_original_index (mset (parallel_sort wrapped)))"
    by (simp add: image_mset.compositionality comp_def)
  then have "mset (map (\<lambda>w. input ! m_original_index w) (parallel_sort wrapped)) = mset input"
    unfolding m by (metis map_nth mset_map)
  ultimately show ?thesis using that w by blast
qed

lemma StaticRTree_make_ok:
  assumes "mercator_ok merc" "\<forall>c \<in> set coordinates. Coordinate_IsValid c" "\<forall>ob \<in> set input. object_ok coordinates ob"
    and "\<forall>xs. mset (parallel_sort xs) = mset xs" "2 \<le> b" "0 < w"
  obtains t lv where "StaticRTree_make merc parallel_sort b w input coordinates = Some t" "rtree_ok merc lv t"
    "mset (m_objects t) = mset input" "m_coordinate_list t = coordinates"
proof -
  from sorted_objects [OF assms(1-4)] obtain wrapped objects where
    o: "those (map (wrap_element merc coordinates input) [0..<length input]) = Some wrapped"
      "those (map (\<lambda>w. vector_at input (m_original_index w)) (parallel_sort wrapped)) = Some objects" "mset objects = mset input" .
  have set_o: "\<forall>ob \<in> set objects. object_ok coordinates ob" using assms(3) o(3) mset_eq_setD by metis
  let ?R = "\<lambda>i. object_box merc coordinates (objects ! i)" and ?n = "length objects"
  have "\<exists>leaves. leaf_level merc coordinates w objects [] = Some leaves \<and> length leaves = ceil_div ?n w \<and> covers ?R ?n w leaves"
    by (rule leaf_level_ok) (use object_rectangle_eq [OF assms(1,2)] set_o assms(6) ceil_div_less [OF assms(6), of 0 ?n] in \<open>auto simp: covers_def\<close>)
  then obtain leaves where l: "leaf_level merc coordinates w objects [] = Some leaves" "length leaves = ceil_div ?n w" "covers ?R ?n w leaves" by blast
  then have "good_levels ?R ?n w b [leaves]" by (simp add: good_levels_def)
  from upper_levels_ok [OF assms(6,5) this] obtain lv where u: "upper_levels b leaves (length leaves) [length leaves] = Some (concat lv, map length lv)"
    "good_levels ?R ?n w b lv" "length (last lv) \<le> 1" by auto
  define t where "t = \<lparr>BRANCHING_FACTOR = b, LEAF_NODE_SIZE = w, m_search_tree = concat (rev lv),
    m_tree_level_starts = 0 # partial_sum 0 (map length (rev lv)), m_objects = objects, m_coordinate_list = coordinates\<rparr>"
  have "fold (\<lambda>i t. reverse_part ((0 # partial_sum 0 (map length (rev lv))) ! i) (map length (rev lv) ! i) t) [0..<length lv] (rev (concat lv)) = concat (rev lv)"
    using reverse_levels [of "length lv" "rev lv"] by (simp add: rev_concat)
  then have "StaticRTree_make merc parallel_sort b w input coordinates = Some t"
    using o l(1) u(1) by (simp add: StaticRTree_make_def Let_def t_def rev_map)
  moreover have "rtree_ok merc (rev lv) t"
    using u(2,3) assms set_o by (simp add: rtree_ok_def t_def hd_rev)
  ultimately show ?thesis using that o(3) by (simp add: t_def)
qed

end
