(* ===== verification/Static_RTree_Search.thy ===== *)
theory Static_RTree_Search
  imports Static_RTree
begin

text \<open>
  The searches of the R-tree on well-formed trees: which nodes and objects \<^verbatim>\<open>child_indexes\<close> reaches, that the
  best-first search visits the segments in the order of their distance, and that the search in a box
  finds the segments that touch it.  The locale \<open>priority_queue\<close> is the contract of \<^verbatim>\<open>std::priority_queue\<close>.
\<close>

section \<open>Navigation in a well-formed tree\<close>

definition width :: "RectangleInt2D list list \<Rightarrow> StaticRTree \<Rightarrow> nat \<Rightarrow> nat" where
  "width lv t l = LEAF_NODE_SIZE t * BRANCHING_FACTOR t ^ (length lv - 1 - l)"

text \<open>The indices of the objects below a node.\<close>

definition below :: "RectangleInt2D list list \<Rightarrow> StaticRTree \<Rightarrow> TreeIndex \<Rightarrow> nat list" where
  "below lv t i = [snd i * width lv t (fst i)..<min ((snd i + 1) * width lv t (fst i)) (length (m_objects t))]"

definition node_ok :: "RectangleInt2D list list \<Rightarrow> TreeIndex \<Rightarrow> bool" where
  "node_ok lv i \<longleftrightarrow> fst i < length lv \<and> (snd i < length (lv ! fst i) \<or> snd i = 0)"

lemma rtree_level:
  assumes "rtree_ok merc lv t" "l < length lv"
  shows "length (lv ! l) = ceil_div (length (m_objects t)) (width lv t l)"
    "covers (\<lambda>i. object_box merc (m_coordinate_list t) (m_objects t ! i)) (length (m_objects t)) (width lv t l) (lv ! l)" "0 < width lv t l"
proof -
  have "rev lv ! (length lv - 1 - l) = lv ! l" "length lv - 1 - l < length lv" using assms(2) by (simp_all add: rev_nth Suc_diff_Suc)
  with assms(1) show "length (lv ! l) = ceil_div (length (m_objects t)) (width lv t l)"
    "covers (\<lambda>i. object_box merc (m_coordinate_list t) (m_objects t ! i)) (length (m_objects t)) (width lv t l) (lv ! l)" "0 < width lv t l"
    unfolding rtree_ok_def good_levels_def width_def by (metis length_rev, metis length_rev, auto)
qed

lemma level_length_le: "rtree_ok merc lv t \<Longrightarrow> l < length lv \<Longrightarrow> length (lv ! l) \<le> length (m_objects t)"
proof -
  assume a: "rtree_ok merc lv t" "l < length lv"
  have "\<not> length (m_objects t) < length (lv ! l)"
    unfolding rtree_level(1) [OF a] ceil_div_less [OF rtree_level(3) [OF a]] using rtree_level(3) [OF a] by (simp add: not_less)
  then show ?thesis by simp
qed

lemma rtree_starts:
  assumes "rtree_ok merc lv t" "l \<le> length lv"
  shows "m_tree_level_starts t ! l = length (concat (take l lv))"
  using assms by (simp add: rtree_ok_def level_starts length_concat take_map)

lemma rtree_node:
  assumes "rtree_ok merc lv t" "l < length lv" "k < length (lv ! l)"
  shows "vector_at (m_search_tree t) (m_tree_level_starts t ! l + k) = Some (lv ! l ! k)"
proof -
  have "concat lv = concat (take l lv) @ lv ! l @ concat (drop (Suc l) lv)"
    using assms(2) by (metis Cons_nth_drop_Suc append_take_drop_id concat.simps(2) concat_append)
  then show ?thesis using assms(3) rtree_starts [OF assms(1), of l] assms(1,2)
    by (simp add: rtree_ok_def vector_at_def nth_append)
qed

lemma rtree_is_leaf: "rtree_ok merc lv t \<Longrightarrow> is_leaf t i \<longleftrightarrow> fst i = length lv - 1"
  by (auto simp: rtree_ok_def is_leaf_def)

lemma rtree_levels_ne: "rtree_ok merc lv t \<Longrightarrow> lv \<noteq> []"
  by (simp add: rtree_ok_def good_levels_def)

lemma node_offset:
  assumes "rtree_ok merc lv t" "node_ok lv i"
  shows "snd i * width lv t (fst i) \<le> length (m_objects t)"
  using assms rtree_level [OF assms(1), of "fst i"] by (auto simp: node_ok_def ceil_div_less)

lemma leaf_children:
  assumes "rtree_ok merc lv t" "node_ok lv i" "is_leaf t i" "length (m_objects t) < 2 ^ 32"
  shows "child_indexes t i = below lv t i"
proof -
  have "width lv t (fst i) = LEAF_NODE_SIZE t" using rtree_is_leaf assms(1,3) by (simp add: width_def)
  then show ?thesis using node_offset [OF assms(1,2)] assms(3,4) by (simp add: child_indexes_def below_def Let_def add.commute)
qed

lemma inner_width: "fst i + 1 < length lv \<Longrightarrow> width lv t (fst i) = width lv t (fst i + 1) * BRANCHING_FACTOR t"
proof -
  assume "fst i + 1 < length lv"
  then have "length lv - 1 - fst i = Suc (length lv - 1 - (fst i + 1))" by simp
  then show ?thesis unfolding width_def by simp
qed

lemma inner_offset:
  assumes "rtree_ok merc lv t" "node_ok lv i" "\<not> is_leaf t i"
  shows "fst i + 1 < length lv" "snd i * BRANCHING_FACTOR t \<le> length (lv ! (fst i + 1))"
proof -
  show l: "fst i + 1 < length lv" using assms rtree_is_leaf [OF assms(1)] by (auto simp: node_ok_def)
  note lev = rtree_level [OF assms(1), of "fst i"] rtree_level [OF assms(1) l]
  have "snd i * BRANCHING_FACTOR t < length (lv ! (fst i + 1))" if "snd i \<noteq> 0"
  proof -
    have "snd i < ceil_div (length (m_objects t)) (width lv t (fst i))" using that assms(2) lev(1) by (simp add: node_ok_def)
    then have "snd i * width lv t (fst i) < length (m_objects t)" using lev(3) l by (simp add: ceil_div_less)
    then show ?thesis unfolding lev(4) ceil_div_less [OF lev(6)] inner_width [OF l] by (simp add: ac_simps)
  qed
  then show "snd i * BRANCHING_FACTOR t \<le> length (lv ! (fst i + 1))" by (cases "snd i = 0") auto
qed

definition child_offsets :: "RectangleInt2D list list \<Rightarrow> StaticRTree \<Rightarrow> TreeIndex \<Rightarrow> nat list" where
  "child_offsets lv t i = [snd i * BRANCHING_FACTOR t..<min ((snd i + 1) * BRANCHING_FACTOR t) (length (lv ! (fst i + 1)))]"

lemma inner_children:
  assumes "rtree_ok merc lv t" "node_ok lv i" "\<not> is_leaf t i" "length (m_objects t) < 2 ^ 32"
  shows "child_indexes t i = map (\<lambda>k. m_tree_level_starts t ! (fst i + 1) + k) (child_offsets lv t i)"
proof -
  note l = inner_offset [OF assms(1-3)]
  let ?s = "m_tree_level_starts t ! (fst i + 1)" and ?f = "snd i * BRANCHING_FACTOR t"
  have "GetLevelSize t (fst i + 1) = length (lv ! (fst i + 1))"
    using l(1) by (simp add: GetLevelSize_def rtree_starts [OF assms(1)] take_Suc_conv_app_nth)
  moreover have "?f mod 2 ^ 32 = ?f" using le_less_trans [OF order_trans [OF l(2) level_length_le [OF assms(1) l(1)]] assms(4)] by simp
  ultimately have "child_indexes t i = [?s + ?f..<?s + min (?f + BRANCHING_FACTOR t) (length (lv ! (fst i + 1)))]"
    using assms(3) by (simp add: child_indexes_def Let_def min_add_distrib_right add.assoc)
  then show ?thesis using upt_add [of ?s ?f "min (?f + BRANCHING_FACTOR t) (length (lv ! (fst i + 1)))"]
    by (simp add: child_offsets_def add.commute)
qed

lemma concat_intervals:
  fixes w :: nat
  assumes "a \<le> b"
  shows "concat (map (\<lambda>k. [k * w..<min ((k + 1) * w) n]) [a..<b]) = [a * w..<min (b * w) n]"
  using assms
proof (induction b)
  case (Suc b)
  show ?case
  proof (cases "a \<le> b")
    case True
    have "[a * w..<min (b * w) n] @ [b * w..<min ((b + 1) * w) n] = [a * w..<min (Suc b * w) n]"
    proof (cases "b * w \<le> n")
      case True
      then have "min (b * w) n = b * w" "a * w \<le> b * w" "b * w \<le> min (Suc b * w) n" using \<open>a \<le> b\<close> by auto
      then show ?thesis using upt_add_eq_append [of "a * w" "b * w" "min (Suc b * w) n - b * w"] by simp
    qed simp
    then show ?thesis using Suc True by simp
  next
    case False
    then have "a = Suc b" using Suc.prems by simp
    then show ?thesis by simp
  qed
qed simp

lemma min_mult_capped: "\<not> m * w < n \<Longrightarrow> min (min a m * w) n = min (a * w) n" for w :: nat
proof (cases "a \<le> m")
  case False
  assume "\<not> m * w < n"
  then have "min a m = m" "n \<le> m * w" "n \<le> a * w" using False order_trans [of n "m * w" "a * w"] by simp_all
  then show ?thesis by (simp add: min_absorb2)
qed simp

lemma below_children:
  assumes "rtree_ok merc lv t" "node_ok lv i" "\<not> is_leaf t i"
  shows "concat (map (\<lambda>k. below lv t (fst i + 1, k)) (child_offsets lv t i)) = below lv t i"
proof -
  note l = inner_offset [OF assms] and lev = rtree_level [OF assms(1)]
  let ?b = "BRANCHING_FACTOR t" and ?w = "width lv t (fst i + 1)" and ?n = "length (m_objects t)" and ?m = "length (lv ! (fst i + 1))"
  have b: "0 < ?b" using assms(1) by (simp add: rtree_ok_def)
  have le: "snd i * ?b \<le> min ((snd i + 1) * ?b) ?m" using l(2) by simp
  have "concat (map (\<lambda>k. below lv t (fst i + 1, k)) (child_offsets lv t i)) = [snd i * ?b * ?w..<min (min ((snd i + 1) * ?b) ?m * ?w) ?n]"
    using concat_intervals [OF le, of ?w ?n] by (simp add: below_def child_offsets_def)
  moreover have "\<not> ?m * ?w < ?n" using ceil_div_less [OF lev(3) [OF l(1)], of ?m ?n] lev(1) [OF l(1)] by simp
  then have "min (min ((snd i + 1) * ?b) ?m * ?w) ?n = min ((snd i + 1) * ?b * ?w) ?n"
    by (rule min_mult_capped)
  ultimately show ?thesis using inner_width [OF l(1), of t] by (simp add: below_def algebra_simps)
qed

lemma root_below:
  assumes "rtree_ok merc lv t"
  shows "below lv t (0, 0) = [0..<length (m_objects t)]"
proof -
  have ne: "lv \<noteq> []" by (rule rtree_levels_ne [OF assms])
  have "\<not> 1 < length (lv ! 0)" using assms ne by (simp add: rtree_ok_def hd_conv_nth)
  then have "\<not> width lv t 0 < length (m_objects t)"
    using rtree_level(1) [OF assms, of 0] ceil_div_less [OF rtree_level(3) [OF assms, of 0], of 1 "length (m_objects t)"] ne by simp
  then show ?thesis by (simp add: below_def min_absorb2)
qed

section \<open>The candidates of a query\<close>

definition query_ok :: "Mercator \<Rightarrow> RectangleInt2D list list \<Rightarrow> StaticRTree \<Rightarrow> Coordinate \<Rightarrow> Coordinate \<Rightarrow> bool" where
  "query_ok merc lv t c fixed \<longleftrightarrow> mercator_ok merc \<and> rtree_ok merc lv t \<and> Coordinate_IsValid c
     \<and> Coordinate_of_float (project merc c) = Some fixed \<and> length (m_objects t) < 2 ^ 32 - 1"

definition candidate :: "Mercator \<Rightarrow> StaticRTree \<Rightarrow> Coordinate \<Rightarrow> nat \<Rightarrow> CandidateSegment" where
  "candidate merc t c i = \<lparr>fixed_projected_coordinate = object_point merc (m_coordinate_list t) c (m_objects t ! i), cand_data = m_objects t ! i\<rparr>"

definition object_dist :: "Mercator \<Rightarrow> StaticRTree \<Rightarrow> Coordinate \<Rightarrow> Coordinate \<Rightarrow> nat \<Rightarrow> int" where
  "object_dist merc t c fixed i = sq_dist fixed (fixed_projected_coordinate (candidate merc t c i))"

text \<open>A queue entry, the objects it stands for, and the work it can cause.\<close>

definition entry_ok :: "Mercator \<Rightarrow> RectangleInt2D list list \<Rightarrow> StaticRTree \<Rightarrow> Coordinate \<Rightarrow> Coordinate \<Rightarrow> QueryCandidate \<Rightarrow> bool" where
  "entry_ok merc lv t c fixed e \<longleftrightarrow>
     (if is_segment e then segment_index e < length (m_objects t) \<and> qc_coordinate e = fixed_projected_coordinate (candidate merc t c (segment_index e))
        \<and> squared_min_dist e = object_dist merc t c fixed (segment_index e)
      else node_ok lv (tree_index e) \<and> (\<forall>i \<in> set (below lv t (tree_index e)). squared_min_dist e \<le> object_dist merc t c fixed i))"

definition items :: "RectangleInt2D list list \<Rightarrow> StaticRTree \<Rightarrow> QueryCandidate \<Rightarrow> nat list" where
  "items lv t e = (if is_segment e then [segment_index e] else below lv t (tree_index e))"

definition work :: "RectangleInt2D list list \<Rightarrow> StaticRTree \<Rightarrow> QueryCandidate \<Rightarrow> nat" where
  "work lv t e = (if is_segment e then 1 else (LEAF_NODE_SIZE t + BRANCHING_FACTOR t + 1) ^ (length lv - fst (tree_index e)))"

lemma query_fixed_ok: "query_ok merc lv t c fixed \<Longrightarrow> point_ok fixed"
  unfolding query_ok_def by (metis float_ok_fixed option.inject project_ok)

lemma candidate_point:
  assumes "query_ok merc lv t c fixed" "i < length (m_objects t)"
  shows "point_ok (fixed_projected_coordinate (candidate merc t c i))"
    "rect_Contains (object_box merc (m_coordinate_list t) (m_objects t ! i)) (fixed_projected_coordinate (candidate merc t c i))"
    "Coordinate_of_float (snd (projectPointOnSegment (project merc (m_coordinate_list t ! ebn_u (m_objects t ! i)))
       (project merc (m_coordinate_list t ! ebn_v (m_objects t ! i))) (project merc c))) = Some (fixed_projected_coordinate (candidate merc t c i))"
proof -
  have "mercator_ok merc" "\<forall>c \<in> set (m_coordinate_list t). Coordinate_IsValid c" "object_ok (m_coordinate_list t) (m_objects t ! i)" "Coordinate_IsValid c"
    using assms by (auto simp: query_ok_def rtree_ok_def)
  from object_point_in_box [OF this] show "point_ok (fixed_projected_coordinate (candidate merc t c i))"
    "rect_Contains (object_box merc (m_coordinate_list t) (m_objects t ! i)) (fixed_projected_coordinate (candidate merc t c i))"
    "Coordinate_of_float (snd (projectPointOnSegment (project merc (m_coordinate_list t ! ebn_u (m_objects t ! i)))
       (project merc (m_coordinate_list t ! ebn_v (m_objects t ! i))) (project merc c))) = Some (fixed_projected_coordinate (candidate merc t c i))"
    by (simp_all add: candidate_def)
qed

lemma leaf_candidate_eq:
  assumes "query_ok merc lv t c fixed" "i < length (m_objects t)"
  shows "leaf_candidate merc t leaf fixed (project merc c) i = Some \<lparr>squared_min_dist = object_dist merc t c fixed i, tree_index = leaf,
    qc_coordinate = fixed_projected_coordinate (candidate merc t c i), segment_index = i\<rparr>"
proof -
  have ob: "object_ok (m_coordinate_list t) (m_objects t ! i)" using assms by (auto simp: query_ok_def rtree_ok_def)
  have "i mod 2 ^ 32 = i" using assms by (simp add: query_ok_def)
  then show ?thesis using ob assms(2) candidate_point [OF assms] squaredEuclideanDistance_eq [OF query_fixed_ok [OF assms(1)]]
    by (simp add: leaf_candidate_def vector_at_def object_ok_def object_dist_def)
qed

definition node_work :: "RectangleInt2D list list \<Rightarrow> StaticRTree \<Rightarrow> TreeIndex \<Rightarrow> nat" where
  "node_work lv t i = (LEAF_NODE_SIZE t + BRANCHING_FACTOR t + 1) ^ (length lv - fst i)"

definition explored :: "Mercator \<Rightarrow> RectangleInt2D list list \<Rightarrow> StaticRTree \<Rightarrow> Coordinate \<Rightarrow> Coordinate \<Rightarrow> TreeIndex \<Rightarrow> QueryCandidate list \<Rightarrow> bool" where
  "explored merc lv t c fixed i es \<longleftrightarrow> (\<forall>e \<in> set es. entry_ok merc lv t c fixed e) \<and> concat (map (items lv t) es) = below lv t i
     \<and> (\<Sum>e\<leftarrow>es. work lv t e) < node_work lv t i"

lemma explore_leaf:
  assumes "query_ok merc lv t c fixed" "node_ok lv i" "is_leaf t i"
  shows "\<exists>es. ExploreLeafNode merc t i fixed (project merc c) = Some es \<and> explored merc lv t c fixed i es"
proof -
  have t: "rtree_ok merc lv t" "length (m_objects t) < 2 ^ 32" using assms(1) by (simp_all add: query_ok_def)
  let ?e = "\<lambda>j. \<lparr>squared_min_dist = object_dist merc t c fixed j, tree_index = i,
    qc_coordinate = fixed_projected_coordinate (candidate merc t c j), segment_index = j\<rparr>"
  have ix: "j < length (m_objects t)" if "j \<in> set (below lv t i)" for j using that by (simp add: below_def)
  then have seg: "is_segment (?e j)" if "j \<in> set (below lv t i)" for j
    using that assms(1) by (fastforce simp: is_segment_def no_segment_def query_ok_def)
  have "ExploreLeafNode merc t i fixed (project merc c) = Some (map ?e (below lv t i))"
    using leaf_candidate_eq [OF assms(1) ix] leaf_children [OF t(1) assms(2,3) t(2)] by (simp add: ExploreLeafNode_def those_map_iff)
  moreover have "\<forall>e \<in> set (map ?e (below lv t i)). entry_ok merc lv t c fixed e" using seg ix by (auto simp: entry_ok_def)
  moreover have "map (items lv t) (map ?e (below lv t i)) = map (\<lambda>j. [j]) (below lv t i)" using seg by (simp add: items_def)
  then have "concat (map (items lv t) (map ?e (below lv t i))) = below lv t i" by (simp only: concat_map_singleton list.map_ident)
  moreover have "(\<Sum>e\<leftarrow>map ?e (below lv t i). work lv t e) = length (below lv t i)"
    using seg by (simp add: work_def comp_def sum_list_triv cong: map_cong)
  moreover have "length lv - fst i = 1" "fst i = length lv - 1"
    using rtree_is_leaf [OF t(1)] assms(3) rtree_levels_ne [OF t(1)] by (cases lv, auto)
  then have "length (below lv t i) \<le> LEAF_NODE_SIZE t" "node_work lv t i = LEAF_NODE_SIZE t + BRANCHING_FACTOR t + 1"
    by (auto simp: below_def width_def node_work_def)
  ultimately show ?thesis by (intro exI [of _ "map ?e (below lv t i)"]) (simp add: explored_def)
qed

lemma node_lower_bound:
  assumes "query_ok merc lv t c fixed" "l < length lv" "k < length (lv ! l)"
  shows "\<exists>d. GetMinSquaredDist (lv ! l ! k) fixed = Some d \<and> (\<forall>i \<in> set (below lv t (l, k)). d \<le> object_dist merc t c fixed i)"
proof -
  have t: "rtree_ok merc lv t" using assms(1) by (simp add: query_ok_def)
  note cov = rtree_level(2) [OF t assms(2), unfolded covers_def, rule_format, OF assms(3)]
  have p: "point_ok fixed" by (rule query_fixed_ok [OF assms(1)])
  obtain d where d: "GetMinSquaredDist (lv ! l ! k) fixed = Some d" using GetMinSquaredDist_eq [OF p] cov by blast
  have "d \<le> object_dist merc t c fixed i" if "i \<in> set (below lv t (l, k))" for i
  proof -
    have i: "i < length (m_objects t)" "k * width lv t l \<le> i" "i < (k + 1) * width lv t l" using that by (auto simp: below_def)
    have "rect_le (object_box merc (m_coordinate_list t) (m_objects t ! i)) (lv ! l ! k)" using cov i by blast
    from GetMinSquaredDist_bound [OF p _ rect_le_Contains [OF this candidate_point(2) [OF assms(1) i(1)]]] cov d
    show ?thesis by (simp add: object_dist_def)
  qed
  then show ?thesis using d by blast
qed

lemma child_work:
  assumes "fst i + 1 < length lv"
  shows "length (child_offsets lv t i) * (LEAF_NODE_SIZE t + BRANCHING_FACTOR t + 1) ^ (length lv - (fst i + 1)) < node_work lv t i"
proof -
  have lt: "length (child_offsets lv t i) < LEAF_NODE_SIZE t + BRANCHING_FACTOR t + 1" by (simp add: child_offsets_def)
  have nw: "node_work lv t i = (LEAF_NODE_SIZE t + BRANCHING_FACTOR t + 1) * (LEAF_NODE_SIZE t + BRANCHING_FACTOR t + 1) ^ (length lv - (fst i + 1))"
    using assms by (simp add: node_work_def Suc_diff_Suc [symmetric] del: power_Suc flip: power_Suc)
  show ?thesis unfolding nw by (rule mult_strict_right_mono [OF lt]) simp
qed

lemma explore_inner:
  assumes "query_ok merc lv t c fixed" "node_ok lv i" "\<not> is_leaf t i"
  shows "\<exists>es. ExploreTreeNode t i fixed = Some es \<and> explored merc lv t c fixed i es"
proof -
  have t: "rtree_ok merc lv t" "length (m_objects t) < 2 ^ 32" using assms(1) by (simp_all add: query_ok_def)
  note l = inner_offset [OF t(1) assms(2,3)]
  let ?l = "fst i + 1" and ?ks = "child_offsets lv t i"
  define d where "d k = the (GetMinSquaredDist (lv ! ?l ! k) fixed)" for k
  let ?e = "\<lambda>k. QueryCandidate_node (d k) (?l, k)"
  have k: "k < length (lv ! ?l)" if "k \<in> set ?ks" for k using that by (simp add: child_offsets_def)
  have d: "GetMinSquaredDist (lv ! ?l ! k) fixed = Some (d k) \<and> (\<forall>i \<in> set (below lv t (?l, k)). d k \<le> object_dist merc t c fixed i)" if "k \<in> set ?ks" for k
    using node_lower_bound [OF assms(1) l(1) k [OF that]] by (auto simp: d_def)
  have "child_candidate t i fixed (m_tree_level_starts t ! ?l + k) = Some (?e k)" if "k \<in> set ?ks" for k
    using rtree_node [OF t(1) l(1) k [OF that]] d [OF that] by (simp add: child_candidate_def)
  then have "ExploreTreeNode t i fixed = Some (map ?e ?ks)"
    unfolding ExploreTreeNode_def inner_children [OF t(1) assms(2,3) t(2)] those_map_iff by simp
  moreover have n: "\<not> is_segment (?e k)" "tree_index (?e k) = (?l, k)" "squared_min_dist (?e k) = d k" for k
    by (simp_all add: is_segment_def QueryCandidate_node_def)
  then have "\<forall>e \<in> set (map ?e ?ks). entry_ok merc lv t c fixed e" using d k l(1) by (auto simp: entry_ok_def node_ok_def)
  moreover have "concat (map (items lv t) (map ?e ?ks)) = below lv t i"
    using below_children [OF t(1) assms(2,3)] n by (simp add: items_def comp_def)
  moreover have "(\<Sum>e\<leftarrow>map ?e ?ks. work lv t e) = length ?ks * (LEAF_NODE_SIZE t + BRANCHING_FACTOR t + 1) ^ (length lv - ?l)"
    using n by (simp add: work_def comp_def sum_list_triv)
  moreover note child_work [OF l(1), of t]
  ultimately show ?thesis by (intro exI [of _ "map ?e ?ks"]) (simp add: explored_def)
qed

section \<open>The search in order of distance\<close>

text \<open>What the search amounts to: one pass over the candidates, nearest first.\<close>

fun scan :: "'s filter_fun \<Rightarrow> 's terminate_fun \<Rightarrow> CandidateSegment list \<Rightarrow> CandidateSegment list \<Rightarrow> 's
    \<Rightarrow> (CandidateSegment list \<times> 's) option" where
  "scan flt terminate [] results s = Some (results, s)"
| "scan flt terminate (x # xs) results s = do {
     stop \<leftarrow> terminate (length results) x s;
     if stop then Some (results, s)
     else do {
       (use, s') \<leftarrow> flt x s;
       scan flt terminate xs (if \<not> fst use \<and> \<not> snd use then results else results @ [restrict_enabled use x]) s'
     }
   }"

lemma sum_list_add_mset: "mset q = add_mset x (mset q') \<Longrightarrow> sum_list (map f q) = f x + sum_list (map f q')"
  for f :: "'a \<Rightarrow> 'b :: comm_monoid_add"
  unfolding sum_mset_sum_list [symmetric] mset_map by simp

locale priority_queue =
  fixes pop :: pq_pop
  assumes pop_min: "queue \<noteq> [] \<Longrightarrow> pop queue = (x, queue') \<Longrightarrow> mset queue = add_mset x (mset queue') \<and> (\<forall>y \<in> set queue. squared_min_dist x \<le> squared_min_dist y)"
begin

lemma nearest_loop_scan:
  assumes "query_ok merc lv t c fixed" "\<forall>e \<in> set queue. entry_ok merc lv t c fixed e"
  shows "\<exists>is. mset is = mset (concat (map (items lv t) queue)) \<and> sorted (map (object_dist merc t c fixed) is)
    \<and> (\<forall>results s. nearest_loop merc pop t fixed (project merc c) flt terminate queue results s =
         scan flt terminate (map (candidate merc t c) is) results s)"
  using assms(2)
proof (induction "\<Sum>e\<leftarrow>queue. work lv t e" arbitrary: queue rule: less_induct)
  case less
  let ?items = "\<lambda>q. mset (concat (map (items lv t) q))"
  show ?case
  proof (cases "queue = []")
    case True
    then show ?thesis by (intro exI [of _ "[]"]) (simp add: nearest_loop.simps)
  next
    case False
    obtain x q where x: "pop queue = (x, q)" by fastforce
    from pop_min [OF False x] have m: "mset queue = add_mset x (mset q)" and min: "\<forall>y \<in> set queue. squared_min_dist x \<le> squared_min_dist y" by auto
    have q: "set queue = insert x (set q)" using m by (metis set_mset_add_mset_insert set_mset_mset)
    have sum: "(\<Sum>e\<leftarrow>queue. work lv t e) = work lv t x + (\<Sum>e\<leftarrow>q. work lv t e)"
      by (rule sum_list_add_mset [OF m])
    have it: "?items queue = mset (items lv t x) + ?items q"
      using sum_list_add_mset [OF m, of "\<lambda>e. mset (items lv t e)"] by (simp add: mset_concat comp_def)
    show ?thesis
    proof (cases "is_segment x")
      case True
      then have e: "segment_index x < length (m_objects t)" "qc_coordinate x = fixed_projected_coordinate (candidate merc t c (segment_index x))"
        "squared_min_dist x = object_dist merc t c fixed (segment_index x)" using less.prems q by (auto simp: entry_ok_def)
      have "(\<Sum>e\<leftarrow>q. work lv t e) < (\<Sum>e\<leftarrow>queue. work lv t e)" using sum True by (simp add: work_def)
      from less.hyps [OF this] less.prems q obtain "is" where i: "mset is = ?items q" "sorted (map (object_dist merc t c fixed) is)"
        "\<forall>results s. nearest_loop merc pop t fixed (project merc c) flt terminate q results s = scan flt terminate (map (candidate merc t c) is) results s"
        by auto
      have "object_dist merc t c fixed (segment_index x) \<le> object_dist merc t c fixed j" if "j \<in> set is" for j
      proof -
        have "j \<in> set (concat (map (items lv t) q))" using that i(1) by (metis set_mset_mset)
        then obtain y where y: "y \<in> set q" "j \<in> set (items lv t y)" by auto
        then have "entry_ok merc lv t c fixed y" "squared_min_dist x \<le> squared_min_dist y" using less.prems min q by auto
        then show ?thesis using y(2) e(3) by (auto simp: entry_ok_def items_def split: if_splits)
      qed
      then have "sorted (map (object_dist merc t c fixed) (segment_index x # is))" using i(2) by simp
      moreover have "mset (segment_index x # is) = ?items queue" using it i(1) True by (simp add: items_def)
      moreover have c: "candidate merc t c (segment_index x) = \<lparr>fixed_projected_coordinate = qc_coordinate x, cand_data = m_objects t ! segment_index x\<rparr>"
        using e(2) by (simp add: candidate_def)
      have "nearest_loop merc pop t fixed (project merc c) flt terminate queue results s =
          scan flt terminate (map (candidate merc t c) (segment_index x # is)) results s" for results s
        using False True x e(1) by (subst nearest_loop.simps) (simp add: vector_at_def c [symmetric] i(3) [rule_format] Let_def case_prod_unfold cong: if_cong)
      ultimately show ?thesis by blast
    next
      case node: False
      then have n: "node_ok lv (tree_index x)" using less.prems q by (auto simp: entry_ok_def)
      from explore_leaf [OF assms(1) n] explore_inner [OF assms(1) n] obtain es where
        es: "(if is_leaf t (tree_index x) then ExploreLeafNode merc t (tree_index x) fixed (project merc c) else ExploreTreeNode t (tree_index x) fixed) = Some es"
        "explored merc lv t c fixed (tree_index x) es" by (cases "is_leaf t (tree_index x)") auto
      have "(\<Sum>e\<leftarrow>q @ es. work lv t e) < (\<Sum>e\<leftarrow>queue. work lv t e)"
        using sum es(2) node by (simp add: work_def explored_def node_work_def)
      moreover have "\<forall>e \<in> set (q @ es). entry_ok merc lv t c fixed e" using less.prems q es(2) by (auto simp: explored_def)
      ultimately obtain "is" where i: "mset is = ?items (q @ es)" "sorted (map (object_dist merc t c fixed) is)"
        "\<forall>results s. nearest_loop merc pop t fixed (project merc c) flt terminate (q @ es) results s = scan flt terminate (map (candidate merc t c) is) results s"
        using less.hyps by blast
      have "?items (q @ es) = ?items queue" using it es(2) node by (simp add: explored_def items_def)
      moreover have "nearest_loop merc pop t fixed (project merc c) flt terminate queue results s =
          nearest_loop merc pop t fixed (project merc c) flt terminate (q @ es) results s" for results s
        using False node x es(1) by (subst nearest_loop.simps) simp
      ultimately show ?thesis using i by metis
    qed
  qed
qed

lemma Nearest_scan:
  assumes "query_ok merc lv t c fixed"
  shows "\<exists>is. mset is = mset [0..<length (m_objects t)] \<and> sorted (map (object_dist merc t c fixed) is)
    \<and> Nearest merc pop t c flt terminate s = scan flt terminate (map (candidate merc t c) is) [] s"
proof -
  have t: "rtree_ok merc lv t" and c: "Coordinate_of_float (project merc c) = Some fixed" using assms by (simp_all add: query_ok_def)
  let ?root = "QueryCandidate_node 0 (0, 0)"
  have r: "\<not> is_segment ?root" "tree_index ?root = (0, 0)" "squared_min_dist ?root = 0" by (simp_all add: is_segment_def QueryCandidate_node_def)
  have ne: "lv \<noteq> []" by (rule rtree_levels_ne [OF t])
  have "0 \<le> object_dist merc t c fixed i" for i by (simp add: object_dist_def sq_dist_def)
  then have ok: "\<forall>e \<in> set [?root]. entry_ok merc lv t c fixed e" using r ne by (simp add: entry_ok_def node_ok_def)
  have "concat (map (items lv t) [?root]) = [0..<length (m_objects t)]" using r root_below [OF t] by (simp add: items_def)
  note all = this
  from nearest_loop_scan [OF assms ok, of flt terminate] obtain "is" where i: "mset is = mset [0..<length (m_objects t)]"
    "sorted (map (object_dist merc t c fixed) is)"
    "\<forall>results s. nearest_loop merc pop t fixed (project merc c) flt terminate [?root] results s = scan flt terminate (map (candidate merc t c) is) results s"
    unfolding all by blast
  have "Nearest merc pop t c flt terminate s = scan flt terminate (map (candidate merc t c) is) [] s" using i(3) c by (simp add: Nearest_def)
  with i(1,2) show ?thesis by blast
qed

end

text \<open>\<^verbatim>\<open>std::priority_queue\<close> on a list: the first of the closest entries.\<close>

definition pop_nearest :: pq_pop where
  "pop_nearest queue =
     (let x = fold (\<lambda>y m. if squared_min_dist y < squared_min_dist m then y else m) (tl queue) (hd queue) in (x, remove1 x queue))"

lemma fold_min:
  fixes f :: "'a \<Rightarrow> int"
  shows "fold (\<lambda>y m. if f y < f m then y else m) q x \<in> insert x (set q)
    \<and> (\<forall>y \<in> insert x (set q). f (fold (\<lambda>y m. if f y < f m then y else m) q x) \<le> f y)"
proof (induction q arbitrary: x)
  case (Cons a q)
  show ?case using Cons [of "if f a < f x then a else x"] by (cases "f a < f x") auto
qed simp

interpretation list_queue: priority_queue pop_nearest
proof
  fix queue queue' :: "QueryCandidate list" and x assume q: "queue \<noteq> []" "pop_nearest queue = (x, queue')"
  then obtain y ys where y: "queue = y # ys" by (cases queue) auto
  have x: "x = fold (\<lambda>y m. if squared_min_dist y < squared_min_dist m then y else m) ys y" "queue' = remove1 x queue"
    using q(2) y by (auto simp: pop_nearest_def Let_def)
  from fold_min [of squared_min_dist ys y] x y
  show "mset queue = add_mset x (mset queue') \<and> (\<forall>z \<in> set queue. squared_min_dist x \<le> squared_min_dist z)"
    by (auto simp: insert_DiffM)
qed

lemma query_ok_make:
  assumes "mercator_ok merc" "\<forall>x \<in> set coordinates. Coordinate_IsValid x" "\<forall>ob \<in> set input. object_ok coordinates ob"
    and "\<forall>xs. mset (parallel_sort xs) = mset xs" "2 \<le> b" "0 < w" "length input < 2 ^ 32 - 1" "Coordinate_IsValid c"
  obtains t lv fixed where "StaticRTree_make merc parallel_sort b w input coordinates = Some t" "query_ok merc lv t c fixed"
    "mset (m_objects t) = mset input" "m_coordinate_list t = coordinates"
proof -
  from StaticRTree_make_ok [OF assms(1-6)] obtain t lv where
    t: "StaticRTree_make merc parallel_sort b w input coordinates = Some t" "rtree_ok merc lv t" "mset (m_objects t) = mset input" "m_coordinate_list t = coordinates" .
  from project_ok [OF assms(1,8)] obtain lon lat where "float_ok (project merc c) lon lat" .
  then have "query_ok merc lv t c (fixed_point lon lat)"
    using t(2,3) assms(1,7,8) float_ok_fixed mset_eq_length [OF t(3)] by (simp add: query_ok_def)
  with t show ?thesis using that by blast
qed

lemma candidates_of_order:
  assumes "mset is = mset [0..<length (m_objects t)]"
  shows "mset (map cand_data (map (candidate merc t c) is)) = mset (m_objects t)"
proof -
  have "map cand_data (map (candidate merc t c) is) = map ((!) (m_objects t)) is" by (simp add: candidate_def)
  then have "mset (map cand_data (map (candidate merc t c) is)) = image_mset ((!) (m_objects t)) (mset [0..<length (m_objects t)])"
    using assms by (metis mset_map)
  also have "\<dots> = mset (m_objects t)" by (metis map_nth mset_map)
  finally show ?thesis .
qed

lemma scan_take:
  "scan (\<lambda>c s. Some ((True, True), s)) (\<lambda>num_results c s. Some (num_results \<ge> k)) xs results s = Some (results @ take (k - length results) xs, s)"
proof (induction xs arbitrary: results)
  case (Cons x xs)
  have "restrict_enabled (True, True) x = x" by (simp add: restrict_enabled_def)
  then show ?case using Cons [of "results @ [x]"] Suc_diff_Suc [of "length results" k]
    by (cases "k \<le> length results") (auto simp: take_Cons' not_le)
qed simp

section \<open>The search in a box\<close>

text \<open>The fixed latitudes of the tree and the projected bounds of a box agree on the order of the latitudes involved.\<close>

definition box_consistent :: "Mercator \<Rightarrow> Coordinate list \<Rightarrow> RectangleInt2D \<Rightarrow> RectangleInt2D \<Rightarrow> bool" where
  "box_consistent merc coordinates box projected \<longleftrightarrow> (\<forall>c \<in> set coordinates. \<forall>p. Coordinate_of_float (project merc c) = Some p \<longrightarrow>
     (min_lat box \<le> crd_lat c \<longrightarrow> min_lat projected \<le> crd_lat p) \<and> (crd_lat c \<le> max_lat box \<longrightarrow> crd_lat p \<le> max_lat projected))"

definition touches :: "StaticRTree \<Rightarrow> RectangleInt2D \<Rightarrow> EdgeBasedNodeSegment \<Rightarrow> bool" where
  "touches t box ob \<longleftrightarrow> Intersects (the (edge_bbox t ob)) box"

lemma project_lon:
  assumes "mercator_ok merc" "Coordinate_IsValid c" "Coordinate_of_float (project merc c) = Some p"
  shows "crd_lon p = crd_lon c"
proof -
  have "in_i32 (crd_lon c)" using assms(2) by (simp add: Coordinate_IsValid_def in_i32_def)
  then have "toFixed (fcrd_lon (project merc c)) = Some (crd_lon c)"
    by (simp add: project_def fromWGS84_def FloatCoordinate_of_fixed_def toFixed_toFloating)
  then show ?thesis using assms(3) by (auto simp: Coordinate_of_float_def bind_eq_Some_conv)
qed

lemma Intersects_mono: "rect_le r s \<Longrightarrow> Intersects r b \<Longrightarrow> Intersects s b"
  by (auto simp: rect_le_def Intersects_def)

lemma touching_box:
  assumes "mercator_ok merc" "\<forall>c \<in> set (m_coordinate_list t). Coordinate_IsValid c" "object_ok (m_coordinate_list t) ob"
    and "box_consistent merc (m_coordinate_list t) box projected" "min_lon projected = min_lon box" "max_lon projected = max_lon box"
    and "touches t box ob"
  shows "Intersects (object_box merc (m_coordinate_list t) ob) projected"
proof -
  let ?cs = "m_coordinate_list t" let ?u = "?cs ! ebn_u ob" and ?v = "?cs ! ebn_v ob"
  have m: "?u \<in> set ?cs" "?v \<in> set ?cs" using assms(3) by (auto simp: object_ok_def)
  then have v: "Coordinate_IsValid ?u" "Coordinate_IsValid ?v" using assms(2) by auto
  from project_ok [OF assms(1) v(1)] float_ok_fixed obtain pu where pu: "Coordinate_of_float (project merc ?u) = Some pu" "point_ok pu" by metis
  from project_ok [OF assms(1) v(2)] float_ok_fixed obtain pv where pv: "Coordinate_of_float (project merc ?v) = Some pv" "point_ok pv" by metis
  note lon = project_lon [OF assms(1) v(1) pu(1)] project_lon [OF assms(1) v(2) pv(1)]
  have lat: "min_lat box \<le> crd_lat ?u \<longrightarrow> min_lat projected \<le> crd_lat pu" "crd_lat ?u \<le> max_lat box \<longrightarrow> crd_lat pu \<le> max_lat projected"
    "min_lat box \<le> crd_lat ?v \<longrightarrow> min_lat projected \<le> crd_lat pv" "crd_lat ?v \<le> max_lat box \<longrightarrow> crd_lat pv \<le> max_lat projected"
    using assms(4) m pu(1) pv(1) unfolding box_consistent_def by blast+
  have b: "object_box merc ?cs ob = \<lparr>min_lon = min (crd_lon ?u) (crd_lon ?v), max_lon = max (crd_lon ?u) (crd_lon ?v),
      min_lat = min (crd_lat pu) (crd_lat pv), max_lat = max (crd_lat pu) (crd_lat pv)\<rparr>"
    using pu pv assms(3) lon by (auto simp: object_box_def object_rectangle_def vector_at_def object_ok_def Let_def RectangleInt2D_default_def point_ok_def)
  have "max (crd_lon ?u) (crd_lon ?v) \<ge> min_lon box" "min (crd_lon ?u) (crd_lon ?v) \<le> max_lon box"
    "max (crd_lat ?u) (crd_lat ?v) \<ge> min_lat box" "min (crd_lat ?u) (crd_lat ?v) \<le> max_lat box"
    using assms(3,7) by (auto simp: touches_def edge_bbox_def vector_at_def object_ok_def Intersects_def)
  then show ?thesis unfolding b Intersects_def using lat assms(5,6) by (auto simp: le_max_iff_disj min_le_iff_disj)
qed

lemma search_objects_eq:
  assumes "rtree_ok merc lv t" "\<forall>i \<in> set is. i < length (m_objects t)"
  shows "search_objects t box is results = Some (results @ filter (touches t box) (map ((!) (m_objects t)) is))"
  using assms(2)
proof (induction "is" arbitrary: results)
  case (Cons i "is")
  then have "object_ok (m_coordinate_list t) (m_objects t ! i)" using assms(1) by (auto simp: rtree_ok_def)
  then obtain b where "edge_bbox t (m_objects t ! i) = Some b" by (auto simp: edge_bbox_def vector_at_def object_ok_def)
  then show ?case using Cons by (simp add: vector_at_def touches_def)
qed simp

lemma search_children_eq:
  assumes "rtree_ok merc lv t" "l + 1 < length lv" "\<forall>k \<in> set ks. k < length (lv ! (l + 1))"
  shows "search_children t projected l (map (\<lambda>k. m_tree_level_starts t ! (l + 1) + k) ks) queue =
    Some (queue @ map (\<lambda>k. (l + 1, k)) (filter (\<lambda>k. Intersects (lv ! (l + 1) ! k) projected) ks))"
  using assms(3)
proof (induction ks arbitrary: queue)
  case (Cons k ks)
  then show ?case using rtree_node [OF assms(1,2), of k] by simp
qed simp

lemma pruned_node:
  assumes "mercator_ok merc" "rtree_ok merc lv t" "box_consistent merc (m_coordinate_list t) box projected"
    and "min_lon projected = min_lon box" "max_lon projected = max_lon box" "l < length lv" "k < length (lv ! l)"
    and "\<not> Intersects (lv ! l ! k) projected" "j \<in> set (below lv t (l, k))"
  shows "\<not> touches t box (m_objects t ! j)"
proof
  assume "touches t box (m_objects t ! j)"
  have j: "j < length (m_objects t)" "k * width lv t l \<le> j" "j < (k + 1) * width lv t l" using assms(9) by (auto simp: below_def)
  then have "rect_le (object_box merc (m_coordinate_list t) (m_objects t ! j)) (lv ! l ! k)"
    using rtree_level(2) [OF assms(2,6)] assms(7) by (auto simp: covers_def)
  moreover have "Intersects (object_box merc (m_coordinate_list t) (m_objects t ! j)) projected"
    using touching_box [OF assms(1) _ _ assms(3-5) \<open>touches t box (m_objects t ! j)\<close>] assms(2) j(1) by (auto simp: rtree_ok_def)
  ultimately show False using assms(8) Intersects_mono by blast
qed

lemma filter_concat_pruned:
  assumes "\<And>k j. k \<in> set ks \<Longrightarrow> \<not> Q k \<Longrightarrow> j \<in> set (g k) \<Longrightarrow> \<not> P (f j)"
  shows "filter P (map f (concat (map g (filter Q ks)))) = filter P (map f (concat (map g ks)))"
  using assms
proof (induction ks)
  case (Cons k ks)
  have "filter P (map f (g k)) = []" if "\<not> Q k" using Cons.prems that by (auto simp: filter_empty_conv)
  then show ?case using Cons by auto
qed simp

lemma search_loop_ok:
  assumes "mercator_ok merc" "rtree_ok merc lv t" "length (m_objects t) < 2 ^ 32"
    and "box_consistent merc (m_coordinate_list t) box projected" "min_lon projected = min_lon box" "max_lon projected = max_lon box"
    and "\<forall>i \<in> set queue. node_ok lv i"
  shows "\<exists>results'. search_loop t box projected queue results = Some results'
    \<and> mset results' = mset results + mset (filter (touches t box) (map ((!) (m_objects t)) (concat (map (below lv t) queue))))"
  using assms(7)
proof (induction "\<Sum>i\<leftarrow>queue. node_work lv t i" arbitrary: queue results rule: less_induct)
  case less
  show ?case
  proof (cases queue)
    case Nil
    then show ?thesis by (simp add: search_loop.simps)
  next
    case (Cons i q)
    have i: "node_ok lv i" and q: "\<forall>i \<in> set q. node_ok lv i" using less.prems Cons by auto
    have wk: "0 < node_work lv t i" by (simp add: node_work_def)
    show ?thesis
    proof (cases "is_leaf t i")
      case True
      let ?r = "results @ filter (touches t box) (map ((!) (m_objects t)) (below lv t i))"
      have "search_objects t box (child_indexes t i) results = Some ?r"
        unfolding leaf_children [OF assms(2) i True assms(3)] by (rule search_objects_eq [OF assms(2)]) (simp add: below_def)
      then have "search_loop t box projected queue results = search_loop t box projected q ?r"
        using Cons True by (subst search_loop.simps) simp
      then show ?thesis using less.hyps [of q ?r] q wk Cons by (auto simp: ac_simps)
    next
      case False
      let ?ks = "child_offsets lv t i" and ?l = "fst i + 1"
      let ?js = "filter (\<lambda>k. Intersects (lv ! ?l ! k) projected) ?ks"
      let ?q = "q @ map (\<lambda>k. (?l, k)) ?js"
      note l = inner_offset [OF assms(2) i False]
      have ks: "\<forall>k \<in> set ?ks. k < length (lv ! ?l)" by (simp add: child_offsets_def)
      have step: "search_loop t box projected queue results = search_loop t box projected ?q results"
        using Cons False search_children_eq [OF assms(2) l(1) ks] inner_children [OF assms(2) i False assms(3)]
        by (subst search_loop.simps) simp
      have "(\<Sum>i\<leftarrow>map (\<lambda>k. (?l, k)) ?js. node_work lv t i) \<le> (\<Sum>i\<leftarrow>map (\<lambda>k. (?l, k)) ?ks. node_work lv t i)"
        by (simp add: node_work_def comp_def sum_list_triv)
      also have "\<dots> < node_work lv t i" using child_work [OF l(1)] by (simp add: node_work_def comp_def sum_list_triv)
      finally have less_work: "(\<Sum>i\<leftarrow>?q. node_work lv t i) < (\<Sum>i\<leftarrow>queue. node_work lv t i)" using Cons by simp
      have "\<forall>i \<in> set ?q. node_ok lv i" using q ks l(1) by (auto simp: node_ok_def)
      from less.hyps [OF less_work this, of results] obtain results' where r: "search_loop t box projected ?q results = Some results'"
        "mset results' = mset results + mset (filter (touches t box) (map ((!) (m_objects t)) (concat (map (below lv t) ?q))))" by blast
      have none: "\<not> touches t box (m_objects t ! j)" if "k \<in> set ?ks" "\<not> Intersects (lv ! ?l ! k) projected" "j \<in> set (below lv t (?l, k))" for k j
        using pruned_node [OF assms(1,2,4-6) l(1)] ks that by blast
      have "filter (touches t box) (map ((!) (m_objects t)) (concat (map (\<lambda>k. below lv t (?l, k)) ?js))) =
          filter (touches t box) (map ((!) (m_objects t)) (concat (map (\<lambda>k. below lv t (?l, k)) ?ks)))"
        using none by (intro filter_concat_pruned) auto
      then show ?thesis using r step below_children [OF assms(2) i False] Cons by (auto simp: comp_def ac_simps)
    qed
  qed
qed

text \<open>Three segments of a small network, under a projection that leaves the latitudes as they are.\<close>

definition demo_mercator :: Mercator where
  "demo_mercator = \<lparr>latToY = (\<lambda>x. x), latToYapprox = (\<lambda>x. x), yToLat = (\<lambda>x. x)\<rparr>"

definition demo_coordinates :: "Coordinate list" where
  "demo_coordinates = [\<lparr>crd_lon = 0, crd_lat = 0\<rparr>, \<lparr>crd_lon = 1000, crd_lat = 0\<rparr>, \<lparr>crd_lon = 1000, crd_lat = 2000\<rparr>, \<lparr>crd_lon = 9000, crd_lat = 9000\<rparr>]"

definition demo_segment :: "nat \<Rightarrow> EdgeBasedNodeSegment" where
  "demo_segment i = \<lparr>ebn_forward_segment_id = \<lparr>seg_id = i, enabled = True\<rparr>, ebn_reverse_segment_id = \<lparr>seg_id = SPECIAL_SEGMENTID, enabled = False\<rparr>,
     ebn_u = i, ebn_v = i + 1, ebn_fwd_segment_position = 0, is_startpoint = True\<rparr>"

definition demo_segments :: "EdgeBasedNodeSegment list" where
  "demo_segments = map demo_segment [0, 1, 2]"

lemma demo_network: "mercator_ok demo_mercator" "\<forall>x \<in> set demo_coordinates. Coordinate_IsValid x"
  "\<forall>ob \<in> set demo_segments. object_ok demo_coordinates ob" "\<forall>xs. mset ((\<lambda>xs. xs) xs) = mset xs" "length demo_segments < 2 ^ 32 - 1"
  "Coordinate_IsValid \<lparr>crd_lon = 8000, crd_lat = 8000\<rparr>"
  by (auto simp: mercator_ok_def demo_mercator_def demo_coordinates_def demo_segments_def demo_segment_def Coordinate_IsValid_def object_ok_def)

section \<open>Properties\<close>

text \<open>
  C9.  The nearest segments.  A tree built from segments with valid coordinates, whatever the order of the
  sort, the branching factor and the leaf size, answers a query for the \<open>k\<close> nearest segments of a valid
  coordinate: the answer and the remaining segments together are the input, sorted by the distance
  of their points next to the coordinate.
\<close>

theorem StaticRTree_k_nearest:
  assumes "mercator_ok merc" "\<forall>x \<in> set coordinates. Coordinate_IsValid x" "\<forall>ob \<in> set input. object_ok coordinates ob"
    and "\<forall>xs. mset (parallel_sort xs) = mset xs" "2 \<le> b" "0 < w" "length input < 2 ^ 32 - 1" "Coordinate_IsValid c" "priority_queue pop"
  shows "\<exists>t results rest fixed. StaticRTree_make merc parallel_sort b w input coordinates = Some t
    \<and> Nearest_count merc pop t c k = Some results \<and> length results = min k (length input)
    \<and> mset (map cand_data (results @ rest)) = mset input \<and> Coordinate_of_float (project merc c) = Some fixed
    \<and> (\<forall>x \<in> set (results @ rest). fixed_projected_coordinate x = object_point merc coordinates c (cand_data x))
    \<and> sorted (map (\<lambda>x. sq_dist fixed (fixed_projected_coordinate x)) (results @ rest))"
proof -
  from query_ok_make [OF assms(1-8)] obtain t lv fixed where
    t: "StaticRTree_make merc parallel_sort b w input coordinates = Some t" "query_ok merc lv t c fixed" "mset (m_objects t) = mset input"
      "m_coordinate_list t = coordinates" .
  obtain "is" where i: "mset is = mset [0..<length (m_objects t)]" "sorted (map (object_dist merc t c fixed) is)"
    "Nearest merc pop t c (\<lambda>c s. Some ((True, True), s)) (\<lambda>num_results c s. Some (num_results \<ge> k)) () =
      scan (\<lambda>c s. Some ((True, True), s)) (\<lambda>num_results c s. Some (num_results \<ge> k)) (map (candidate merc t c) is) [] ()"
    using priority_queue.Nearest_scan [OF assms(9) t(2), of "\<lambda>c s. Some ((True, True), s)" "\<lambda>num_results c s. Some (num_results \<ge> k)" "()"] by blast
  let ?cs = "map (candidate merc t c) is"
  have "Nearest_count merc pop t c k = Some (take k ?cs)" unfolding Nearest_count_def i(3) scan_take by simp
  moreover have "length ?cs = length input" using mset_eq_length [OF i(1)] mset_eq_length [OF t(3)] by simp
  moreover have "sorted (map (\<lambda>x. sq_dist fixed (fixed_projected_coordinate x)) ?cs)" using i(2) by (simp add: object_dist_def [abs_def] comp_def)
  moreover have "mset (map cand_data ?cs) = mset input" using candidates_of_order [OF i(1)] t(3) by simp
  moreover have "\<forall>x \<in> set ?cs. fixed_projected_coordinate x = object_point merc coordinates c (cand_data x)" using t(4) by (auto simp: candidate_def)
  moreover have "Coordinate_of_float (project merc c) = Some fixed" using t(2) by (simp add: query_ok_def)
  ultimately show ?thesis using t(1)
    by (intro exI [of _ t] exI [of _ "take k ?cs"] exI [of _ "drop k ?cs"] exI [of _ fixed] conjI) (simp_all only: append_take_drop_id length_take min.commute)
qed

theorem StaticRTree_k_nearest_witness:
  "\<exists>t results rest fixed. StaticRTree_make demo_mercator (\<lambda>xs. xs) 2 1 demo_segments demo_coordinates = Some t
    \<and> Nearest_count demo_mercator pop_nearest t \<lparr>crd_lon = 8000, crd_lat = 8000\<rparr> 2 = Some results \<and> length results = 2
    \<and> mset (map cand_data (results @ rest)) = mset demo_segments
    \<and> sorted (map (\<lambda>x. sq_dist fixed (fixed_projected_coordinate x)) (results @ rest))"
proof -
  have "min 2 (length demo_segments) = 2" by (simp add: demo_segments_def)
  then show ?thesis
    using StaticRTree_k_nearest [OF demo_network(1-4) _ _ demo_network(5,6) list_queue.priority_queue_axioms, of 2 1 2] by fastforce
qed



end
