(* ===== verification/Geospatial_Query.thy ===== *)
theory Geospatial_Query
  imports Annotate_Path Static_RTree_Search
begin

text \<open>
  \<^verbatim>\<open>include/engine/geospatial_query.hpp\<close>: the candidates a coordinate of a request can be snapped to.  The
  segments come from the R-tree in the order of their distance; filters reject directions that are
  excluded, on the wrong side, closed, or point elsewhere; the rest become phantom nodes with the live weights.
  The great circle distance and the bearing between two coordinates are arguments (\<open>GeoMath\<close>), the data
  facade is a record of functions.  \<^term>\<open>None\<close> is undefined behaviour.
\<close>

section \<open>Interfaces\<close>

record GeoMath =
  mercator :: Mercator
  greatCircleDistance :: "Coordinate \<Rightarrow> Coordinate \<Rightarrow> fp"
  bearing_between :: "Coordinate \<Rightarrow> Coordinate \<Rightarrow> fp"

record QueryFacade = PathFacade +
  GetComponentID :: "nat \<Rightarrow> ComponentID"
  ExcludeNode :: "nat \<Rightarrow> bool"
  IsLeftHandDriving :: "nat \<Rightarrow> bool"

text \<open>The members of the class; the clock readings of the \<open>n\<close>-th aggregation are \<open>clock n\<close>.\<close>

record GeospatialQuery =
  gq_rtree :: StaticRTree
  gq_coordinates :: "Coordinate list"
  gq_facade :: QueryFacade
  gq_geo :: GeoMath
  gq_pop :: pq_pop
  gq_clock :: "nat \<Rightarrow> int \<times> int"

text \<open>The process-wide store and the number of aggregations so far.\<close>

type_synonym gq_state = "LiveDataStore \<times> nat"

definition INVALID_SEGMENT_WEIGHT :: "32 word" where
  "INVALID_SEGMENT_WEIGHT = 4194303"

section \<open>Phantom nodes\<close>

definition toWGS84 :: "Mercator \<Rightarrow> FloatCoordinate \<Rightarrow> FloatCoordinate" where
  "toWGS84 merc c = \<lparr>fcrd_lon = fcrd_lon c, fcrd_lat = yToLat merc (fcrd_lat c)\<rparr>"

definition perpendicularDistance :: "GeoMath \<Rightarrow> Coordinate \<Rightarrow> Coordinate \<Rightarrow> Coordinate \<Rightarrow> (fp \<times> Coordinate \<times> fp) option" where
  "perpendicularDistance G segment_source segment_target query_location =
     (let merc = mercator G;
          (ratio, projected_nearest) = projectPointOnSegment (project merc segment_source) (project merc segment_target) (project merc query_location)
      in do {
        nearest_location \<leftarrow> Coordinate_of_float (toWGS84 merc projected_nearest);
        Some (greatCircleDistance G query_location nearest_location, nearest_location, ratio)
      })"

text \<open>\<^verbatim>\<open>std::accumulate\<close> over a part of a vector of \<^verbatim>\<open>uint32_t\<close> values, converted to \<^verbatim>\<open>int32_t\<close>; the sum wraps around.\<close>

definition accumulate_first :: "nat \<Rightarrow> 32 word list \<Rightarrow> int option" where
  "accumulate_first n ws = (if n \<le> length ws then Some (sint (sum_list (take n ws))) else None)"

fun path_length :: "QueryFacade \<Rightarrow> GeoMath \<Rightarrow> 32 word list \<Rightarrow> fp \<Rightarrow> fp" where
  "path_length F G (a # b # ns) acc =
     path_length F G (b # ns) (fp_add acc (greatCircleDistance G (GetCoordinateOfNode F a) (GetCoordinateOfNode F b)))"
| "path_length F G _ acc = acc"

definition clamp_ratio :: "fp \<Rightarrow> fp" where
  "clamp_ratio ratio = (let r = (if fp_less (Fin 0) ratio then ratio else Fin 0) in if fp_less r (Fin 1) then r else Fin 1)"

definition scale_int :: "int \<Rightarrow> fp \<Rightarrow> int option" where
  "scale_int x ratio = fp_to_i32 (fp_mul (Fin (of_int x)) ratio)"

definition areSegmentsValid :: "32 word list \<Rightarrow> bool" where
  "areSegmentsValid ws \<longleftrightarrow> list_all (\<lambda>w. w \<noteq> INVALID_SEGMENT_WEIGHT) ws"

definition fp_to_u16 :: "fp \<Rightarrow> nat option" where
  "fp_to_u16 x = do { i \<leftarrow> fp_to_i32 x; if 0 \<le> i \<and> i < 2 ^ 16 then Some (nat i) else None }"

text \<open>The weights and durations of a phantom node, before and after the split at the ratio.\<close>

definition split_forward :: "SegmentID \<Rightarrow> fp \<Rightarrow> int \<Rightarrow> int option" where
  "split_forward segment ratio x = (if seg_id segment \<noteq> SPECIAL_SEGMENTID then scale_int x ratio else Some x)"

definition split_reverse :: "SegmentID \<Rightarrow> fp \<Rightarrow> int \<Rightarrow> int option" where
  "split_reverse segment ratio x =
     (if seg_id segment \<noteq> SPECIAL_SEGMENTID then do { y \<leftarrow> scale_int x ratio; i32_sub x y } else Some x)"

definition MakePhantomNode :: "GeospatialQuery \<Rightarrow> Coordinate \<Rightarrow> EdgeBasedNodeSegment \<Rightarrow> gq_state \<Rightarrow> (PhantomNodeWithDistance \<times> gq_state) option" where
  "MakePhantomNode Q input_coordinate data s =
     (let F = gq_facade Q; G = gq_geo Q; pos = ebn_fwd_segment_position data; fwd = ebn_forward_segment_id data; rvs = ebn_reverse_segment_id data in
      do {
        cu \<leftarrow> vector_at (gq_coordinates Q) (ebn_u data);
        cv \<leftarrow> vector_at (gq_coordinates Q) (ebn_v data);
        (perpendicular, point_on_segment, ratio) \<leftarrow> perpendicularDistance G cu cv input_coordinate;
        let geometry_id = GetGeometryIndex F (word_of_nat (seg_id fwd));
        let component_id = GetComponentID F (seg_id fwd);
        let (now1, now2) = gq_clock Q (snd s);
        st \<leftarrow> AggregatePendingTrafficSamples (Traffic_Aggregator.BaseDataFacade.truncate F) (lds_stale_seconds (fst s)) now1 now2 (fst s);
        let forward_weights = GetUncompressedForwardWeights F geometry_id;
        let reverse_weights = GetUncompressedReverseWeights F geometry_id;
        live_forward \<leftarrow> ApplyLiveTrafficToSegmentWeights st geometry_id forward_weights;
        live_reverse \<leftarrow> ApplyLiveTrafficToSegmentWeights st geometry_id reverse_weights;
        let forward_durations = GetUncompressedForwardDurations F geometry_id;
        let reverse_durations = GetUncompressedReverseDurations F geometry_id;
        let forward_geometry = GetUncompressedForwardGeometry F geometry_id;
        fwo \<leftarrow> accumulate_first pos live_forward;
        fdo \<leftarrow> accumulate_first pos forward_durations;
        if pos + 1 < length forward_geometry \<and> pos < length live_reverse \<and> pos < length reverse_durations then do {
          let before_length = path_length F G (take (pos + 1) forward_geometry) (Fin 0);
          weight \<leftarrow> vector_at live_forward pos;
          duration \<leftarrow> vector_at forward_durations pos;
          let from_start = greatCircleDistance G (GetCoordinateOfNode F (forward_geometry ! pos)) point_on_segment;
          rwo \<leftarrow> accumulate_first (length live_reverse - pos - 1) live_reverse;
          rdo \<leftarrow> accumulate_first (length reverse_durations - pos - 1) reverse_durations;
          let after_length = path_length F G (drop (pos + 1) forward_geometry) (Fin 0);
          let to_end = greatCircleDistance G point_on_segment (GetCoordinateOfNode F (forward_geometry ! (pos + 1)));
          let ratio = clamp_ratio ratio;
          fw \<leftarrow> split_forward fwd ratio (sint weight);
          fd \<leftarrow> split_forward fwd ratio (sint duration);
          rw \<leftarrow> split_reverse rvs ratio (sint (live_reverse ! (length live_reverse - pos - 1)));
          rd \<leftarrow> split_reverse rvs ratio (sint (reverse_durations ! (length reverse_durations - pos - 1)));
          angle \<leftarrow> fp_to_u16 (bearing_between G cu cv);
          Some (\<lparr>phantom_node =
            \<lparr>forward_segment_id = fwd, reverse_segment_id = rvs, forward_weight = fw, reverse_weight = rw,
             forward_weight_offset = fwo, reverse_weight_offset = rwo,
             forward_distance = from_start, reverse_distance = to_end,
             forward_distance_offset = before_length, reverse_distance_offset = after_length,
             forward_duration = fd, reverse_duration = rd,
             forward_duration_offset = fdo, reverse_duration_offset = rdo,
             component = component_id, location = point_on_segment, input_location = input_coordinate, fwd_segment_position = pos,
             is_valid_forward_source = areSegmentsValid forward_weights,
             is_valid_forward_target = areSegmentsValid (take (pos + 1) forward_weights),
             is_valid_reverse_source = areSegmentsValid reverse_weights,
             is_valid_reverse_target = areSegmentsValid (take (length reverse_weights - pos) reverse_weights),
             bearing = angle mod 2 ^ 12\<rparr>,
            distance = perpendicular\<rparr>, (st, snd s + 1))
        } else None
      })"

fun MakePhantomNodes :: "GeospatialQuery \<Rightarrow> Coordinate \<Rightarrow> CandidateSegment list \<Rightarrow> gq_state \<Rightarrow> (PhantomNodeWithDistance list \<times> gq_state) option" where
  "MakePhantomNodes Q input_coordinate [] s = Some ([], s)"
| "MakePhantomNodes Q input_coordinate (segment # segments) s = do {
     (p, s') \<leftarrow> MakePhantomNode Q input_coordinate (cand_data segment) s;
     (ps, s'') \<leftarrow> MakePhantomNodes Q input_coordinate segments s';
     Some (p # ps, s'')
   }"

section \<open>Filters\<close>

type_synonym directions = "bool \<times> bool"

definition both :: "directions \<Rightarrow> directions \<Rightarrow> directions" where
  "both a b = (fst a \<and> fst b, snd a \<and> snd b)"

definition GetSegmentDistance :: "GeospatialQuery \<Rightarrow> Coordinate \<Rightarrow> CandidateSegment \<Rightarrow> fp option" where
  "GetSegmentDistance Q input_coordinate segment = do {
     wgs84 \<leftarrow> Coordinate_of_float (toWGS84 (mercator (gq_geo Q)) (FloatCoordinate_of_fixed (fixed_projected_coordinate segment)));
     Some (greatCircleDistance (gq_geo Q) input_coordinate wgs84)
   }"

definition CheckSegmentDistance :: "GeospatialQuery \<Rightarrow> Coordinate \<Rightarrow> CandidateSegment \<Rightarrow> fp \<Rightarrow> bool option" where
  "CheckSegmentDistance Q input_coordinate segment max_distance = do {
     d \<leftarrow> GetSegmentDistance Q input_coordinate segment;
     Some (fp_less max_distance d)
   }"

definition CheckSegmentExclude :: "GeospatialQuery \<Rightarrow> CandidateSegment \<Rightarrow> directions" where
  "CheckSegmentExclude Q segment =
     (let fwd = ebn_forward_segment_id (cand_data segment); rvs = ebn_reverse_segment_id (cand_data segment)
      in (\<not> (enabled fwd \<and> ExcludeNode (gq_facade Q) (seg_id fwd)), \<not> (enabled rvs \<and> ExcludeNode (gq_facade Q) (seg_id rvs))))"

text \<open>\<^verbatim>\<open>bearing::CheckInBounds\<close>; \<^verbatim>\<open>%\<close> truncates.\<close>

definition normalize_bearing :: "int \<Rightarrow> int" where
  "normalize_bearing x = (if x < 0 then - (- x mod 360) + 360 else x mod 360)"

definition CheckInBounds :: "int \<Rightarrow> int \<Rightarrow> int \<Rightarrow> bool" where
  "CheckInBounds A B rng =
     (if rng \<ge> 180 then True
      else if rng < 0 then False
      else let normalized_B = normalize_bearing B; normalized_A = normalize_bearing A
           in if normalized_B - rng < 0
              then (normalized_B - rng + 360 \<le> normalized_A \<and> normalized_A < 360) \<or> (0 \<le> normalized_A \<and> normalized_A \<le> normalized_B + rng)
              else if normalized_B + rng > 360
              then (normalized_B - rng \<le> normalized_A \<and> normalized_A < 360) \<or> (0 \<le> normalized_A \<and> normalized_A \<le> normalized_B + rng - 360)
              else normalized_B - rng \<le> normalized_A \<and> normalized_A \<le> normalized_B + rng)"

definition CheckSegmentBearing :: "GeospatialQuery \<Rightarrow> CandidateSegment \<Rightarrow> Bearing \<Rightarrow> directions option" where
  "CheckSegmentBearing Q segment filter_bearing = (let data = cand_data segment in do {
     cu \<leftarrow> vector_at (gq_coordinates Q) (ebn_u data);
     cv \<leftarrow> vector_at (gq_coordinates Q) (ebn_v data);
     let forward_edge = bearing_between (gq_geo Q) cu cv;
     let backward_edge = (if fp_less (Fin 360) (fp_add forward_edge (Fin 180)) then fp_add forward_edge (Fin (- 180)) else fp_add forward_edge (Fin 180));
     f \<leftarrow> fp_to_i32 (fp_round forward_edge);
     b \<leftarrow> fp_to_i32 (fp_round backward_edge);
     let want = sint (brg_bearing filter_bearing); rng = sint (brg_range filter_bearing)
     in Some (CheckInBounds f want rng \<and> enabled (ebn_forward_segment_id data), CheckInBounds b want rng \<and> enabled (ebn_reverse_segment_id data))
   })"

definition HasValidEdge :: "GeospatialQuery \<Rightarrow> CandidateSegment \<Rightarrow> bool \<Rightarrow> directions option" where
  "HasValidEdge Q segment use_all_edges =
     (let data = cand_data segment; F = gq_facade Q; pos = ebn_fwd_segment_position data;
          geometry_id = GetGeometryIndex F (word_of_nat (seg_id (ebn_forward_segment_id data)));
          reverse_weights = GetUncompressedReverseWeights F geometry_id
      in do {
        w \<leftarrow> vector_at (GetUncompressedForwardWeights F geometry_id) pos;
        r \<leftarrow> (if pos < length reverse_weights then Some (reverse_weights ! (length reverse_weights - pos - 1)) else None);
        let usable = is_startpoint data \<or> use_all_edges
        in Some (w \<noteq> INVALID_SEGMENT_WEIGHT \<and> enabled (ebn_forward_segment_id data) \<and> usable,
             r \<noteq> INVALID_SEGMENT_WEIGHT \<and> enabled (ebn_reverse_segment_id data) \<and> usable)
      })"

definition IsTinyComponent :: "GeospatialQuery \<Rightarrow> CandidateSegment \<Rightarrow> bool" where
  "IsTinyComponent Q segment = is_tiny (GetComponentID (gq_facade Q) (seg_id (ebn_forward_segment_id (cand_data segment))))"

definition signedArea :: "Coordinate \<Rightarrow> Coordinate \<Rightarrow> Coordinate \<Rightarrow> rat" where
  "signedArea c1 c2 c3 =
     (let deg = (\<lambda>x. of_int x / 1000000); lat1 = deg (crd_lat c1); lon1 = deg (crd_lon c1); lat2 = deg (crd_lat c2); lon2 = deg (crd_lon c2);
          lat3 = deg (crd_lat c3); lon3 = deg (crd_lon c3)
      in 1 / 2 * (- lon2 * lat1 + lon3 * lat1 + lon1 * lat2 - lon3 * lat2 - lon1 * lat3 + lon2 * lat3))"

definition isCCW :: "Coordinate \<Rightarrow> Coordinate \<Rightarrow> Coordinate \<Rightarrow> bool" where
  "isCCW c1 c2 c3 \<longleftrightarrow> signedArea c1 c2 c3 > 0"

definition CheckApproach :: "GeospatialQuery \<Rightarrow> Coordinate \<Rightarrow> CandidateSegment \<Rightarrow> Approach \<Rightarrow> directions option" where
  "CheckApproach Q input_coordinate segment approach =
     (let data = cand_data segment; oneway = \<not> (enabled (ebn_forward_segment_id data) \<and> enabled (ebn_reverse_segment_id data))
      in if \<not> oneway \<and> approach = CURB then do {
           cu \<leftarrow> vector_at (gq_coordinates Q) (ebn_u data);
           cv \<leftarrow> vector_at (gq_coordinates Q) (ebn_v data);
           let at_right = \<not> isCCW cu cv input_coordinate;
               at_right = (if IsLeftHandDriving (gq_facade Q) (seg_id (ebn_forward_segment_id data)) then \<not> at_right else at_right)
           in Some (at_right, \<not> at_right)
         } else Some (True, True))"

record SnapOptions =
  snap_approach :: Approach
  snap_max_results :: "nat option"
  snap_max_distance :: "fp option"
  snap_bearing :: "Bearing option"
  snap_use_all_edges :: "bool option"

definition use_segment :: "GeospatialQuery \<Rightarrow> Coordinate \<Rightarrow> SnapOptions \<Rightarrow> CandidateSegment \<Rightarrow> directions option" where
  "use_segment Q input_coordinate opts segment = do {
     a \<leftarrow> CheckApproach Q input_coordinate segment (snap_approach opts);
     e \<leftarrow> HasValidEdge Q segment (case snap_use_all_edges opts of Some x \<Rightarrow> x | None \<Rightarrow> False);
     b \<leftarrow> (case snap_bearing opts of Some b \<Rightarrow> CheckSegmentBearing Q segment b | None \<Rightarrow> Some (True, True));
     Some (both (both (both (CheckSegmentExclude Q segment) a) e) b)
   }"

section \<open>Queries\<close>

definition too_far :: "GeospatialQuery \<Rightarrow> Coordinate \<Rightarrow> SnapOptions \<Rightarrow> CandidateSegment \<Rightarrow> bool option" where
  "too_far Q input_coordinate opts segment = (case snap_max_distance opts of None \<Rightarrow> Some False
     | Some m \<Rightarrow> if m = Fin (- 1) then Some False else CheckSegmentDistance Q input_coordinate segment m)"

definition NearestPhantomNodes_gq :: "GeospatialQuery \<Rightarrow> Coordinate \<Rightarrow> SnapOptions \<Rightarrow> gq_state \<Rightarrow> (PhantomNodeWithDistance list \<times> gq_state) option" where
  "NearestPhantomNodes_gq Q input_coordinate opts s = do {
     (results, _) \<leftarrow> Nearest (mercator (gq_geo Q)) (gq_pop Q) (gq_rtree Q) input_coordinate
       (\<lambda>segment u. do { use \<leftarrow> use_segment Q input_coordinate opts segment; Some (use, u) })
       (\<lambda>num_results segment u. case snap_max_results opts of
          Some m \<Rightarrow> if num_results \<ge> m then Some True else too_far Q input_coordinate opts segment
        | None \<Rightarrow> too_far Q input_coordinate opts segment) ();
     MakePhantomNodes Q input_coordinate results s
   }"

text \<open>The variables that the filter of the candidate search captures.\<close>

record snap_vars =
  has_nearest :: bool
  has_big_component :: bool
  nearest_coord :: Coordinate
  big_component_coord :: Coordinate
  big_component_distance :: fp

definition snap_init :: snap_vars where
  "snap_init = (let c = \<lparr>crd_lon = - 2147483648, crd_lat = - 2147483648\<rparr> in
     \<lparr>has_nearest = False, has_big_component = False, nearest_coord = c, big_component_coord = c,
      big_component_distance = Fin (2 ^ 1024 - 2 ^ 971)\<rparr>)"

definition candidate_filter :: "GeospatialQuery \<Rightarrow> Coordinate \<Rightarrow> SnapOptions \<Rightarrow> snap_vars filter_fun" where
  "candidate_filter Q input_coordinate opts segment v =
     (let is_big = \<not> IsTinyComponent Q segment;
          not_nearest = has_nearest v \<and> fixed_projected_coordinate segment \<noteq> nearest_coord v;
          not_big = has_big_component v \<and> fixed_projected_coordinate segment \<noteq> big_component_coord v
      in if (\<not> is_big \<and> not_nearest) \<or> (is_big \<and> not_big) then Some ((False, False), v)
         else do {
           use \<leftarrow> use_segment Q input_coordinate opts segment;
           if fst use \<or> snd use then do {
             let v = (if has_nearest v then v else v\<lparr>has_nearest := True, nearest_coord := fixed_projected_coordinate segment\<rparr>);
             v \<leftarrow> (if is_big \<and> \<not> has_big_component v then do {
                d \<leftarrow> GetSegmentDistance Q input_coordinate segment;
                Some (v\<lparr>has_big_component := True, big_component_coord := fixed_projected_coordinate segment, big_component_distance := d\<rparr>)
              } else Some v);
             Some (use, v)
           } else Some (use, v)
         })"

definition candidate_terminate :: "GeospatialQuery \<Rightarrow> Coordinate \<Rightarrow> SnapOptions \<Rightarrow> snap_vars terminate_fun" where
  "candidate_terminate Q input_coordinate opts num_results segment v = do {
     d \<leftarrow> GetSegmentDistance Q input_coordinate segment;
     Some ((has_big_component v \<and> fp_less (big_component_distance v) d) \<or>
       (case snap_max_distance opts of None \<Rightarrow> False | Some m \<Rightarrow> m \<noteq> Fin (- 1) \<and> fp_less m d))
   }"

text \<open>One more candidate; of two candidates on the same segment one is kept.\<close>

definition same_segment :: "EdgeBasedNodeSegment \<Rightarrow> PhantomNode \<Rightarrow> bool" where
  "same_segment data node \<longleftrightarrow> seg_id (ebn_forward_segment_id data) = seg_id (forward_segment_id node) \<and>
     seg_id (ebn_reverse_segment_id data) = seg_id (reverse_segment_id node)"

definition replaces :: "EdgeBasedNodeSegment \<Rightarrow> PhantomNode \<Rightarrow> bool" where
  "replaces data node =
     (let data_both = enabled (ebn_forward_segment_id data) \<and> enabled (ebn_reverse_segment_id data);
          node_both = enabled (forward_segment_id node) \<and> enabled (reverse_segment_id node)
      in if fwd_segment_position node < ebn_fwd_segment_position data then data_both \<and> \<not> node_both
         else \<not> enabled (forward_segment_id node) \<or> \<not> enabled (reverse_segment_id node) \<or> data_both)"

fun add_to_candidates :: "GeospatialQuery \<Rightarrow> Coordinate \<Rightarrow> PhantomNodeCandidates \<Rightarrow> EdgeBasedNodeSegment \<Rightarrow> gq_state
    \<Rightarrow> (PhantomNodeCandidates \<times> gq_state) option" where
  "add_to_candidates Q input_coordinate [] data s = do {
     (p, s') \<leftarrow> MakePhantomNode Q input_coordinate data s;
     Some ([phantom_node p], s')
   }"
| "add_to_candidates Q input_coordinate (node # candidates) data s =
     (if same_segment data node then
        if replaces data node then do {
          (p, s') \<leftarrow> MakePhantomNode Q input_coordinate data s;
          Some (phantom_node p # candidates, s')
        } else Some (node # candidates, s)
      else do {
        (candidates', s') \<leftarrow> add_to_candidates Q input_coordinate candidates data s;
        Some (node # candidates', s')
      })"

fun collect_candidates :: "GeospatialQuery \<Rightarrow> Coordinate \<Rightarrow> Coordinate \<Rightarrow> CandidateSegment list \<Rightarrow> PhantomCandidateAlternatives \<Rightarrow> gq_state
    \<Rightarrow> (PhantomCandidateAlternatives \<times> gq_state) option" where
  "collect_candidates Q input_coordinate nearest_location [] c s = Some (c, s)"
| "collect_candidates Q input_coordinate nearest_location (segment # segments) (near, big) s =
     (if fixed_projected_coordinate segment = nearest_location then do {
        (near', s') \<leftarrow> add_to_candidates Q input_coordinate near (cand_data segment) s;
        collect_candidates Q input_coordinate nearest_location segments (near', big) s'
      } else do {
        (big', s') \<leftarrow> add_to_candidates Q input_coordinate big (cand_data segment) s;
        collect_candidates Q input_coordinate nearest_location segments (near, big') s'
      })"

definition MakeAlternativeBigCandidates :: "GeospatialQuery \<Rightarrow> Coordinate \<Rightarrow> Coordinate \<Rightarrow> CandidateSegment list \<Rightarrow> gq_state
    \<Rightarrow> (PhantomCandidateAlternatives \<times> gq_state) option" where
  "MakeAlternativeBigCandidates Q input_coordinate nearest_location results s =
     (if results = [] then Some (([], []), s) else collect_candidates Q input_coordinate nearest_location results ([], []) s)"

definition NearestCandidatesWithAlternativeFromBigComponent :: "GeospatialQuery \<Rightarrow> Coordinate \<Rightarrow> SnapOptions \<Rightarrow> gq_state
    \<Rightarrow> (PhantomCandidateAlternatives \<times> gq_state) option" where
  "NearestCandidatesWithAlternativeFromBigComponent Q input_coordinate opts s = do {
     (results, v) \<leftarrow> Nearest (mercator (gq_geo Q)) (gq_pop Q) (gq_rtree Q) input_coordinate
       (candidate_filter Q input_coordinate opts) (candidate_terminate Q input_coordinate opts) snap_init;
     MakeAlternativeBigCandidates Q input_coordinate (nearest_coord v) results s
   }"

section \<open>The split of a segment\<close>

lemma clamp_ratio_range: obtains r where "clamp_ratio x = Fin r" "0 \<le> r" "r \<le> 1"
proof (cases x)
  case (Fin a)
  then show ?thesis using that [of "if 0 < a then min a 1 else 0"] by (auto simp: clamp_ratio_def Let_def min_def)
qed (use that [of 0] that [of 1] in \<open>auto simp: clamp_ratio_def\<close>)

lemma scale_int_range:
  assumes "0 \<le> x" "x < 2 ^ 31" "0 \<le> r" "r \<le> 1"
  obtains y where "scale_int x (Fin r) = Some y" "0 \<le> y" "y \<le> x"
proof -
  have "0 \<le> of_int x * r" "of_int x * r \<le> of_int x" using assms by (simp_all add: mult_left_le)
  then have "0 \<le> trunc (of_int x * r)" "trunc (of_int x * r) \<le> x" by (simp_all add: trunc_def floor_le_iff)
  then show ?thesis using that [of "trunc (of_int x * r)"] assms(2) by (simp add: scale_int_def)
qed

lemma unat_sum_list:
  fixes ws :: "32 word list"
  shows "sum_list (map unat ws) < 2 ^ 32 \<Longrightarrow> unat (sum_list ws) = sum_list (map unat ws)"
proof (induction ws)
  case (Cons w ws)
  then show ?case by (simp add: unat_word_ariths)
qed simp

definition seg_sum :: "32 word list \<Rightarrow> int" where
  "seg_sum ws = (\<Sum>w\<leftarrow>ws. int (unat w))"

lemma seg_sum_simps [simp]: "seg_sum [] = 0" "seg_sum (w # ws) = int (unat w) + seg_sum ws" "seg_sum (ws @ vs) = seg_sum ws + seg_sum vs"
  "seg_sum (rev ws) = seg_sum ws"
  by (simp_all add: seg_sum_def sum_list_rev rev_map [symmetric])

lemma seg_sum_nat: "seg_sum ws = int (sum_list (map unat ws))"
  by (induction ws) simp_all

lemma seg_sum_nonneg: "0 \<le> seg_sum ws"
  by (simp add: seg_sum_nat)

lemma seg_sum_take_le: "seg_sum (take n ws) \<le> seg_sum ws"
  using seg_sum_simps(3) [of "take n ws" "drop n ws"] seg_sum_nonneg [of "drop n ws"] by simp

lemma accumulate_first_eq:
  assumes "n \<le> length ws" "seg_sum ws < 2 ^ 31"
  shows "accumulate_first n ws = Some (seg_sum (take n ws))"
proof -
  have lt: "sum_list (map unat (take n ws)) < 2 ^ 31"
    using le_less_trans [OF seg_sum_take_le [of n ws] assms(2)] by (simp add: seg_sum_nat)
  then have "unat (sum_list (take n ws)) = sum_list (map unat (take n ws))" by (intro unat_sum_list) simp
  moreover from this lt have "sint (sum_list (take n ws)) = int (unat (sum_list (take n ws)))" by (intro sint_small) (simp only:)
  ultimately show ?thesis using assms(1) by (simp add: accumulate_first_def seg_sum_nat)
qed

lemma seg_sum_split:
  assumes "i < length ws"
  shows "seg_sum ws = seg_sum (take i ws) + int (unat (ws ! i)) + seg_sum (drop (i + 1) ws)"
proof -
  have "ws = take i ws @ ws ! i # drop (i + 1) ws" using assms by (simp add: id_take_nth_drop)
  then have "seg_sum ws = seg_sum (take i ws @ ws ! i # drop (i + 1) ws)" by simp
  then show ?thesis by simp
qed

lemma nth_small:
  assumes "i < length ws" "seg_sum ws < 2 ^ 31"
  shows "sint (ws ! i) = int (unat (ws ! i))" "int (unat (ws ! i)) < 2 ^ 31"
proof -
  show "int (unat (ws ! i)) < 2 ^ 31"
    using seg_sum_split [OF assms(1)] assms(2) seg_sum_nonneg [of "take i ws"] seg_sum_nonneg [of "drop (i + 1) ws"] by linarith
  then have "int (unat (ws ! i)) < int (2 ^ 31)" by simp
  then have "unat (ws ! i) < 2 ^ 31" by (simp only: of_nat_less_iff)
  then show "sint (ws ! i) = int (unat (ws ! i))" by (rule sint_small)
qed

text \<open>
  The halves of a segment: with both directions present they add up to the segment, and a missing
  direction gets the whole of it.
\<close>

lemma split_forward_ok:
  assumes "0 \<le> x" "x < 2 ^ 31"
  obtains y where "split_forward segment (clamp_ratio ratio) x = Some y" "0 \<le> y" "y \<le> x"
proof -
  obtain r where r: "clamp_ratio ratio = Fin r" "0 \<le> r" "r \<le> 1" by (rule clamp_ratio_range)
  obtain y where "scale_int x (Fin r) = Some y" "0 \<le> y" "y \<le> x" by (rule scale_int_range [OF assms r(2,3)])
  then show ?thesis using that assms r(1) by (cases "seg_id segment = SPECIAL_SEGMENTID") (auto simp: split_forward_def)
qed

lemma split_reverse_ok:
  assumes "0 \<le> x" "x < 2 ^ 31"
  obtains y where "split_reverse segment (clamp_ratio ratio) x = Some y" "0 \<le> y" "y \<le> x"
proof -
  obtain r where r: "clamp_ratio ratio = Fin r" "0 \<le> r" "r \<le> 1" by (rule clamp_ratio_range)
  obtain y where y: "scale_int x (Fin r) = Some y" "0 \<le> y" "y \<le> x" by (rule scale_int_range [OF assms r(2,3)])
  then have "i32_sub x y = Some (x - y)" using assms by (simp add: i32_sub_def in_i32_def)
  then show ?thesis using that assms r(1) y by (cases "seg_id segment = SPECIAL_SEGMENTID") (auto simp: split_reverse_def)
qed

lemma split_complement:
  assumes "seg_id fwd \<noteq> SPECIAL_SEGMENTID" "seg_id rvs \<noteq> SPECIAL_SEGMENTID" "split_forward fwd ratio x = Some a" "split_reverse rvs ratio x = Some b"
  shows "a + b = x"
  using assms by (auto simp: split_forward_def split_reverse_def i32_sub_def bind_eq_Some_conv split: if_splits)

section \<open>Phantom nodes are defined\<close>

text \<open>The data a segment needs for its phantom node, with the weights under live traffic \<open>lf\<close> and \<open>lr\<close>.\<close>

definition phantom_input_ok :: "GeospatialQuery \<Rightarrow> Coordinate \<Rightarrow> EdgeBasedNodeSegment \<Rightarrow> LiveDataStore \<Rightarrow> 32 word list \<Rightarrow> 32 word list \<Rightarrow> bool" where
  "phantom_input_ok Q c data st lf lr \<longleftrightarrow>
     (let F = gq_facade Q; g = GetGeometryIndex F (word_of_nat (seg_id (ebn_forward_segment_id data))); n = length lf in
      ebn_u data < length (gq_coordinates Q) \<and> ebn_v data < length (gq_coordinates Q) \<and> ebn_fwd_segment_position data < n
      \<and> perpendicularDistance (gq_geo Q) (gq_coordinates Q ! ebn_u data) (gq_coordinates Q ! ebn_v data) c \<noteq> None
      \<and> fp_to_u16 (bearing_between (gq_geo Q) (gq_coordinates Q ! ebn_u data) (gq_coordinates Q ! ebn_v data)) \<noteq> None
      \<and> ApplyLiveTrafficToSegmentWeights st g (GetUncompressedForwardWeights F g) = Some lf
      \<and> ApplyLiveTrafficToSegmentWeights st g (GetUncompressedReverseWeights F g) = Some lr
      \<and> length lr = n \<and> length (GetUncompressedForwardDurations F g) = n \<and> length (GetUncompressedReverseDurations F g) = n
      \<and> length (GetUncompressedForwardGeometry F g) = n + 1
      \<and> seg_sum lf < 2 ^ 31 \<and> seg_sum lr < 2 ^ 31 \<and> seg_sum (GetUncompressedForwardDurations F g) < 2 ^ 31
      \<and> seg_sum (GetUncompressedReverseDurations F g) < 2 ^ 31)"

definition phantom_of :: "EdgeBasedNodeSegment \<Rightarrow> PhantomNode \<Rightarrow> bool" where
  "phantom_of data x \<longleftrightarrow> forward_segment_id x = ebn_forward_segment_id data \<and> reverse_segment_id x = ebn_reverse_segment_id data
     \<and> fwd_segment_position x = ebn_fwd_segment_position data"

definition splits :: "EdgeBasedNodeSegment \<Rightarrow> 32 word list \<Rightarrow> 32 word list \<Rightarrow> PhantomNode \<Rightarrow> bool" where
  "splits data lf lr x \<longleftrightarrow> (let pos = ebn_fwd_segment_position data; n = length lf in
     forward_weight_offset x = seg_sum (take pos lf) \<and> 0 \<le> forward_weight x \<and> forward_weight x \<le> int (unat (lf ! pos))
     \<and> reverse_weight_offset x = seg_sum (take (n - pos - 1) lr) \<and> 0 \<le> reverse_weight x \<and> reverse_weight x \<le> int (unat (lr ! (n - pos - 1)))
     \<and> (seg_id (ebn_forward_segment_id data) \<noteq> SPECIAL_SEGMENTID \<and> seg_id (ebn_reverse_segment_id data) \<noteq> SPECIAL_SEGMENTID \<and> lr = rev lf \<longrightarrow>
          forward_weight_offset x + forward_weight x + reverse_weight x + reverse_weight_offset x = seg_sum lf))"

lemma rev_split:
  assumes "i < length lf"
  shows "seg_sum (take (length lf - i - 1) (rev lf)) = seg_sum (drop (i + 1) lf)" "rev lf ! (length lf - i - 1) = lf ! i"
  using assms by (simp_all add: take_rev rev_nth)

lemma MakePhantomNode_ok:
  assumes "AggregatePendingTrafficSamples (Traffic_Aggregator.BaseDataFacade.truncate (gq_facade Q)) (lds_stale_seconds st)
      (fst (gq_clock Q n)) (snd (gq_clock Q n)) st = Some st'" "phantom_input_ok Q c data st' lf lr"
  shows "\<exists>p. MakePhantomNode Q c data (st, n) = Some (p, (st', n + 1)) \<and> phantom_of data (phantom_node p) \<and> splits data lf lr (phantom_node p)
    \<and> (is_valid_forward_source (phantom_node p) \<longrightarrow> is_valid_forward_target (phantom_node p))
    \<and> (is_valid_reverse_source (phantom_node p) \<longrightarrow> is_valid_reverse_target (phantom_node p))"
proof -
  let ?F = "gq_facade Q" and ?pos = "ebn_fwd_segment_position data" and ?n = "length lf"
  let ?fwd = "ebn_forward_segment_id data" and ?rvs = "ebn_reverse_segment_id data"
  let ?g = "GetGeometryIndex ?F (word_of_nat (seg_id ?fwd))" let ?fds = "GetUncompressedForwardDurations ?F ?g" and ?rds = "GetUncompressedReverseDurations ?F ?g"
  note ok = assms(2) [unfolded phantom_input_ok_def Let_def]
  obtain dst loc ratio where pd: "perpendicularDistance (gq_geo Q) (gq_coordinates Q ! ebn_u data) (gq_coordinates Q ! ebn_v data) c = Some (dst, loc, ratio)"
    using ok by (metis not_None_eq prod_cases3)
  obtain angle where an: "fp_to_u16 (bearing_between (gq_geo Q) (gq_coordinates Q ! ebn_u data) (gq_coordinates Q ! ebn_v data)) = Some angle"
    using ok by blast
  obtain now1 now2 where cl: "gq_clock Q n = (now1, now2)" by fastforce
  have pos: "?pos < ?n" "?n - ?pos - 1 < ?n" "?n - ?pos - 1 \<le> ?n" "?pos \<le> ?n" using ok by auto
  have acc: "accumulate_first ?pos lf = Some (seg_sum (take ?pos lf))" "accumulate_first ?pos ?fds = Some (seg_sum (take ?pos ?fds))"
    "accumulate_first (?n - ?pos - 1) lr = Some (seg_sum (take (?n - ?pos - 1) lr))"
    "accumulate_first (?n - ?pos - 1) ?rds = Some (seg_sum (take (?n - ?pos - 1) ?rds))"
    using ok pos by (auto intro: accumulate_first_eq)
  have sm: "sint (lf ! ?pos) = int (unat (lf ! ?pos))" "sint (?fds ! ?pos) = int (unat (?fds ! ?pos))"
    "sint (lr ! (?n - ?pos - 1)) = int (unat (lr ! (?n - ?pos - 1)))" "sint (?rds ! (?n - ?pos - 1)) = int (unat (?rds ! (?n - ?pos - 1)))"
    "int (unat (lf ! ?pos)) < 2 ^ 31" "int (unat (?fds ! ?pos)) < 2 ^ 31" "int (unat (lr ! (?n - ?pos - 1))) < 2 ^ 31"
    "int (unat (?rds ! (?n - ?pos - 1))) < 2 ^ 31"
    using ok pos by (metis nth_small)+
  obtain fw where fw: "split_forward ?fwd (clamp_ratio ratio) (int (unat (lf ! ?pos))) = Some fw" "0 \<le> fw" "fw \<le> int (unat (lf ! ?pos))"
    by (rule split_forward_ok [OF of_nat_0_le_iff sm(5)])
  obtain fd where fd: "split_forward ?fwd (clamp_ratio ratio) (int (unat (?fds ! ?pos))) = Some fd"
    by (rule split_forward_ok [OF of_nat_0_le_iff sm(6)])
  obtain rw where rw: "split_reverse ?rvs (clamp_ratio ratio) (int (unat (lr ! (?n - ?pos - 1)))) = Some rw" "0 \<le> rw" "rw \<le> int (unat (lr ! (?n - ?pos - 1)))"
    by (rule split_reverse_ok [OF of_nat_0_le_iff sm(7)])
  obtain rd where rd: "split_reverse ?rvs (clamp_ratio ratio) (int (unat (?rds ! (?n - ?pos - 1)))) = Some rd"
    by (rule split_reverse_ok [OF of_nat_0_le_iff sm(8)])
  have sum: "seg_sum (take ?pos lf) + fw + rw + seg_sum (take (?n - ?pos - 1) lr) = seg_sum lf"
    if "seg_id ?fwd \<noteq> SPECIAL_SEGMENTID" "seg_id ?rvs \<noteq> SPECIAL_SEGMENTID" "lr = rev lf"
    using split_complement [OF that(1,2) fw(1)] rw(1) rev_split [OF pos(1)] seg_sum_split [OF pos(1)] that(3) by simp
  have valid: "areSegmentsValid ws \<Longrightarrow> areSegmentsValid (take k ws)" for ws k by (auto simp: areSegmentsValid_def list_all_iff dest: in_set_takeD)
  show ?thesis
    using ok assms(1) pd an cl pos acc sm(1-4) fw fd rw rd sum valid
    by (simp add: MakePhantomNode_def vector_at_def Let_def phantom_of_def splits_def)
qed

section \<open>Candidates\<close>

abbreviation both_ways :: "EdgeBasedNodeSegment \<Rightarrow> bool" where
  "both_ways data \<equiv> enabled (ebn_forward_segment_id data) \<and> enabled (ebn_reverse_segment_id data)"

definition data_key :: "EdgeBasedNodeSegment \<Rightarrow> nat \<times> nat" where
  "data_key data = (seg_id (ebn_forward_segment_id data), seg_id (ebn_reverse_segment_id data))"

definition node_key :: "PhantomNode \<Rightarrow> nat \<times> nat" where
  "node_key node = (seg_id (forward_segment_id node), seg_id (reverse_segment_id node))"

lemma same_segment_iff: "same_segment data node \<longleftrightarrow> data_key data = node_key node"
  by (auto simp: same_segment_def data_key_def node_key_def)

lemma phantom_of_key: "phantom_of data x \<Longrightarrow> node_key x = data_key data"
  by (simp add: phantom_of_def node_key_def data_key_def)

text \<open>Without pending samples the store stays as it is.\<close>

lemma MakePhantomNode_quiet:
  assumes "lds_pending_samples st = []" "phantom_input_ok Q c data st lf lr"
  obtains p where "MakePhantomNode Q c data (st, n) = Some (p, (st, n + 1))" "phantom_of data (phantom_node p)"
  using MakePhantomNode_ok [OF aggregate_no_pending [OF assms(1)] assms(2)] by blast

lemma add_to_candidates_ok:
  assumes "lds_pending_samples st = []" "phantom_input_ok Q c data st lf lr" "distinct (map node_key cs)"
  shows "\<exists>cs' m. add_to_candidates Q c cs data (st, n) = Some (cs', (st, m)) \<and> cs' \<noteq> [] \<and> distinct (map node_key cs')
    \<and> set (map node_key cs') = insert (data_key data) (set (map node_key cs))
    \<and> (\<forall>x \<in> set cs'. x \<in> set cs \<or> phantom_of data x)"
  using assms(3)
proof (induction cs)
  case Nil
  obtain p where "MakePhantomNode Q c data (st, n) = Some (p, (st, n + 1))" "phantom_of data (phantom_node p)"
    by (rule MakePhantomNode_quiet [OF assms(1,2)])
  then show ?case by (simp add: phantom_of_key)
next
  case (Cons x cs)
  show ?case
  proof (cases "same_segment data x")
    case True
    obtain p where "MakePhantomNode Q c data (st, n) = Some (p, (st, n + 1))" "phantom_of data (phantom_node p)"
      by (rule MakePhantomNode_quiet [OF assms(1,2)])
    then show ?thesis using True Cons.prems by (cases "replaces data x") (auto simp: phantom_of_key same_segment_iff)
  next
    case False
    then have "data_key data \<noteq> node_key x" by (simp add: same_segment_iff)
    moreover from Cons obtain cs' m where "add_to_candidates Q c cs data (st, n) = Some (cs', (st, m))" "distinct (map node_key cs')"
      "set (map node_key cs') = insert (data_key data) (set (map node_key cs))" "\<forall>y \<in> set cs'. y \<in> set cs \<or> phantom_of data y" by auto
    ultimately show ?thesis using False Cons.prems by (intro exI [of _ "x # cs'"] exI [of _ m]) auto
  qed
qed

lemma collect_candidates_ok:
  assumes "lds_pending_samples st = []" "\<forall>x \<in> set xs. \<exists>lf lr. phantom_input_ok Q c (cand_data x) st lf lr"
    and "distinct (map node_key near)" "distinct (map node_key big)"
  shows "\<exists>near' big' m. collect_candidates Q c loc xs (near, big) (st, n) = Some ((near', big'), (st, m))
    \<and> distinct (map node_key near') \<and> distinct (map node_key big') \<and> (near \<noteq> [] \<or> (xs \<noteq> [] \<and> fixed_projected_coordinate (hd xs) = loc) \<longrightarrow> near' \<noteq> [])
    \<and> (\<forall>y \<in> set near' \<union> set big'. y \<in> set near \<union> set big \<or> (\<exists>x \<in> set xs. phantom_of (cand_data x) y))"
  using assms(2-4)
proof (induction xs arbitrary: near big n)
  case (Cons x xs)
  from Cons.prems(1) obtain lf lr where ok: "phantom_input_ok Q c (cand_data x) st lf lr" by auto
  have rest: "\<forall>x \<in> set xs. \<exists>lf lr. phantom_input_ok Q c (cand_data x) st lf lr" using Cons.prems(1) by simp
  show ?case
  proof (cases "fixed_projected_coordinate x = loc")
    case True
    from add_to_candidates_ok [OF assms(1) ok Cons.prems(2), of n] obtain a k where
      a: "add_to_candidates Q c near (cand_data x) (st, n) = Some (a, (st, k))" "a \<noteq> []" "distinct (map node_key a)"
      "\<forall>y \<in> set a. y \<in> set near \<or> phantom_of (cand_data x) y" by blast
    from Cons.IH [OF rest a(3) Cons.prems(3), of k] obtain near' big' m where
      "collect_candidates Q c loc xs (a, big) (st, k) = Some ((near', big'), (st, m))" "distinct (map node_key near')" "distinct (map node_key big')" "near' \<noteq> []"
      "\<forall>y \<in> set near' \<union> set big'. y \<in> set a \<union> set big \<or> (\<exists>x \<in> set xs. phantom_of (cand_data x) y)" using a(2) by blast
    then show ?thesis using a True by (intro exI [of _ near'] exI [of _ big'] exI [of _ m]) auto
  next
    case False
    from add_to_candidates_ok [OF assms(1) ok Cons.prems(3), of n] obtain a k where
      a: "add_to_candidates Q c big (cand_data x) (st, n) = Some (a, (st, k))" "distinct (map node_key a)"
      "\<forall>y \<in> set a. y \<in> set big \<or> phantom_of (cand_data x) y" by blast
    from Cons.IH [OF rest Cons.prems(2) a(2), of k] obtain near' big' m where
      "collect_candidates Q c loc xs (near, a) (st, k) = Some ((near', big'), (st, m))" "distinct (map node_key near')" "distinct (map node_key big')"
      "near \<noteq> [] \<longrightarrow> near' \<noteq> []"
      "\<forall>y \<in> set near' \<union> set big'. y \<in> set near \<union> set a \<or> (\<exists>x \<in> set xs. phantom_of (cand_data x) y)" by blast
    then show ?thesis using a False by (intro exI [of _ near'] exI [of _ big'] exI [of _ m]) auto
  qed
qed simp

text \<open>What the filter's variables say of the results so far; \<open>P\<close> is what the kept candidates have in common.\<close>

definition snap_inv :: "(CandidateSegment \<Rightarrow> bool) \<Rightarrow> CandidateSegment list \<Rightarrow> snap_vars \<Rightarrow> bool" where
  "snap_inv P results v \<longleftrightarrow> (has_nearest v \<longleftrightarrow> results \<noteq> []) \<and> (results \<noteq> [] \<longrightarrow> fixed_projected_coordinate (hd results) = nearest_coord v) \<and> (\<forall>r \<in> set results. P r)"

definition checks_ok :: "GeospatialQuery \<Rightarrow> Coordinate \<Rightarrow> SnapOptions \<Rightarrow> CandidateSegment \<Rightarrow> bool" where
  "checks_ok Q c opts x \<longleftrightarrow> use_segment Q c opts x \<noteq> None \<and> GetSegmentDistance Q c x \<noteq> None"

lemma use_segment_enabled:
  assumes "use_segment Q c opts x = Some use"
  shows "fst use \<longrightarrow> enabled (ebn_forward_segment_id (cand_data x))" "snd use \<longrightarrow> enabled (ebn_reverse_segment_id (cand_data x))"
  using assms by (auto simp: use_segment_def both_def HasValidEdge_def Let_def bind_eq_Some_conv split: if_splits)

definition kept :: "CandidateSegment list \<Rightarrow> CandidateSegment \<Rightarrow> bool" where
  "kept xs r \<longleftrightarrow> (\<exists>x \<in> set xs. \<exists>use. r = restrict_enabled use x)
     \<and> (enabled (ebn_forward_segment_id (cand_data r)) \<or> enabled (ebn_reverse_segment_id (cand_data r)))"

lemma candidate_filter_cases:
  assumes "checks_ok Q c opts x"
  obtains "candidate_filter Q c opts x v = Some ((False, False), v)"
  | use v' where "candidate_filter Q c opts x v = Some (use, v')" "use_segment Q c opts x = Some use" "fst use \<or> snd use"
      "has_nearest v'" "nearest_coord v' = (if has_nearest v then nearest_coord v else fixed_projected_coordinate x)"
proof -
  let ?b = "\<not> IsTinyComponent Q x"
  let ?rej = "(\<not> ?b \<and> has_nearest v \<and> fixed_projected_coordinate x \<noteq> nearest_coord v)
    \<or> (?b \<and> has_big_component v \<and> fixed_projected_coordinate x \<noteq> big_component_coord v)"
  obtain f r d where u: "use_segment Q c opts x = Some (f, r)" "GetSegmentDistance Q c x = Some d" using assms by (auto simp: checks_ok_def)
  let ?v = "if has_nearest v then v else v\<lparr>has_nearest := True, nearest_coord := fixed_projected_coordinate x\<rparr>"
  let ?w = "if ?b \<and> \<not> has_big_component v
    then ?v\<lparr>has_big_component := True, big_component_coord := fixed_projected_coordinate x, big_component_distance := d\<rparr> else ?v"
  have eq: "candidate_filter Q c opts x v = Some (if ?rej \<or> \<not> (f \<or> r) then ((False, False), v) else ((f, r), ?w))"
  proof (cases ?rej)
    case False
    then show ?thesis unfolding candidate_filter_def Let_def u bind.bind_lunit
      by (cases "f \<or> r"; cases "has_nearest v"; cases "has_big_component v"; cases ?b) simp_all
  qed (simp add: candidate_filter_def)
  show ?thesis
  proof (cases "?rej \<or> \<not> (f \<or> r)")
    case True
    show ?thesis by (rule that(1)) (simp only: eq True if_True)
  next
    case False
    then have e: "candidate_filter Q c opts x v = Some ((f, r), ?w)" by (simp only: eq if_False)
    from False have "f \<or> r" by blast
    then show ?thesis by (intro that(2) [OF e u(1)]) auto
  qed
qed

lemma candidate_step:
  assumes "checks_ok Q c opts x" "snap_inv (kept ys) results v" "x \<in> set ys"
  shows "\<exists>use v'. candidate_filter Q c opts x v = Some (use, v') \<and>
    snap_inv (kept ys) (if \<not> fst use \<and> \<not> snd use then results else results @ [restrict_enabled use x]) v'"
  using assms(1)
proof (cases rule: candidate_filter_cases [where v = v])
  case 1
  then show ?thesis using assms(2) by simp
next
  case (2 use v')
  have "kept ys (restrict_enabled use x)"
    using 2(3) use_segment_enabled [OF 2(2)] assms(3) by (auto simp: kept_def restrict_enabled_def)
  moreover have "fixed_projected_coordinate (restrict_enabled use x) = fixed_projected_coordinate x" by (simp add: restrict_enabled_def)
  ultimately have "snap_inv (kept ys) (results @ [restrict_enabled use x]) v'"
    using assms(2) 2(4,5) by (simp add: snap_inv_def hd_append)
  then show ?thesis using 2(1,3) by auto
qed

lemma candidate_scan:
  assumes "\<forall>x \<in> set xs. checks_ok Q c opts x \<and> x \<in> set ys" "snap_inv (kept ys) results v"
  shows "\<exists>results' v'. scan (candidate_filter Q c opts) (candidate_terminate Q c opts) xs results v = Some (results', v') \<and> snap_inv (kept ys) results' v'"
  using assms
proof (induction xs arbitrary: results v)
  case (Cons x xs)
  obtain d where d: "GetSegmentDistance Q c x = Some d" using Cons.prems(1) by (auto simp: checks_ok_def)
  then obtain stop where stop: "candidate_terminate Q c opts (length results) x v = Some stop" by (simp add: candidate_terminate_def)
  from candidate_step [of Q c opts x ys results v] Cons.prems obtain use v' where
    u: "candidate_filter Q c opts x v = Some (use, v')"
      "snap_inv (kept ys) (if \<not> fst use \<and> \<not> snd use then results else results @ [restrict_enabled use x]) v'" by auto
  show ?case using Cons.IH [OF _ u(2)] Cons.prems u(1) stop by (cases stop) auto
qed auto

text \<open>What a kept candidate shares with the segment it comes from.\<close>

definition kept_of :: "EdgeBasedNodeSegment list \<Rightarrow> EdgeBasedNodeSegment \<Rightarrow> bool" where
  "kept_of objects data \<longleftrightarrow> (\<exists>ob \<in> set objects. data_key data = data_key ob \<and> ebn_u data = ebn_u ob \<and> ebn_v data = ebn_v ob
       \<and> ebn_fwd_segment_position data = ebn_fwd_segment_position ob)
     \<and> (enabled (ebn_forward_segment_id data) \<or> enabled (ebn_reverse_segment_id data))"

lemma kept_data:
  assumes "kept xs r" "\<forall>x \<in> set xs. cand_data x \<in> set objects"
  shows "kept_of objects (cand_data r)"
  using assms by (fastforce simp: kept_def kept_of_def restrict_enabled_def data_key_def)

lemma kept_phantom:
  assumes "kept_of objects data" "phantom_of data x"
  shows "(enabled (forward_segment_id x) \<or> enabled (reverse_segment_id x)) \<and> node_key x \<in> data_key ` set objects"
  using assms phantom_of_key [OF assms(2)] by (auto simp: kept_of_def phantom_of_def)

lemma kept_input:
  assumes "kept_of objects data" "\<forall>ob \<in> set objects. \<exists>lf lr. phantom_input_ok Q c ob st lf lr"
  shows "\<exists>lf lr. phantom_input_ok Q c data st lf lr"
proof -
  from assms(1) obtain ob where "ob \<in> set objects" "data_key data = data_key ob" "ebn_u data = ebn_u ob" "ebn_v data = ebn_v ob"
    "ebn_fwd_segment_position data = ebn_fwd_segment_position ob" by (auto simp: kept_of_def)
  moreover from this have "phantom_input_ok Q c data st = phantom_input_ok Q c ob st" by (simp add: phantom_input_ok_def data_key_def fun_eq_iff)
  ultimately show ?thesis using assms(2) by auto
qed

section \<open>Bearings\<close>

definition bearing_gap :: "int \<Rightarrow> int \<Rightarrow> int" where
  "bearing_gap A B = (let d = (A - B) mod 360 in min d (360 - d))"

lemma bearing_gap_normal:
  assumes "0 \<le> a" "a < 360" "0 \<le> b" "b < 360"
  shows "bearing_gap a b = (if \<bar>a - b\<bar> \<le> 180 then \<bar>a - b\<bar> else 360 - \<bar>a - b\<bar>)"
proof (cases "b \<le> a")
  case True
  then have "(a - b) mod 360 = a - b" using assms by simp
  then show ?thesis using True by (simp add: bearing_gap_def)
next
  case False
  then have "(a - b) mod 360 = a - b + 360" using assms mod_add_self2 [of "a - b" 360] mod_pos_pos_trivial [of "a - b + 360" 360] by simp
  then show ?thesis using False by (simp add: bearing_gap_def)
qed

section \<open>A small query\<close>

text \<open>The three one-way segments of the small network of the R-tree; all of them have a live weight of 10.\<close>

definition snap_facade :: QueryFacade where
  "snap_facade = \<lparr>Traffic_Aggregator.BaseDataFacade.NearestPhantomNodes = (\<lambda>c. []), GetGeometryIndex = (\<lambda>node. node),
     GetUncompressedForwardGeometry = (\<lambda>g. [g, g + 1]), GetUncompressedForwardWeights = (\<lambda>g. [10]), GetUncompressedReverseWeights = (\<lambda>g. [10]),
     GetCoordinateOfNode = (\<lambda>n. demo_coordinates ! unat n), GeometryForward = (\<lambda>n. True), GetUncompressedReverseGeometry = (\<lambda>g. [g + 1, g]),
     GetUncompressedForwardDurations = (\<lambda>g. [7]), GetUncompressedReverseDurations = (\<lambda>g. [7]),
     GetUncompressedForwardDatasources = (\<lambda>g. [0]), GetUncompressedReverseDatasources = (\<lambda>g. [0]),
     GetTurnID = (\<lambda>n. n), GetDurationPenaltyForEdgeID = (\<lambda>n. 0), GetWeightPenaltyForEdgeID = (\<lambda>n. 0),
     GetComponentID = (\<lambda>n. \<lparr>cmp_id = n, is_tiny = (n = 2)\<rparr>), ExcludeNode = (\<lambda>n. False), IsLeftHandDriving = (\<lambda>n. False)\<rparr>"

definition demo_query :: "StaticRTree \<Rightarrow> GeospatialQuery" where
  "demo_query t = \<lparr>gq_rtree = t, gq_coordinates = demo_coordinates, gq_facade = snap_facade,
     gq_geo = \<lparr>mercator = demo_mercator, greatCircleDistance = (\<lambda>a b. Fin (of_int (\<bar>crd_lon a - crd_lon b\<bar> + \<bar>crd_lat a - crd_lat b\<bar>) / 9)), bearing_between = (\<lambda>a b. Fin 90)\<rparr>,
     gq_pop = pop_nearest, gq_clock = (\<lambda>n. (0, 0))\<rparr>"

definition demo_options :: SnapOptions where
  "demo_options = \<lparr>snap_approach = UNRESTRICTED, snap_max_results = None, snap_max_distance = None,
     snap_bearing = Some \<lparr>brg_bearing = 90, brg_range = 20\<rparr>, snap_use_all_edges = None\<rparr>"

abbreviation demo_input :: Coordinate where
  "demo_input \<equiv> \<lparr>crd_lon = 8000, crd_lat = 8000\<rparr>"

lemma demo_point:
  assumes "data \<in> set demo_segments"
  shows "perpendicularDistance (gq_geo (demo_query t)) (demo_coordinates ! ebn_u data) (demo_coordinates ! ebn_v data) demo_input \<noteq> None"
  and "point_ok (object_point demo_mercator demo_coordinates demo_input data)"
proof -
  have "object_ok demo_coordinates data" using assms demo_network(3) by blast
  note o = object_point_in_box [OF demo_network(1,2) this demo_network(6)]
  have "toWGS84 demo_mercator x = x" for x by (simp add: toWGS84_def demo_mercator_def)
  then show "perpendicularDistance (gq_geo (demo_query t)) (demo_coordinates ! ebn_u data) (demo_coordinates ! ebn_v data) demo_input \<noteq> None"
    using o(1) by (simp add: perpendicularDistance_def demo_query_def case_prod_unfold Let_def)
  show "point_ok (object_point demo_mercator demo_coordinates demo_input data)" by (rule o(2))
qed

lemma demo_live: "ApplyLiveTrafficToSegmentWeights lds_init g ws = Some ws"
  by (simp add: ApplyLiveTrafficToSegmentWeights_def lds_get_def lds_init_def)

lemma demo_angle: "fp_to_i32 (Fin 90) = Some 90" "fp_to_u16 (Fin 90) = Some 90"
  by (simp_all add: fp_to_u16_def trunc_def)

lemma demo_phantom_input:
  assumes "data \<in> set demo_segments"
  shows "phantom_input_ok (demo_query t) demo_input data lds_init [10] [10]"
  using demo_point(1) [OF assms, of t] assms
  by (auto simp: phantom_input_ok_def Let_def demo_live demo_angle demo_query_def snap_facade_def demo_segments_def demo_segment_def demo_coordinates_def)

lemma demo_checks:
  assumes "data \<in> set demo_segments"
  shows "checks_ok (demo_query t) demo_input demo_options
    \<lparr>fixed_projected_coordinate = object_point demo_mercator demo_coordinates demo_input data, cand_data = data\<rparr>"
proof -
  have "Coordinate_of_float (toWGS84 demo_mercator (FloatCoordinate_of_fixed p)) = Some p" if "point_ok p" for p
  proof -
    have "in_i32 (crd_lon p)" "in_i32 (crd_lat p)" using that by (auto simp: point_ok_def in_i32_def)
    then show ?thesis by (simp add: Coordinate_of_float_def toWGS84_def demo_mercator_def FloatCoordinate_of_fixed_def toFixed_toFloating)
  qed
  note d = this [OF demo_point(2) [OF assms]]
  have b: "ebn_u data < length demo_coordinates" "ebn_v data < length demo_coordinates" "ebn_fwd_segment_position data = 0"
    using assms by (auto simp: demo_segments_def demo_segment_def demo_coordinates_def)
  have r: "fp_to_i32 (fp_round (Fin 90)) = Some 90" "fp_to_i32 (fp_round (Fin 270)) = Some 270" by (simp_all add: round_away_def floor_eq_iff)
  have "CheckSegmentBearing (demo_query t) \<lparr>fixed_projected_coordinate = q, cand_data = data\<rparr> f \<noteq> None" for q f
    using b r by (simp add: CheckSegmentBearing_def Let_def demo_query_def vector_at_def)
  moreover have "HasValidEdge (demo_query t) \<lparr>fixed_projected_coordinate = q, cand_data = data\<rparr> f \<noteq> None" for q f
    using b by (simp add: HasValidEdge_def Let_def demo_query_def snap_facade_def vector_at_def)
  moreover have "CheckApproach (demo_query t) demo_input x (snap_approach demo_options) = Some (True, True)" for x
    by (simp add: CheckApproach_def demo_options_def)
  ultimately have "use_segment (demo_query t) demo_input demo_options \<lparr>fixed_projected_coordinate = q, cand_data = data\<rparr> \<noteq> None" for q
    by (simp add: use_segment_def bind_eq_None_conv split: option.split del: not_None_eq)
  moreover have "GetSegmentDistance (demo_query t) demo_input
      \<lparr>fixed_projected_coordinate = object_point demo_mercator demo_coordinates demo_input data, cand_data = data\<rparr> \<noteq> None"
    using d by (simp add: GetSegmentDistance_def demo_query_def)
  ultimately show ?thesis by (simp add: checks_ok_def)
qed

text \<open>Two positions on one geometry; the first is closed in reverse.\<close>

definition pair_segment :: "nat \<Rightarrow> EdgeBasedNodeSegment" where
  "pair_segment i = \<lparr>ebn_forward_segment_id = \<lparr>seg_id = 4, enabled = True\<rparr>, ebn_reverse_segment_id = \<lparr>seg_id = 5, enabled = (i = 1)\<rparr>,
     ebn_u = i, ebn_v = i + 1, ebn_fwd_segment_position = i, is_startpoint = True\<rparr>"

definition pair_query :: GeospatialQuery where
  "pair_query = (let Q = demo_query \<lparr>BRANCHING_FACTOR = 2, LEAF_NODE_SIZE = 1, m_search_tree = [], m_tree_level_starts = [], m_objects = [], m_coordinate_list = []\<rparr> in
     Q\<lparr>gq_facade := snap_facade\<lparr>GetUncompressedForwardGeometry := (\<lambda>g. [0, 1, 2]), GetUncompressedForwardWeights := (\<lambda>g. [10, 10]),
       GetUncompressedReverseWeights := (\<lambda>g. [10, 10]), GetUncompressedForwardDurations := (\<lambda>g. [7, 7]), GetUncompressedReverseDurations := (\<lambda>g. [7, 7])\<rparr>\<rparr>)"

lemma pair_phantom_input: "phantom_input_ok pair_query demo_input (pair_segment 0) lds_init [10, 10] [10, 10]"
  "phantom_input_ok pair_query demo_input (pair_segment 1) lds_init [10, 10] [10, 10]"
  using demo_point(1) [of "demo_segment 0"] demo_point(1) [of "demo_segment 1"]
  by (simp_all add: phantom_input_ok_def Let_def demo_live demo_angle pair_query_def demo_query_def snap_facade_def pair_segment_def
      demo_segments_def demo_segment_def demo_coordinates_def)

section \<open>Properties\<close>

text \<open>
  C14.  The bearing filter.  For bearings from 0 upwards the test accepts exactly the directions whose angle to the
  wanted bearing, taken around the circle, is at most the range, with one exception: when the range ends
  exactly at 360 degrees, the direction 0 is rejected although it is the end of the range.
\<close>

theorem CheckInBounds_circular:
  assumes "0 \<le> A" "0 \<le> B"
  shows "CheckInBounds A B rng \<longleftrightarrow> bearing_gap A B \<le> rng \<and> \<not> (rng < 180 \<and> B mod 360 + rng = 360 \<and> A mod 360 = 0)"
proof -
  have n: "normalize_bearing A = A mod 360" "normalize_bearing B = B mod 360" using assms by (simp_all add: normalize_bearing_def)
  have "bearing_gap A B = bearing_gap (A mod 360) (B mod 360)" by (simp add: bearing_gap_def mod_diff_eq)
  moreover have "0 \<le> A mod 360" "A mod 360 < 360" "0 \<le> B mod 360" "B mod 360 < 360" by simp_all
  moreover have "bearing_gap a b = (if \<bar>a - b\<bar> \<le> 180 then \<bar>a - b\<bar> else 360 - \<bar>a - b\<bar>)" if "0 \<le> a" "a < 360" "0 \<le> b" "b < 360" for a b
    by (rule bearing_gap_normal [OF that])
  ultimately show ?thesis unfolding CheckInBounds_def Let_def n by (smt (verit))
qed

theorem CheckInBounds_circular_witness:
  "CheckInBounds 10 350 20 \<and> \<not> CheckInBounds 0 350 10 \<and> bearing_gap 0 350 = 10"
  using CheckInBounds_circular [of 10 350 20] CheckInBounds_circular [of 0 350 10] by (simp add: bearing_gap_def)

text \<open>
  C12.  Snapping to a segment.  On well-formed data the phantom node is defined and keeps the position and the
  directions of the segment.  Its weights are taken from the live weights after the pending samples: the offsets are
  the sums before and behind the segment, the parts stay within the weight of the segment, and the four
  add up to the whole when both directions exist and weigh the same.  A direction that can be a source can be a target.
\<close>

theorem MakePhantomNode_splits:
  assumes "AggregatePendingTrafficSamples (Traffic_Aggregator.BaseDataFacade.truncate (gq_facade Q)) (lds_stale_seconds st)
      (fst (gq_clock Q n)) (snd (gq_clock Q n)) st = Some st'" "phantom_input_ok Q c data st' lf lr"
  shows "\<exists>p. MakePhantomNode Q c data (st, n) = Some (p, (st', n + 1)) \<and> phantom_of data (phantom_node p) \<and> splits data lf lr (phantom_node p)
    \<and> (is_valid_forward_source (phantom_node p) \<longrightarrow> is_valid_forward_target (phantom_node p))
    \<and> (is_valid_reverse_source (phantom_node p) \<longrightarrow> is_valid_reverse_target (phantom_node p))"
  by (rule MakePhantomNode_ok [OF assms])

theorem MakePhantomNode_splits_witness:
  "\<forall>t. \<exists>p. MakePhantomNode (demo_query t) demo_input (demo_segment 2) (lds_init, 0) = Some (p, (lds_init, 1))
    \<and> phantom_of (demo_segment 2) (phantom_node p) \<and> splits (demo_segment 2) [10] [10] (phantom_node p)"
proof
  fix t
  have "lds_pending_samples lds_init = []" "demo_segment 2 \<in> set demo_segments" by (simp_all add: lds_init_def demo_segments_def)
  from MakePhantomNode_splits [OF aggregate_no_pending [OF this(1)] demo_phantom_input [OF this(2)], of t 0]
  show "\<exists>p. MakePhantomNode (demo_query t) demo_input (demo_segment 2) (lds_init, 0) = Some (p, (lds_init, 1))
    \<and> phantom_of (demo_segment 2) (phantom_node p) \<and> splits (demo_segment 2) [10] [10] (phantom_node p)" by auto
qed

text \<open>
  C13.  Candidates of one segment.  Of two edges with the same node ids one becomes the candidate, in
  whichever order the search finds them: the one at the lower position, unless only the other can be used in both
  directions.
\<close>

theorem add_to_candidates_order:
  assumes "lds_pending_samples st = []" "phantom_input_ok Q c e1 st lf1 lr1" "phantom_input_ok Q c e2 st lf2 lr2"
    and "data_key e1 = data_key e2" "ebn_fwd_segment_position e1 < ebn_fwd_segment_position e2"
  shows "\<exists>x y k l. do { (cs, s) \<leftarrow> add_to_candidates Q c [] e1 (st, n); add_to_candidates Q c cs e2 s } = Some ([x], (st, k))
    \<and> do { (cs, s) \<leftarrow> add_to_candidates Q c [] e2 (st, n); add_to_candidates Q c cs e1 s } = Some ([y], (st, l))
    \<and> phantom_of (if both_ways e2 \<and> \<not> both_ways e1 then e2 else e1) x \<and> phantom_of (if both_ways e2 \<and> \<not> both_ways e1 then e2 else e1) y"
proof -
  obtain p1 where p1: "MakePhantomNode Q c e1 (st, n) = Some (p1, (st, n + 1))" "phantom_of e1 (phantom_node p1)"
    by (rule MakePhantomNode_quiet [OF assms(1,2)])
  obtain p2 where p2: "MakePhantomNode Q c e2 (st, n) = Some (p2, (st, n + 1))" "phantom_of e2 (phantom_node p2)"
    by (rule MakePhantomNode_quiet [OF assms(1,3)])
  obtain q1 where q1: "MakePhantomNode Q c e1 (st, n + 1) = Some (q1, (st, n + 1 + 1))" "phantom_of e1 (phantom_node q1)"
    by (rule MakePhantomNode_quiet [OF assms(1,2)])
  obtain q2 where q2: "MakePhantomNode Q c e2 (st, n + 1) = Some (q2, (st, n + 1 + 1))" "phantom_of e2 (phantom_node q2)"
    by (rule MakePhantomNode_quiet [OF assms(1,3)])
  have s: "same_segment e2 (phantom_node p1)" "same_segment e1 (phantom_node p2)"
    using phantom_of_key [OF p1(2)] phantom_of_key [OF p2(2)] assms(4) by (simp_all add: same_segment_iff)
  have r: "replaces e2 (phantom_node p1) \<longleftrightarrow> both_ways e2 \<and> \<not> both_ways e1"
    "replaces e1 (phantom_node p2) \<longleftrightarrow> \<not> (both_ways e2 \<and> \<not> both_ways e1)"
    using p1(2) p2(2) assms(5) by (auto simp: replaces_def phantom_of_def)
  show ?thesis
  proof (cases "both_ways e2 \<and> \<not> both_ways e1")
    case True
    then have "replaces e2 (phantom_node p1)" "\<not> replaces e1 (phantom_node p2)" using r by blast+
    with True show ?thesis using p1 p2 q2 s by simp
  next
    case False
    then have "\<not> replaces e2 (phantom_node p1)" "replaces e1 (phantom_node p2)" using r by blast+
    then show ?thesis unfolding if_not_P [OF False] using p1 p2 q1 s by simp
  qed
qed



theorem add_to_candidates_order_witness:
  "\<exists>x y k l. do { (cs, s) \<leftarrow> add_to_candidates pair_query demo_input [] (pair_segment 0) (lds_init, 0);
      add_to_candidates pair_query demo_input cs (pair_segment 1) s } = Some ([x], (lds_init, k))
    \<and> do { (cs, s) \<leftarrow> add_to_candidates pair_query demo_input [] (pair_segment 1) (lds_init, 0);
      add_to_candidates pair_query demo_input cs (pair_segment 0) s } = Some ([y], (lds_init, l))
    \<and> phantom_of (pair_segment 1) x \<and> phantom_of (pair_segment 1) y"
proof -
  have "lds_pending_samples lds_init = []" "data_key (pair_segment 0) = data_key (pair_segment 1)"
    "ebn_fwd_segment_position (pair_segment 0) < ebn_fwd_segment_position (pair_segment 1)"
    "both_ways (pair_segment 1) \<and> \<not> both_ways (pair_segment 0)"
    by (simp_all add: lds_init_def data_key_def pair_segment_def)
  then show ?thesis
    using add_to_candidates_order [of lds_init pair_query demo_input "pair_segment 0" "[10, 10]" "[10, 10]" "pair_segment 1" "[10, 10]" "[10, 10]" 0]
      pair_phantom_input by simp
qed

end
