(* ===== verification/Spec2Isabelle.thy ===== *)
theory Spec2Isabelle
  imports Live_Traffic_System Match_Tidy Request_Parser Query_Heap Multi_Level_Partition Dynamic_Graph Trip_Plugin Geospatial_Query
begin

text \<open>
  A verification library for a fork of the Open Source Routing Machine that reads live traffic over UDP
  and applies it to routes.

  \<^bold>\<open>The program.\<close>  Vehicles send batches of position and speed samples as protocol buffer datagrams.
  A receiver thread (\<^verbatim>\<open>include/engine/traffic_updater.hpp\<close>) decodes and checks them and appends them to a
  process-wide store (\<^verbatim>\<open>include/engine/live_data_store.hpp\<close>).  When a request needs weights, the aggregator
  (\<^verbatim>\<open>include/engine/traffic_aggregator.hpp\<close>) snaps the pending samples to road geometries, averages the
  latest sample of every user, stores one entry per geometry and drops stale entries; its weight factors then
  scale the segment weights of phantom nodes and annotated paths.  The traffic service reports the store's
  contents for a bounding box.  Around this lies the routing engine: request parameters and their tests, the HTTP request
  parser, the R-tree that finds segments near a coordinate, the query heap of the searches, the multi-level partition, the dynamic
  graph of the contraction, plugins.

  \<^bold>\<open>Conventions.\<close>  Undefined behaviour (signed overflow, an index outside of a vector, a conversion that
  does not fit) is the value \<^term>\<open>None\<close>, so that a theorem with a result \<^term>\<open>Some\<close> also says that the code runs
  without it; exceptions and error answers are values of their own.  A double is a rational, an infinity
  or NaN: comparisons with NaN and NaN propagation are as in IEEE 754, rounding to 53 bits is not modelled.
  Integers are words where the code wraps around and checked integers where it must not.  A hash map is an
  association list, a virtual interface or a third-party class a record of functions, a derived struct a record
  extension, and unspecified memory a parameter.  Clock readings and socket results are
  arguments.  Loops without an evident end are partial functions, and that they return is proved; there is no fuel.

  \<^bold>\<open>Theories.\<close>
    \<^item> \<open>Osrm_Prelude\<close>: C++ arithmetic, named collections, association lists.  \<open>Std_String\<close>: the string functions of the standard
      library that the services use.
    \<^item> \<open>Protozero\<close> (\<^verbatim>\<open>third_party/protozero\<close>), \<open>Traffic_Protobuf\<close> (\<^verbatim>\<open>traffic_protobuf.hpp\<close>): readers and writers of the wire
      format; a batch survives encoding and decoding.
    \<^item> \<open>Live_Data_Store\<close>: the store as a record, its operations as atomic steps.  Lookup after every operation, and that any
      sequence of calls keeps the store well-formed.  The locale \<open>segment_cache\<close> is the contract the aggregator uses.
    \<^item> \<open>Traffic_Updater\<close>: \<^verbatim>\<open>processPacket\<close>, one datagram, the receive loop and the start of the receiver; what a
      datagram stores and counts, also when it is malformed part-way, and that only checked samples are stored.
    \<^item> \<open>Traffic_Aggregator\<close>: grouping, averaging, eviction and weight scaling; the store after an aggregation, the mean
      speed and weight factor, bounds and monotonicity of the scaled weights, the undefined NaN case.
    \<^item> \<open>Live_Traffic_System\<close>: receiver and requests as one step relation over all interleavings, with an invariant
      by rule induction and the bounds it gives for the weights of every reachable state.
    \<^item> \<open>Traffic_Api\<close> (\<^verbatim>\<open>traffic_parameters.hpp\<close>, \<^verbatim>\<open>traffic_api.hpp\<close>, \<^verbatim>\<open>plugins/traffic.cpp\<close>, \<^verbatim>\<open>traffic_service.cpp\<close>): the traffic
      service; the segments of a response, and which error answers can occur.
    \<^item> \<open>Coordinates\<close>, \<open>Polyline\<close>: fixed and floating coordinates; the polyline code and its round trip.
    \<^item> \<open>Parameters\<close>, \<open>Match_Tidy\<close>: the parameter structs with their validity tests; the thinning of match requests.
    \<^item> \<open>Request_Parser\<close> (\<^verbatim>\<open>src/server/request_parser.cpp\<close>): the parser's state machine, its invariant, and that
      the text of a well-formed request is accepted.  The locale \<open>case_insensitive\<close> states what it needs of Boost's comparisons.
    \<^item> \<open>Hilbert_Code\<close>, \<open>Static_RTree\<close>, \<open>Static_RTree_Search\<close> (\<^verbatim>\<open>hilbert_value.hpp\<close>, \<^verbatim>\<open>rectangle.hpp\<close>, \<^verbatim>\<open>static_rtree.hpp\<close>):
      the codes on the Hilbert curve are injective; a tree built from any segments is well-formed; its best-first search visits
      the segments in order of distance and so returns the nearest ones, and the search in a box is complete.
      The locale \<open>priority_queue\<close> is the contract of \<^verbatim>\<open>std::priority_queue\<close>.
    \<^item> \<open>Geospatial_Query\<close> (\<^verbatim>\<open>geospatial_query.hpp\<close>, \<^verbatim>\<open>CheckInBounds\<close> of \<^verbatim>\<open>bearing.hpp\<close>): filters, candidates and phantom nodes; the candidate
      search returns without duplicates, snapping splits the live weights of a segment, the choice between two edges of a
      segment does not depend on their order, and the bearing filter tests the circular distance but for one case.
    \<^item> \<open>Annotate_Path\<close> (\<^verbatim>\<open>annotatePath\<close> of \<^verbatim>\<open>routing_base.hpp\<close>): the via nodes and total weight of an annotated path, and that
      live traffic changes nothing but weights.
    \<^item> \<open>Query_Heap\<close> (\<^verbatim>\<open>query_heap.hpp\<close>): the queue with each of its index storages refines a finite map from nodes to weights and
      data; the locales \<open>mutable_heap\<close> (Boost's heap), \<open>index_storage\<close> and \<open>query_heap\<close> are its interfaces.
    \<^item> \<open>Multi_Level_Partition\<close> (\<^verbatim>\<open>multi_level_partition.hpp\<close>, \<^verbatim>\<open>msb.hpp\<close>): packing of cells into words, construction from bisections,
      children and query levels.
    \<^item> \<open>Permutation\<close>, \<open>Dynamic_Graph\<close> (\<^verbatim>\<open>permutation.hpp\<close>, \<^verbatim>\<open>dynamic_graph.hpp\<close>): the in-place permutation ends and permutes; the
      graph's operations refine those on a multiset of edges.
    \<^item> \<open>Plugin_Base\<close> (\<^verbatim>\<open>phantom_node.hpp\<close>, \<^verbatim>\<open>hint.cpp\<close>, \<^verbatim>\<open>plugin_base.hpp\<close>): phantom nodes, hints, and the snapping and checks all plugins share.
    \<^item> \<open>Trip\<close>, \<open>Trip_Plugin\<close> (\<^verbatim>\<open>include/engine/trip\<close>, \<^verbatim>\<open>plugins/trip.cpp\<close>): trips by all permutations, which are optimal, and by farthest
      insertion; the whole handler of a trip request, with its errors.

  \<^bold>\<open>Bounds.\<close>  Hypotheses on sizes are those of the code's types: fewer than \<open>2 ^ 32\<close> nodes, edges or objects, time
  stamps and weights that fit their integers.  Template arguments (branching factor, leaf size, index storage, precision)
  are arguments of the model.

  \<^bold>\<open>Not modelled.\<close>  The path searches themselves (templates over the data facade and several heaps), the plugins other than trip and traffic
  and the assembly of JSON, FlatBuffers and vector tile responses; guidance (heuristics on angles without a contract);
  extraction, contraction, partitioning and customization (whole-program passes over files, with threads and Lua);
  storage, shared memory and the asynchronous server (operating system resources); trigonometric functions
  (great circle distances, bearings, the mercator projection), which are parameters of the definitions that use them; the memory image
  that a hint is encoded from; and \<^verbatim>\<open>LiveWeightedDataFacade\<close>, which cannot be instantiated.
\<close>

end
